(* ===== verification/Vss_Prelude.thy ===== *)
theory Vss_Prelude
  imports Main "HOL-Library.Word" "HOL-Library.Monad_Syntax"
begin

text \<open>
  What every part of the development shares: the machine integers, the outcome of a Rust
  computation, and the part of the Rust language and standard library the sources use
  (checked and saturating arithmetic, slices, little-endian integers, UTF-16, number
  formatting), with the lemmas that let \<open>simp\<close> carry the proofs of the components.

  \<^item> A fixed-width integer is a word. \<open>usize\<close> is the 64-bit one of the targets the program is
    built for and is a \<open>nat\<close>, its range checks written out, because it indexes slices.
  \<^item> A pure computation that may panic has type \<open>'a option\<close>, and \<open>None\<close> is the panic: an
    overflowing \<open>+\<close> or \<open>-\<close> (overflow checks on), an index or range outside its slice, a
    \<open>copy_from_slice\<close> between different lengths.
  \<^item> A computation on a reader of type \<open>'r\<close> returns an \<open>outcome\<close> together with the reader,
    whose position it has moved.
\<close>

section \<open>Types and named collections\<close>

type_synonym u8 = "8 word"
type_synonym u16 = "16 word"
type_synonym u32 = "32 word"
type_synonym u64 = "64 word"
type_synonym usize = nat
type_synonym bytes = "u8 list"

text \<open>A Rust \<open>String\<close> is the list of its Unicode scalar values.\<close>

type_synonym rstring = "nat list"

datatype ('e, 'a) outcome = Ok 'a | Err 'e | Panic

named_theorems vss_consts \<open>the constants of the sources, with their values\<close>
named_theorems panic_free \<open>introduction rules for reader computations that do not panic\<close>
named_theorems no_panic \<open>checked steps that succeed\<close>

section \<open>Machine arithmetic\<close>

definition usize_max :: usize where
  "usize_max = 2 ^ 64 - 1"

definition isize_max :: usize where
  "isize_max = 2 ^ 63 - 1"

definition u64_max :: u64 where
  "u64_max = - 1"

text \<open>\<open>a + b\<close>, \<open>a - b\<close> on \<open>usize\<close> and \<open>a - b\<close> on \<open>u64\<close>: they panic on overflow.\<close>

definition usize_add :: "usize \<Rightarrow> usize \<Rightarrow> usize option" where
  "usize_add a b = (if a + b \<le> usize_max then Some (a + b) else None)"

definition usize_sub :: "usize \<Rightarrow> usize \<Rightarrow> usize option" where
  "usize_sub a b = (if b \<le> a then Some (a - b) else None)"

definition usize_mul :: "usize \<Rightarrow> usize \<Rightarrow> usize option" where
  "usize_mul a b = (if a * b \<le> usize_max then Some (a * b) else None)"

definition u64_sub :: "u64 \<Rightarrow> u64 \<Rightarrow> u64 option" where
  "u64_sub a b = (if b \<le> a then Some (a - b) else None)"

definition usize_saturating_mul :: "usize \<Rightarrow> usize \<Rightarrow> usize" where
  "usize_saturating_mul a b = min (a * b) usize_max"

text \<open>\<open>u64::checked_add\<close> and the saturating operations.\<close>

definition checked_add :: "u64 \<Rightarrow> u64 \<Rightarrow> u64 option" where
  "checked_add a b = (if unat a + unat b < 2 ^ 64 then Some (a + b) else None)"

definition saturating_add :: "u64 \<Rightarrow> u64 \<Rightarrow> u64" where
  "saturating_add a b = (if unat a + unat b < 2 ^ 64 then a + b else u64_max)"

definition saturating_sub :: "u64 \<Rightarrow> u64 \<Rightarrow> u64" where
  "saturating_sub a b = (if b \<le> a then a - b else 0)"

definition saturating_mul :: "u64 \<Rightarrow> u64 \<Rightarrow> u64" where
  "saturating_mul a b = (if unat a * unat b < 2 ^ 64 then a * b else u64_max)"

text \<open>\<open>x as usize\<close> and \<open>usize::try_from(x)\<close> for a \<open>u64\<close>.\<close>

definition as_usize :: "u64 \<Rightarrow> usize" where
  "as_usize x = unat x"

definition usize_try_from :: "u64 \<Rightarrow> usize option" where
  "usize_try_from x = (if unat x \<le> usize_max then Some (unat x) else None)"

section \<open>Slices\<close>

text \<open>\<open>b.get(s..e)\<close>; the panicking \<open>&b[s..e]\<close> has the same values, with \<open>None\<close> the panic.\<close>

definition slice_get :: "'a list \<Rightarrow> usize \<Rightarrow> usize \<Rightarrow> 'a list option" where
  "slice_get b s e = (if s \<le> e \<and> e \<le> length b then Some (take (e - s) (drop s b)) else None)"

text \<open>\<open>dst.copy_from_slice(src)\<close> and \<open>dst[s..e].copy_from_slice(src)\<close>, as the new \<open>dst\<close>.\<close>

definition copy_from_slice :: "'a list \<Rightarrow> 'a list \<Rightarrow> 'a list option" where
  "copy_from_slice dst src = (if length dst = length src then Some src else None)"

definition copy_into :: "'a list \<Rightarrow> usize \<Rightarrow> usize \<Rightarrow> 'a list \<Rightarrow> 'a list option" where
  "copy_into dst s e src =
     (if s \<le> e \<and> e \<le> length dst \<and> length src = e - s
      then Some (take s dst @ src @ drop e dst) else None)"

text \<open>\<open>v.get(i)\<close>.\<close>

definition vec_get :: "'a list \<Rightarrow> usize \<Rightarrow> 'a option" where
  "vec_get xs i = (if i < length xs then Some (xs ! i) else None)"

text \<open>The \<open>n\<close> elements from position \<open>s\<close> on.\<close>

definition subslice :: "'a list \<Rightarrow> nat \<Rightarrow> nat \<Rightarrow> 'a list" where
  "subslice b s n = take n (drop s b)"

section \<open>Sequencing\<close>

text \<open>The \<open>?\<close> operator on a reader computation: an error or a panic ends the function.\<close>

definition and_then ::
    "('e, 'a) outcome \<times> 'r \<Rightarrow> ('a \<Rightarrow> 'r \<Rightarrow> ('e, 'b) outcome \<times> 'r) \<Rightarrow> ('e, 'b) outcome \<times> 'r" where
  "and_then p f =
     (case p of
        (Ok a, r) \<Rightarrow> f a r
      | (Err e, r) \<Rightarrow> (Err e, r)
      | (Panic, r) \<Rightarrow> (Panic, r))"

text \<open>A pure step inside a reader computation.\<close>

definition or_panic ::
    "'a option \<Rightarrow> 'r \<Rightarrow> ('a \<Rightarrow> ('e, 'b) outcome \<times> 'r) \<Rightarrow> ('e, 'b) outcome \<times> 'r" where
  "or_panic p r f = (case p of None \<Rightarrow> (Panic, r) | Some a \<Rightarrow> f a)"

text \<open>A \<open>Result\<close> of the reader's own operation, and the conversion of the error by \<open>From\<close>.\<close>

fun lift_io :: "('e + 'a) \<times> 'r \<Rightarrow> ('e, 'a) outcome \<times> 'r" where
  "lift_io (Inr a, r) = (Ok a, r)"
| "lift_io (Inl e, r) = (Err e, r)"

fun map_err :: "('e \<Rightarrow> 'f) \<Rightarrow> ('e, 'a) outcome \<times> 'r \<Rightarrow> ('f, 'a) outcome \<times> 'r" where
  "map_err g (Ok a, r) = (Ok a, r)"
| "map_err g (Err e, r) = (Err (g e), r)"
| "map_err g (Panic, r) = (Panic, r)"

section \<open>Little-endian integers\<close>

definition le_nat :: "bytes \<Rightarrow> nat" where
  "le_nat bs = foldr (\<lambda>b acc. unat b + 256 * acc) bs 0"

definition from_le_bytes :: "bytes \<Rightarrow> 'a::len word" where
  "from_le_bytes bs = of_nat (le_nat bs)"

fun nat_le_bytes :: "nat \<Rightarrow> nat \<Rightarrow> bytes" where
  "nat_le_bytes 0 x = []"
| "nat_le_bytes (Suc n) x = of_nat (x mod 256) # nat_le_bytes n (x div 256)"

definition to_le_bytes :: "nat \<Rightarrow> 'a::len word \<Rightarrow> bytes" where
  "to_le_bytes n x = nat_le_bytes n (unat x)"

section \<open>UTF-16\<close>

definition is_surrogate :: "u16 \<Rightarrow> bool" where
  "is_surrogate u \<longleftrightarrow> 0xD800 \<le> unat u \<and> unat u \<le> 0xDFFF"

text \<open>\<open>char::decode_utf16\<close>: \<open>None\<close> is the error for an unpaired surrogate.\<close>

fun decode_utf16 :: "u16 list \<Rightarrow> nat option list" where
  "decode_utf16 [] = []"
| "decode_utf16 (u # us) =
     (if \<not> is_surrogate u then Some (unat u) # decode_utf16 us
      else if 0xDC00 \<le> unat u then None # decode_utf16 us
      else (case us of
              [] \<Rightarrow> [None]
            | u2 # us' \<Rightarrow>
                if unat u2 < 0xDC00 \<or> 0xDFFF < unat u2 then None # decode_utf16 us
                else Some ((unat u mod 0x400) * 0x400 + unat u2 mod 0x400 + 0x10000)
                       # decode_utf16 us'))"

text \<open>\<open>str::encode_utf16\<close> and the scalar values a Rust \<open>char\<close> ranges over.\<close>

definition encode_char :: "nat \<Rightarrow> u16 list" where
  "encode_char c =
     (if c < 0x10000 then [of_nat c]
      else [of_nat (0xD800 + (c - 0x10000) div 0x400), of_nat (0xDC00 + (c - 0x10000) mod 0x400)])"

definition encode_utf16 :: "rstring \<Rightarrow> u16 list" where
  "encode_utf16 s = concat (map encode_char s)"

definition is_scalar :: "nat \<Rightarrow> bool" where
  "is_scalar c \<longleftrightarrow> c < 0xD800 \<or> 0xE000 \<le> c \<and> c \<le> 0x10FFFF"

text \<open>\<open>b.chunks_exact(2)\<close>: a trailing odd byte is dropped.\<close>

fun chunks_exact2 :: "'a list \<Rightarrow> 'a list list" where
  "chunks_exact2 (a # b # xs) = [a, b] # chunks_exact2 xs"
| "chunks_exact2 _ = []"

section \<open>Formatting\<close>

definition ascii :: "string \<Rightarrow> rstring" where
  "ascii s = map of_char s"

text \<open>A number in a base, most significant digit first: \<open>to_string\<close> and \<open>{:x}\<close>.\<close>

definition digit_char :: "nat \<Rightarrow> nat" where
  "digit_char d = (if d < 10 then 48 + d else 87 + d)"

fun digits_in :: "nat \<Rightarrow> nat \<Rightarrow> rstring" where
  "digits_in b n =
     (if b < 2 \<or> n < b then [digit_char n] else digits_in b (n div b) @ [digit_char (n mod b)])"

declare digits_in.simps [simp del]

definition decimal :: "'a::len word \<Rightarrow> rstring" where
  "decimal x = digits_in 10 (unat x)"

text \<open>\<open>{:08x}\<close>.\<close>

definition hex08 :: "u32 \<Rightarrow> rstring" where
  "hex08 x = (let d = digits_in 16 (unat x) in replicate (8 - length d) 48 @ d)"

section \<open>Lemmas on arithmetic\<close>

lemma usize_max_val [vss_consts]: "usize_max = 18446744073709551615"
  by (simp add: usize_max_def)

lemma isize_max_val [vss_consts]: "isize_max = 9223372036854775807"
  by (simp add: isize_max_def)

lemma unat_lt64 [simp]: "unat (x :: u64) < 18446744073709551616"
  using unsigned_less [of x] by simp

lemma unat_le_usize_max [simp]: "unat (x :: u64) \<le> usize_max"
  unfolding usize_max_val using unat_lt64 [of x] by linarith

lemma usize_add_ok [no_panic]: "a + b \<le> usize_max \<Longrightarrow> usize_add a b = Some (a + b)"
  by (simp add: usize_add_def)

lemma usize_add_Some: "usize_add a b = Some c \<longleftrightarrow> c = a + b \<and> a + b \<le> usize_max"
  by (auto simp: usize_add_def)

lemma usize_sub_ok [no_panic]: "b \<le> a \<Longrightarrow> usize_sub a b = Some (a - b)"
  by (simp add: usize_sub_def)

lemma usize_sub_Some: "usize_sub a b = Some c \<longleftrightarrow> c = a - b \<and> b \<le> a"
  by (auto simp: usize_sub_def)

lemma usize_mul_ok [no_panic]: "a * b \<le> usize_max \<Longrightarrow> usize_mul a b = Some (a * b)"
  by (simp add: usize_mul_def)

lemma u64_sub_ok [no_panic]: "b \<le> a \<Longrightarrow> u64_sub a b = Some (a - b)"
  by (simp add: u64_sub_def)

lemma usize_try_from_Some [simp]: "usize_try_from x = Some (unat x)"
  by (simp add: usize_try_from_def)

lemma unat_add_exact: "unat (a :: u64) + unat b < 2 ^ 64 \<Longrightarrow> unat (a + b) = unat a + unat b"
  by (simp add: unat_word_ariths)

lemma checked_add_Some: "checked_add a b = Some c \<longleftrightarrow> c = a + b \<and> unat a + unat b < 2 ^ 64"
  by (auto simp: checked_add_def)

lemma checked_add_unat: "checked_add a b = Some c \<Longrightarrow> unat c = unat a + unat b"
  by (auto simp: checked_add_Some unat_add_exact)

lemma unat_u64_max [simp]: "unat u64_max = 18446744073709551615"
  by (simp add: u64_max_def unsigned_minus_1_eq_mask mask_eq_exp_minus_1)

lemma unat_saturating_add: "unat (saturating_add a b) = min (unat a + unat b) (2 ^ 64 - 1)"
  by (auto simp: saturating_add_def unat_add_exact)

lemma unat_saturating_sub: "unat (saturating_sub a b) = unat a - unat b"
  by (simp add: saturating_sub_def unat_sub word_le_nat_alt)

section \<open>Lemmas on slices\<close>

lemma length_subslice [simp]: "length (subslice b s n) = min n (length b - s)"
  by (simp add: subslice_def)

lemma nth_subslice [simp]: "s + n \<le> length b \<Longrightarrow> i < n \<Longrightarrow> subslice b s n ! i = b ! (s + i)"
  by (simp add: subslice_def)

lemma subslice_append_left: "s + n \<le> length a \<Longrightarrow> subslice (a @ c) s n = subslice a s n"
  by (simp add: subslice_def)

lemma subslice_append_right:
  "length a \<le> s \<Longrightarrow> subslice (a @ c) s n = subslice c (s - length a) n"
  by (simp add: subslice_def)

lemma subslice_all [simp]: "length b = n \<Longrightarrow> subslice b 0 n = b"
  by (simp add: subslice_def)

lemma subslice_replicate [simp]: "s + n \<le> m \<Longrightarrow> subslice (replicate m x) s n = replicate n x"
  by (simp add: subslice_def)

lemma subslice_subslice: "i + m \<le> n \<Longrightarrow> subslice (subslice b s n) i m = subslice b (s + i) m"
  by (simp add: subslice_def drop_take min_absorb1 add.commute)

lemma slice_get_ok [no_panic]:
  "s \<le> e \<Longrightarrow> e \<le> length b \<Longrightarrow> slice_get b s e = Some (subslice b s (e - s))"
  by (simp add: slice_get_def subslice_def)

lemma slice_get_none: "length b < e \<Longrightarrow> slice_get b s e = None"
  by (simp add: slice_get_def)

lemma slice_get_length: "slice_get b s e = Some x \<Longrightarrow> length x = e - s"
  by (auto simp: slice_get_def split: if_splits)

lemma copy_from_slice_ok [no_panic]:
  "length dst = length src \<Longrightarrow> copy_from_slice dst src = Some src"
  by (simp add: copy_from_slice_def)

lemma copy_into_ok [no_panic]:
  "s \<le> e \<Longrightarrow> e \<le> length dst \<Longrightarrow> length src = e - s \<Longrightarrow>
   copy_into dst s e src = Some (take s dst @ src @ drop e dst)"
  by (simp add: copy_into_def)

lemma copy_into_length: "copy_into dst s e src = Some d \<Longrightarrow> length d = length dst"
  by (auto simp: copy_into_def split: if_splits)

lemma copy_into_nth:
  assumes "copy_into dst s e src = Some d" and "i < length dst"
  shows "d ! i = (if s \<le> i \<and> i < e then src ! (i - s) else dst ! i)"
  using assms by (auto simp: copy_into_def nth_append split: if_splits)

section \<open>Lemmas on sequencing\<close>

lemma and_then_simps [simp]:
  "and_then (Ok a, r) f = f a r"
  "and_then (Err e, r) f = (Err e, r)"
  "and_then (Panic, r) f = (Panic, r)"
  by (simp_all add: and_then_def)

lemma or_panic_simps [simp]:
  "or_panic (Some a) r f = f a"
  "or_panic None r f = (Panic, r)"
  by (simp_all add: or_panic_def)

lemma and_then_cong [fundef_cong]:
  assumes "p = q" and "\<And>a r. q = (Ok a, r) \<Longrightarrow> f a r = g a r"
  shows "and_then p f = and_then q g"
  using assms by (auto simp: and_then_def split: prod.splits outcome.splits)

lemma or_panic_cong [fundef_cong]:
  assumes "p = q" and "r = s" and "\<And>a. q = Some a \<Longrightarrow> f a = g a"
  shows "or_panic p r f = or_panic q s g"
  using assms by (auto simp: or_panic_def split: option.splits)

lemma and_then_not_panic [panic_free]:
  assumes "fst p \<noteq> Panic" and "\<And>a r. p = (Ok a, r) \<Longrightarrow> fst (f a r) \<noteq> Panic"
  shows "fst (and_then p f) \<noteq> Panic"
  using assms by (cases p; cases "fst p") auto

lemma or_panic_not_panic [panic_free]:
  "p \<noteq> None \<Longrightarrow> (\<And>a. p = Some a \<Longrightarrow> fst (f a) \<noteq> Panic) \<Longrightarrow> fst (or_panic p r f) \<noteq> Panic"
  by (cases p) auto

lemma if_not_panic [panic_free]:
  "(c \<Longrightarrow> fst x \<noteq> Panic) \<Longrightarrow> (\<not> c \<Longrightarrow> fst y \<noteq> Panic) \<Longrightarrow> fst (if c then x else y) \<noteq> Panic"
  by simp

lemma case_option_not_panic [panic_free]:
  "(m = None \<Longrightarrow> fst x \<noteq> Panic) \<Longrightarrow> (\<And>a. m = Some a \<Longrightarrow> fst (f a) \<noteq> Panic) \<Longrightarrow>
   fst (case m of None \<Rightarrow> x | Some a \<Rightarrow> f a) \<noteq> Panic"
  by (cases m) auto

lemma case_prod_not_panic [panic_free]:
  "(\<And>a b. m = (a, b) \<Longrightarrow> fst (f a b) \<noteq> Panic) \<Longrightarrow> fst (case m of (a, b) \<Rightarrow> f a b) \<noteq> Panic"
  by (cases m) auto

lemma case_prod_app_not_panic [panic_free]:
  "(\<And>a b. m = (a, b) \<Longrightarrow> fst (f a b r) \<noteq> Panic) \<Longrightarrow>
   fst ((case m of (a, b) \<Rightarrow> f a b) r) \<noteq> Panic"
  by (cases m) auto

lemma value_not_panic [panic_free]: "fst (Ok a, r) \<noteq> Panic" "fst (Err e, r) \<noteq> Panic"
  by simp_all

lemma lift_io_not_panic [simp, panic_free]: "fst (lift_io p) \<noteq> Panic"
  by (cases p; cases "fst p") auto

lemma map_err_panic [simp]: "fst (map_err g p) = Panic \<longleftrightarrow> fst p = Panic"
  by (cases p; cases "fst p") auto

lemma lift_io_Ok: "lift_io p = (Ok a, r) \<longleftrightarrow> p = (Inr a, r)"
  by (cases p; cases "fst p") auto

lemma map_err_Ok: "map_err g p = (Ok a, r) \<longleftrightarrow> p = (Ok a, r)"
  by (cases p; cases "fst p") auto

section \<open>Lemmas on little-endian integers\<close>

lemma le_nat_simps [simp]: "le_nat [] = 0" "le_nat (b # bs) = unat b + 256 * le_nat bs"
  by (simp_all add: le_nat_def)

lemma unat_u8_lt [simp]: "unat (b :: u8) < 256"
  using unsigned_less [of b] by simp

lemma le_nat_bound: "le_nat bs < 256 ^ length bs"
proof (induction bs)
  case Nil
  then show ?case by simp
next
  case (Cons b bs)
  have "unat b + 256 * le_nat bs < 256 * Suc (le_nat bs)"
    using unat_u8_lt [of b] by simp
  also have "\<dots> \<le> 256 * 256 ^ length bs"
    using Cons.IH by (intro mult_le_mono2) simp
  finally show ?case by simp
qed

lemma length_nat_le_bytes [simp]: "length (nat_le_bytes n x) = n"
  by (induction n x rule: nat_le_bytes.induct) auto

lemma length_to_le_bytes [simp]: "length (to_le_bytes n x) = n"
  by (simp add: to_le_bytes_def)

lemma le_nat_of_bytes: "x < 256 ^ n \<Longrightarrow> le_nat (nat_le_bytes n x) = x"
proof (induction n x rule: nat_le_bytes.induct)
  case (2 n x)
  from "2.prems" have "x div 256 < 256 ^ n" by (simp add: less_mult_imp_div_less mult.commute)
  moreover have "unat (of_nat (x mod 256) :: u8) = x mod 256"
    by (simp add: unat_of_nat)
  ultimately show ?case using "2.IH" by simp
qed simp

lemma nat_le_bytes_of_le_nat: "nat_le_bytes (length bs) (le_nat bs) = bs"
proof (induction bs)
  case (Cons b bs)
  have "(unat b + 256 * le_nat bs) mod 256 = unat b"
    and "(unat b + 256 * le_nat bs) div 256 = le_nat bs"
    using unat_u8_lt [of b] by simp_all
  with Cons.IH show ?case by simp
qed simp

lemma from_to_le_bytes:
  assumes "LENGTH('a::len) = 8 * n"
  shows "from_le_bytes (to_le_bytes n (x :: 'a word)) = x"
proof -
  have "unat x < 256 ^ n"
    using unsigned_less [of x] assms by (simp add: power_mult)
  then show ?thesis by (simp add: from_le_bytes_def to_le_bytes_def le_nat_of_bytes)
qed

lemma to_from_le_bytes:
  assumes "LENGTH('a::len) = 8 * length bs"
  shows "to_le_bytes (length bs) (from_le_bytes bs :: 'a word) = bs"
proof -
  have "le_nat bs < 2 ^ LENGTH('a)"
    using le_nat_bound [of bs] assms by (simp add: power_mult)
  then show ?thesis
    by (simp add: from_le_bytes_def to_le_bytes_def unat_of_nat nat_le_bytes_of_le_nat)
qed

lemma from_le_bytes_zero [simp]: "from_le_bytes (replicate n 0) = 0"
proof -
  have "le_nat (replicate n 0) = 0" by (induction n) simp_all
  then show ?thesis by (simp add: from_le_bytes_def)
qed

end
