(* ===== verification/Rust_Io.thy ===== *)
theory Rust_Io
  imports Vss_Prelude
begin

text \<open>
  The interface the reader is generic over, \<open>R: Read + Seek\<close>, as the record of the three
  operations the sources call: \<open>seek(SeekFrom::End(0))\<close>, \<open>seek(SeekFrom::Start(p))\<close> and
  \<open>read_exact\<close> into a buffer of a given length. The type \<open>'r\<close> of the reader is a parameter.

  Two contracts are stated as locales. \<open>read_seek\<close> is what the type of \<open>read_exact\<close> alone
  gives: on success the buffer it filled has the length it was given; any operation may fail
  at any time. \<open>volume_reader\<close> adds the documented behaviour of a reader over a volume that
  does not change: seeking sets the position, reading inside the volume succeeds. \<open>cursor\<close> is
  \<open>std::io::Cursor<Vec<u8>>\<close>, which satisfies both.
\<close>

datatype io_error = UnexpectedEof | OtherIo nat

record 'r read_seek_ops =
  seek_end :: "'r \<Rightarrow> (io_error + u64) \<times> 'r"
  seek_start :: "u64 \<Rightarrow> 'r \<Rightarrow> (io_error + u64) \<times> 'r"
  read_exact :: "usize \<Rightarrow> 'r \<Rightarrow> (io_error + bytes) \<times> 'r"

section \<open>A computation and what it leaves behind\<close>

text \<open>The computation \<open>p\<close> has the result \<open>res\<close> and leaves a reader that satisfies \<open>Q\<close>.\<close>

definition gives :: "('r \<Rightarrow> bool) \<Rightarrow> ('e, 'a) outcome \<times> 'r \<Rightarrow> ('e, 'a) outcome \<Rightarrow> bool" where
  "gives Q p res \<longleftrightarrow> fst p = res \<and> Q (snd p)"

lemma gives_pair [simp]: "gives Q (x, r) res \<longleftrightarrow> x = res \<and> Q r"
  by (simp add: gives_def)

lemma gives_fst: "gives Q p res \<Longrightarrow> fst p = res"
  by (simp add: gives_def)

lemma givesE:
  assumes "gives Q p res"
  obtains r where "p = (res, r)" and "Q r"
  using assms by (cases p) simp

lemma gives_then:
  assumes "gives Q p (Ok a)" and "\<And>r. Q r \<Longrightarrow> gives Q' (f a r) res"
  shows "gives Q' (and_then p f) res"
  using assms by (cases p) auto

lemma gives_then_err: "gives Q p (Err e) \<Longrightarrow> gives Q (and_then p f) (Err e)"
  by (cases p) auto

lemma gives_map_err: "gives Q p (Ok a) \<Longrightarrow> gives Q (map_err g p) (Ok a)"
  by (cases p) auto

lemma gives_weaken: "gives Q p res \<Longrightarrow> (\<And>r. Q r \<Longrightarrow> Q' r) \<Longrightarrow> gives Q' p res"
  by (simp add: gives_def)

text \<open>The reader satisfies its invariant and is over the volume \<open>v\<close>.\<close>

definition reads :: "('r \<Rightarrow> bool) \<Rightarrow> ('r \<Rightarrow> bytes) \<Rightarrow> bytes \<Rightarrow> 'r \<Rightarrow> bool" where
  "reads invar contents v r \<longleftrightarrow> invar r \<and> contents r = v"

section \<open>The contracts\<close>

locale read_seek =
  fixes ops :: "'r read_seek_ops"
  assumes read_exact_fills: "read_exact ops n r = (Inr bs, r') \<Longrightarrow> length bs = n"
begin

lemma lift_read_fills: "lift_io (read_exact ops n r) = (Ok bs, r') \<Longrightarrow> length bs = n"
  by (auto simp: lift_io_Ok dest: read_exact_fills)

lemma map_read_fills: "map_err g (lift_io (read_exact ops n r)) = (Ok bs, r') \<Longrightarrow> length bs = n"
  by (auto simp: map_err_Ok dest: lift_read_fills)

end

locale volume_reader = read_seek ops for ops :: "'r read_seek_ops" +
  fixes invar :: "'r \<Rightarrow> bool"
    and contents :: "'r \<Rightarrow> bytes"
    and position :: "'r \<Rightarrow> nat"
  assumes fits: "invar r \<Longrightarrow> length (contents r) < 2 ^ 64"
    and seek_end_law: "invar r \<Longrightarrow>
      \<exists>r'. seek_end ops r = (Inr (of_nat (length (contents r))), r') \<and>
           invar r' \<and> contents r' = contents r"
    and seek_start_law: "invar r \<Longrightarrow>
      \<exists>r'. seek_start ops p r = (Inr p, r') \<and>
           invar r' \<and> contents r' = contents r \<and> position r' = unat p"
    and read_exact_law: "invar r \<Longrightarrow> position r + n \<le> length (contents r) \<Longrightarrow>
      \<exists>r'. read_exact ops n r = (Inr (subslice (contents r) (position r) n), r') \<and>
           invar r' \<and> contents r' = contents r \<and> position r' = position r + n"
begin

text \<open>The reader is over the volume \<open>v\<close>, and (second form) its cursor is at \<open>p\<close>.\<close>

abbreviation holds :: "bytes \<Rightarrow> 'r \<Rightarrow> bool" where
  "holds v r \<equiv> reads invar contents v r"

definition holds_at :: "bytes \<Rightarrow> nat \<Rightarrow> 'r \<Rightarrow> bool" where
  "holds_at v p r \<longleftrightarrow> invar r \<and> contents r = v \<and> position r = p"

lemma holds_at_holds: "holds_at v p r \<Longrightarrow> holds v r"
  by (simp add: reads_def holds_at_def)

lemma holds_fits: "holds v r \<Longrightarrow> length v < 2 ^ 64"
  using fits [of r] unfolding reads_def by blast

lemma gives_seek_end: "holds v r \<Longrightarrow> gives (holds v) (lift_io (seek_end ops r)) (Ok (of_nat (length v)))"
  using seek_end_law [of r] by (auto simp: reads_def)

lemma gives_seek_start:
  "holds v r \<Longrightarrow> gives (holds_at v (unat p)) (lift_io (seek_start ops p r)) (Ok p)"
  using seek_start_law [of r p] by (auto simp: reads_def holds_at_def)

lemma gives_read_exact:
  "holds_at v p r \<Longrightarrow> p + n \<le> length v \<Longrightarrow>
   gives (holds_at v (p + n)) (lift_io (read_exact ops n r)) (Ok (subslice v p n))"
  using read_exact_law [of r n] by (auto simp: holds_at_def)

text \<open>Seek, then read: how the sources read every structure.\<close>

lemma gives_seek_read:
  assumes "holds v r" and "unat p + n \<le> length v"
    and "\<And>r. holds_at v (unat p + n) r \<Longrightarrow> gives Q (k (subslice v (unat p) n) r) res"
  shows "gives Q (and_then (map_err g (lift_io (seek_start ops p r)))
            (\<lambda>_ r. and_then (map_err h (lift_io (read_exact ops n r))) k)) res"
proof (rule gives_then [OF gives_map_err [OF gives_seek_start [OF assms(1)]]])
  fix r assume "holds_at v (unat p) r"
  then show "gives Q (and_then (map_err h (lift_io (read_exact ops n r))) k) res"
    by (rule gives_then [OF gives_map_err [OF gives_read_exact]]) (use assms(2,3) in auto)
qed

lemma gives_seek_read_io:
  assumes "holds v r" and "unat p + n \<le> length v"
    and "\<And>r. holds_at v (unat p + n) r \<Longrightarrow> gives Q (k (subslice v (unat p) n) r) res"
  shows "gives Q (and_then (lift_io (seek_start ops p r))
            (\<lambda>_ r. and_then (lift_io (read_exact ops n r)) k)) res"
proof (rule gives_then [OF gives_seek_start [OF assms(1)]])
  fix r assume "holds_at v (unat p) r"
  then show "gives Q (and_then (lift_io (read_exact ops n r)) k) res"
    by (rule gives_then [OF gives_read_exact]) (use assms(2,3) in auto)
qed

end

section \<open>\<open>Cursor<Vec<u8>>\<close>\<close>

record cursor =
  cursor_data :: bytes
  cursor_pos :: u64

definition cursor_new :: "bytes \<Rightarrow> cursor" where
  "cursor_new data = \<lparr>cursor_data = data, cursor_pos = 0\<rparr>"

definition cursor_read_exact :: "usize \<Rightarrow> cursor \<Rightarrow> (io_error + bytes) \<times> cursor" where
  "cursor_read_exact n c =
     (if n \<le> length (cursor_data c) - unat (cursor_pos c)
      then (Inr (subslice (cursor_data c) (unat (cursor_pos c)) n),
            c\<lparr>cursor_pos := cursor_pos c + of_nat n\<rparr>)
      else (Inl UnexpectedEof, c\<lparr>cursor_pos := of_nat (length (cursor_data c))\<rparr>))"

definition cursor_ops :: "cursor read_seek_ops" where
  "cursor_ops =
     \<lparr>seek_end = (\<lambda>c. (Inr (of_nat (length (cursor_data c))),
                       c\<lparr>cursor_pos := of_nat (length (cursor_data c))\<rparr>)),
      seek_start = (\<lambda>p c. (Inr p, c\<lparr>cursor_pos := p\<rparr>)),
      read_exact = cursor_read_exact\<rparr>"

text \<open>A \<open>Vec\<close> never holds more than \<open>isize::MAX\<close> bytes.\<close>

definition cursor_invar :: "cursor \<Rightarrow> bool" where
  "cursor_invar c \<longleftrightarrow> length (cursor_data c) \<le> isize_max"

definition cursor_position :: "cursor \<Rightarrow> nat" where
  "cursor_position c = unat (cursor_pos c)"

lemma read_seek_cursor: "read_seek cursor_ops"
  by unfold_locales (auto simp: cursor_ops_def cursor_read_exact_def split: if_splits)

text \<open>As a volume it may be any that a \<open>u64\<close> can address.\<close>

definition image_invar :: "cursor \<Rightarrow> bool" where
  "image_invar c \<longleftrightarrow> length (cursor_data c) < 2 ^ 64"

lemma volume_reader_image:
  "volume_reader cursor_ops image_invar cursor_data cursor_position"
proof (rule volume_reader.intro [OF read_seek_cursor], unfold_locales, goal_cases)
  case (1 r)
  then show ?case by (simp add: image_invar_def)
next
  case (2 r)
  then show ?case by (simp add: cursor_ops_def image_invar_def)
next
  case (3 r p)
  then show ?case by (simp add: cursor_ops_def image_invar_def cursor_position_def)
next
  case (4 r n)
  then have "unat (cursor_pos r) + n < 2 ^ 64"
    by (simp add: image_invar_def cursor_position_def)
  then have "unat (cursor_pos r + of_nat n) = unat (cursor_pos r) + n"
    by (simp add: unat_word_ariths unat_of_nat)
  with 4 show ?case
    by (simp add: cursor_ops_def image_invar_def cursor_position_def cursor_read_exact_def)
qed

lemma cursor_invar_image: "cursor_invar c \<Longrightarrow> image_invar c"
  by (simp add: cursor_invar_def image_invar_def isize_max_val)

lemma volume_reader_cursor:
  "volume_reader cursor_ops cursor_invar cursor_data cursor_position"
proof (rule volume_reader.intro [OF read_seek_cursor], unfold_locales, goal_cases)
  case (1 r)
  then show ?case using volume_reader.fits [OF volume_reader_image cursor_invar_image] by blast
next
  case (2 r)
  then show ?case by (simp add: cursor_ops_def cursor_invar_def)
next
  case (3 r p)
  then show ?case by (simp add: cursor_ops_def cursor_invar_def cursor_position_def)
next
  case (4 r n)
  with volume_reader.read_exact_law [OF volume_reader_image cursor_invar_image [OF 4(1)] 4(2)]
  show ?case by (auto simp: cursor_ops_def cursor_read_exact_def cursor_invar_def split: if_splits)
qed

interpretation cursor_reader: volume_reader cursor_ops cursor_invar cursor_data cursor_position
  by (rule volume_reader_cursor)

lemma cursor_new_invar [simp]: "length data \<le> isize_max \<Longrightarrow> cursor_invar (cursor_new data)"
  by (simp add: cursor_invar_def cursor_new_def)

lemma cursor_new_data [simp]: "cursor_data (cursor_new data) = data"
  by (simp add: cursor_new_def)

end
