(* ===== verification/Vss_Error.thy ===== *)
theory Vss_Error
  imports Rust_Io
begin

text \<open>
  \<open>core/src/error.rs\<close>: the errors of the reader and the messages their \<open>#[error(..)]\<close>
  attributes give them. How an \<open>io::Error\<close> prints is a parameter.
\<close>

text \<open>The arguments are the fields in the order of the source: \<open>index, count\<close>; \<open>index\<close>;
  \<open>index, offset, volume_size\<close>.\<close>

datatype VssError =
    Io io_error
  | StoreIndexOutOfRange usize usize
  | StoreInfoUnavailable usize
  | StoreOffsetOutOfBounds usize u64 u64

fun VssError_to_string :: "(io_error \<Rightarrow> rstring) \<Rightarrow> VssError \<Rightarrow> rstring" where
  "VssError_to_string io (Io e) = ascii ''i/o error reading VSS volume: '' @ io e"
| "VssError_to_string io (StoreIndexOutOfRange i n) =
     ascii ''store index '' @ digits_in 10 i @ ascii '' out of range ('' @ digits_in 10 n @
     ascii '' store(s) enumerated)''"
| "VssError_to_string io (StoreInfoUnavailable i) =
     ascii ''store '' @ digits_in 10 i @
     ascii '' has no store-information pointer (no catalog type-0x03 entry)''"
| "VssError_to_string io (StoreOffsetOutOfBounds i off vsize) =
     ascii ''store '' @ digits_in 10 i @ ascii '' header offset '' @ decimal off @
     ascii '' runs past the '' @ decimal vsize @ ascii ''-byte volume''"

text \<open>The reader's errors converted by \<open>#[from] std::io::Error\<close>.\<close>

definition from_io :: "(io_error + 'a) \<times> 'r \<Rightarrow> (VssError, 'a) outcome \<times> 'r" where
  "from_io p = map_err Io (lift_io p)"

lemma from_io_simps [simp]:
  "from_io (Inr a, r) = (Ok a, r)"
  "from_io (Inl e, r) = (Err (Io e), r)"
  by (simp_all add: from_io_def)

lemma from_io_not_panic [simp, panic_free]: "fst (from_io p) \<noteq> Panic"
  by (simp add: from_io_def)

lemma from_io_Ok: "from_io p = (Ok a, r) \<longleftrightarrow> p = (Inr a, r)"
  by (simp add: from_io_def map_err_Ok lift_io_Ok)

context read_seek
begin

lemma from_io_read_fills: "from_io (read_exact ops n r) = (Ok bs, r') \<Longrightarrow> length bs = n"
  by (auto simp: from_io_Ok dest: read_exact_fills)

end

context volume_reader
begin

lemmas gives_seek_read_vss =
  gives_seek_read [where g = Io and h = Io, folded from_io_def]

lemma gives_from_io_seek_start:
  "holds v r \<Longrightarrow> gives (holds_at v (unat p)) (from_io (seek_start ops p r)) (Ok p)"
  unfolding from_io_def by (intro gives_map_err gives_seek_start)

lemma gives_from_io_seek_end:
  "holds v r \<Longrightarrow> gives (holds v) (from_io (seek_end ops r)) (Ok (of_nat (length v)))"
  unfolding from_io_def by (intro gives_map_err gives_seek_end)

lemma gives_from_io_read_exact:
  "holds_at v p r \<Longrightarrow> p + n \<le> length v \<Longrightarrow>
   gives (holds_at v (p + n)) (from_io (read_exact ops n r)) (Ok (subslice v p n))"
  unfolding from_io_def by (intro gives_map_err gives_read_exact)

end

end
