(* ===== verification/Vss_Bytes.thy ===== *)
theory Vss_Bytes
  imports Vss_Prelude
begin

text \<open>
  \<open>core/src/bytes.rs\<close>: the bounds-checked readers every multi-byte field goes through. An
  offset outside the buffer reads as zero; only the sum \<open>off + n\<close> can panic, at an offset
  within \<open>n\<close> of \<open>usize::MAX\<close>. The lemmas reduce each reader to \<open>field\<close>, the bytes at an
  offset or zeros, and relate \<open>field\<close> to what an encoder wrote there.
\<close>

section \<open>The readers\<close>

definition le_u16 :: "bytes \<Rightarrow> usize \<Rightarrow> u16 option" where
  "le_u16 b off = do {
     let a = replicate 2 0;
     e \<leftarrow> usize_add off 2;
     a \<leftarrow> (case slice_get b off e of Some s \<Rightarrow> copy_from_slice a s | None \<Rightarrow> Some a);
     Some (from_le_bytes a)
   }"

definition le_u32 :: "bytes \<Rightarrow> usize \<Rightarrow> u32 option" where
  "le_u32 b off = do {
     let a = replicate 4 0;
     e \<leftarrow> usize_add off 4;
     a \<leftarrow> (case slice_get b off e of Some s \<Rightarrow> copy_from_slice a s | None \<Rightarrow> Some a);
     Some (from_le_bytes a)
   }"

definition le_u64 :: "bytes \<Rightarrow> usize \<Rightarrow> u64 option" where
  "le_u64 b off = do {
     let a = replicate 8 0;
     e \<leftarrow> usize_add off 8;
     a \<leftarrow> (case slice_get b off e of Some s \<Rightarrow> copy_from_slice a s | None \<Rightarrow> Some a);
     Some (from_le_bytes a)
   }"

definition read_guid :: "bytes \<Rightarrow> usize \<Rightarrow> bytes option" where
  "read_guid b off = do {
     let g = replicate 16 0;
     e \<leftarrow> usize_add off 16;
     (case slice_get b off e of Some s \<Rightarrow> copy_from_slice g s | None \<Rightarrow> Some g)
   }"

definition utf16le_string :: "bytes \<Rightarrow> rstring" where
  "utf16le_string b =
     (let units = map from_le_bytes (chunks_exact2 b)
      in map (\<lambda>r. case r of Some c \<Rightarrow> c | None \<Rightarrow> 0xFFFD) (decode_utf16 units))"

section \<open>The readers as fields\<close>

definition field :: "bytes \<Rightarrow> nat \<Rightarrow> nat \<Rightarrow> bytes" where
  "field b off n = (if off + n \<le> length b then subslice b off n else replicate n 0)"

lemma length_field [simp]: "length (field b off n) = n"
  by (simp add: field_def)

lemma read_field:
  assumes "off + n \<le> usize_max"
  shows "(do { e \<leftarrow> usize_add off n;
               a \<leftarrow> (case slice_get b off e of
                       Some s \<Rightarrow> copy_from_slice (replicate n 0) s
                     | None \<Rightarrow> Some (replicate n 0));
               Some (g a) }) = Some (g (field b off n))"
  using assms by (cases "off + n \<le> length b")
    (simp_all add: usize_add_def slice_get_ok slice_get_none copy_from_slice_def field_def)

lemma le_u16_field [no_panic]:
  "off + 2 \<le> usize_max \<Longrightarrow> le_u16 b off = Some (from_le_bytes (field b off 2))"
  using read_field [of off 2 b from_le_bytes] by (simp add: le_u16_def Let_def)

lemma le_u32_field [no_panic]:
  "off + 4 \<le> usize_max \<Longrightarrow> le_u32 b off = Some (from_le_bytes (field b off 4))"
  using read_field [of off 4 b from_le_bytes] by (simp add: le_u32_def Let_def)

lemma le_u64_field [no_panic]:
  "off + 8 \<le> usize_max \<Longrightarrow> le_u64 b off = Some (from_le_bytes (field b off 8))"
  using read_field [of off 8 b from_le_bytes] by (simp add: le_u64_def Let_def)

lemma read_guid_field [no_panic]:
  "off + 16 \<le> usize_max \<Longrightarrow> read_guid b off = Some (field b off 16)"
  using read_field [of off 16 b id] by (simp add: read_guid_def Let_def)

lemma field_out_of_range: "length b < off + n \<Longrightarrow> field b off n = replicate n 0"
  by (simp add: field_def)

lemma field_in_range: "off + n \<le> length b \<Longrightarrow> field b off n = subslice b off n"
  by (simp add: field_def)

lemma field_subslice:
  "off + n \<le> m \<Longrightarrow> s + m \<le> length b \<Longrightarrow> field (subslice b s m) off n = field b (s + off) n"
  by (simp add: field_def subslice_subslice)

text \<open>Reading a record written as the concatenation of its fields.\<close>

lemmas field_append = field_in_range subslice_append_left subslice_append_right

section \<open>UTF-16 decoding\<close>

lemma length_chunks_exact2: "length (chunks_exact2 xs) = length xs div 2"
  by (induction xs rule: chunks_exact2.induct) auto

lemma chunks_exact2_odd: "even (length xs) \<Longrightarrow> chunks_exact2 (xs @ [x]) = chunks_exact2 xs"
  by (induction xs rule: chunks_exact2.induct) auto

lemma length_decode_utf16: "length (decode_utf16 us) \<le> length us"
  by (induction us rule: decode_utf16.induct) (auto split: list.splits)

lemma u16_range: "unat (u :: u16) < 65536"
  using unsigned_less [of u] by simp

lemma pair_scalar: "is_scalar (x mod 0x400 * 0x400 + y mod 0x400 + 0x10000)"
proof -
  have "x mod 0x400 \<le> 0x3FF" and "y mod 0x400 \<le> 0x3FF" by simp_all
  then have "x mod 0x400 * 0x400 + y mod 0x400 \<le> 0xFFFFF" by linarith
  then show ?thesis by (simp add: is_scalar_def)
qed

text \<open>The four ways the decoder consumes its first unit.\<close>

definition surrogate_pair :: "u16 \<Rightarrow> u16 \<Rightarrow> nat" where
  "surrogate_pair u v = unat u mod 0x400 * 0x400 + unat v mod 0x400 + 0x10000"

definition is_low_surrogate :: "u16 \<Rightarrow> bool" where
  "is_low_surrogate u \<longleftrightarrow> 0xDC00 \<le> unat u \<and> unat u \<le> 0xDFFF"

lemma decode_utf16_cases:
  "decode_utf16 (u # us) =
     (if \<not> is_surrogate u then Some (unat u) # decode_utf16 us
      else if is_low_surrogate u then None # decode_utf16 us
      else (case us of
              [] \<Rightarrow> [None]
            | u2 # us' \<Rightarrow>
                if is_low_surrogate u2 then Some (surrogate_pair u u2) # decode_utf16 us'
                else None # decode_utf16 us))"
  by (auto simp: is_surrogate_def is_low_surrogate_def surrogate_pair_def not_less not_le
      split: list.split simp del: mod_mult_self1)

declare decode_utf16.simps(2) [simp del]

lemma surrogate_pair_scalar: "is_scalar (surrogate_pair u v)"
  unfolding surrogate_pair_def by (rule pair_scalar)

lemma single_scalar: "\<not> is_surrogate u \<Longrightarrow> is_scalar (unat u)"
  using u16_range [of u] by (auto simp: is_surrogate_def is_scalar_def)

lemma decode_utf16_scalar: "Some c \<in> set (decode_utf16 us) \<Longrightarrow> is_scalar c"
proof (induction us rule: length_induct)
  case (1 us)
  show ?case
  proof (cases us)
    case Nil
    with "1.prems" show ?thesis by simp
  next
    case (Cons u us')
    have ih: "Some c \<in> set (decode_utf16 us') \<Longrightarrow> is_scalar c"
      and ih2: "us' = v # vs \<Longrightarrow> Some c \<in> set (decode_utf16 vs) \<Longrightarrow> is_scalar c" for v vs
      using "1.IH" [rule_format, of us'] "1.IH" [rule_format, of vs] Cons by auto
    show ?thesis
      using "1.prems" ih ih2 unfolding Cons decode_utf16_cases [of u us']
      by (cases us') (auto simp: single_scalar surrogate_pair_scalar simp del: decode_utf16.simps
          split: if_split_asm)
  qed
qed

lemma decode_encode_char:
  assumes "is_scalar c"
  shows "decode_utf16 (encode_char c @ us) = Some c # decode_utf16 us"
proof (cases "c < 0x10000")
  case True
  then have "unat (of_nat c :: u16) = c" by (simp add: unat_of_nat)
  moreover from this assms True have "\<not> is_surrogate (of_nat c)"
    by (auto simp: is_surrogate_def is_scalar_def)
  ultimately show ?thesis using True by (simp add: encode_char_def decode_utf16_cases)
next
  case False
  define h where "h = (c - 0x10000) div 0x400"
  define l where "l = (c - 0x10000) mod 0x400"
  have l: "l < 0x400" by (simp add: l_def)
  have h: "h < 0x400" using assms False by (auto simp: h_def is_scalar_def)
  have c: "c = h * 0x400 + l + 0x10000"
    using False unfolding h_def l_def by simp
  have hi: "unat (of_nat (0xD800 + h) :: u16) = 0xD800 + h"
    using h by (simp only: unat_of_nat) simp
  have lo: "unat (of_nat (0xDC00 + l) :: u16) = 0xDC00 + l"
    using l by (simp only: unat_of_nat) simp
  have "(54 * 0x400 + h) mod 0x400 = h" and "(55 * 0x400 + l) mod 0x400 = l"
    using h l by (simp_all only: mod_mult_self3 mod_less)
  then have hm: "(0xD800 + h) mod 0x400 = h" and lm: "(0xDC00 + l) mod 0x400 = l"
    by simp_all
  have enc: "encode_char c = [of_nat (0xD800 + h), of_nat (0xDC00 + l)]"
    using False by (simp only: encode_char_def h_def l_def if_False)
  have "is_surrogate (of_nat (0xD800 + h))" and "\<not> is_low_surrogate (of_nat (0xD800 + h))"
    and "is_low_surrogate (of_nat (0xDC00 + l))"
    using h l unfolding is_surrogate_def is_low_surrogate_def hi lo by simp_all
  moreover have "surrogate_pair (of_nat (0xD800 + h)) (of_nat (0xDC00 + l)) = c"
    unfolding surrogate_pair_def hi lo hm lm using c by simp
  ultimately show ?thesis
    unfolding enc by (simp add: decode_utf16_cases del: of_nat_add)
qed

lemma decode_encode_utf16: "\<forall>c \<in> set s. is_scalar c \<Longrightarrow> decode_utf16 (encode_utf16 s) = map Some s"
  by (induction s) (simp_all add: encode_utf16_def decode_encode_char)

text \<open>The on-disk form of a string: its UTF-16 units, each little-endian.\<close>

definition utf16le_bytes :: "rstring \<Rightarrow> bytes" where
  "utf16le_bytes s = concat (map (to_le_bytes 2) (encode_utf16 s))"

lemma chunks_of_units: "map from_le_bytes (chunks_exact2 (concat (map (to_le_bytes 2) us))) = (us :: u16 list)"
proof (induction us)
  case (Cons u us)
  obtain a b where ab: "to_le_bytes 2 u = [a, b]"
    by (simp add: to_le_bytes_def numeral_2_eq_2)
  then have "from_le_bytes [a, b] = u"
    using from_to_le_bytes [where 'a = 16, of 2 u] by simp
  with ab Cons.IH show ?case by simp
qed simp

lemma utf16le_roundtrip: "\<forall>c \<in> set s. is_scalar c \<Longrightarrow> utf16le_string (utf16le_bytes s) = s"
  by (simp add: utf16le_string_def utf16le_bytes_def chunks_of_units decode_encode_utf16 Let_def comp_def)

end
