(* ===== verification/Vss_Codec.thy ===== *)
theory Vss_Codec
  imports Vss_Bytes
begin

text \<open>
  The contract between an on-disk record and its parser. \<open>encode\<close> is the layout (where each
  field lies, written as the concatenation of the fields); a \<open>record_codec\<close> parses back what
  was laid out, whatever bytes follow, and an \<open>exact_codec\<close> ignores no byte of the record.
  The lemmas about tables of records are proved here once, for every record of the format.
\<close>

locale record_codec =
  fixes parse :: "bytes \<Rightarrow> 'a option"
    and encode :: "'a \<Rightarrow> bytes"
    and size :: nat
    and valid :: "'a \<Rightarrow> bool"
  assumes length_encode: "valid x \<Longrightarrow> length (encode x) = size"
    and parse_encode: "valid x \<Longrightarrow> parse (encode x @ rest) = Some x"
begin

lemma parse_encode_exact: "valid x \<Longrightarrow> parse (encode x) = Some x"
  using parse_encode [of x "[]"] by simp

lemma encode_inj: "valid x \<Longrightarrow> valid y \<Longrightarrow> encode x = encode y \<Longrightarrow> x = y"
  using parse_encode_exact by (metis option.inject)

lemma length_table:
  "\<forall>x \<in> set xs. valid x \<Longrightarrow> length (concat (map encode xs)) = length xs * size"
  by (induction xs) (simp_all add: length_encode)

lemma subslice_table:
  "\<forall>x \<in> set xs. valid x \<Longrightarrow> i < length xs \<Longrightarrow>
   subslice (concat (map encode xs) @ rest) (i * size) size = encode (xs ! i)"
proof (induction xs arbitrary: i)
  case (Cons x xs)
  then show ?case
    by (cases i) (simp_all add: subslice_def length_encode)
qed simp

lemma parse_table:
  "\<forall>x \<in> set xs. valid x \<Longrightarrow> i < length xs \<Longrightarrow>
   parse (subslice (concat (map encode xs) @ rest) (i * size) size) = Some (xs ! i)"
  by (simp add: subslice_table parse_encode_exact)

end

locale exact_codec = record_codec parse encode size valid
  for parse :: "bytes \<Rightarrow> 'a option" and encode :: "'a \<Rightarrow> bytes" and size :: nat
    and valid :: "'a \<Rightarrow> bool" +
  assumes encode_parse: "length b = size \<Longrightarrow> \<exists>x. valid x \<and> parse b = Some x \<and> encode x = b"
begin

lemma parse_inj: "length b = size \<Longrightarrow> length c = size \<Longrightarrow> parse b = parse c \<Longrightarrow> b = c"
  by (metis encode_parse option.inject)

end

text \<open>A record of \<open>n\<close> bytes is the concatenation of its fields.\<close>

lemma field_split:
  "length b = off + n + m \<Longrightarrow> subslice b off (n + m) = field b off n @ subslice b (off + n) m"
  using take_add [of n m "drop off b"] by (simp add: field_def subslice_def add.commute)

lemma field_last: "length b = off + n \<Longrightarrow> subslice b off n = field b off n"
  by (simp add: field_def)

lemma to_le_bytes_field:
  assumes "LENGTH('a::len) = 8 * n"
  shows "to_le_bytes n (from_le_bytes (field b off n) :: 'a word) = field b off n"
  using to_from_le_bytes [where 'a = 'a, of "field b off n"] assms by simp

lemmas le_bytes_of_field =
  to_le_bytes_field [where 'a = 16 and n = 2, simplified]
  to_le_bytes_field [where 'a = 32 and n = 4, simplified]
  to_le_bytes_field [where 'a = 64 and n = 8, simplified]

lemmas field_of_le_bytes =
  from_to_le_bytes [where 'a = 16 and n = 2, simplified]
  from_to_le_bytes [where 'a = 32 and n = 4, simplified]
  from_to_le_bytes [where 'a = 64 and n = 8, simplified]

end
