(* ===== verification/Vss_Guid.thy ===== *)
theory Vss_Guid
  imports Vss_Prelude
begin

text \<open>
  \<open>core/src/guid.rs\<close>: the identifier every VSS structure starts with, and the rendering of a
  GUID. The rendering is \<open>uuid::Uuid::from_bytes_le(..).to_string()\<close>, a third-party function:
  it is the parameter \<open>uuid\<close> of everything that renders a GUID.
\<close>

definition VSS_IDENTIFIER :: bytes where
  "VSS_IDENTIFIER =
     [0x6b, 0x87, 0x08, 0x38,
      0x76, 0xc1,
      0x48, 0x4e,
      0xb7, 0xae, 0x04, 0x04, 0x6e, 0x6c, 0xc7, 0x52]"

definition format_guid :: "(bytes \<Rightarrow> rstring) \<Rightarrow> bytes \<Rightarrow> rstring" where
  "format_guid uuid raw = uuid raw"

lemma length_VSS_IDENTIFIER [simp]: "length VSS_IDENTIFIER = 16"
  by (simp add: VSS_IDENTIFIER_def)

lemma VSS_IDENTIFIER_nonzero [simp]:
  "replicate 16 0 \<noteq> VSS_IDENTIFIER" "VSS_IDENTIFIER \<noteq> replicate 16 0"
proof -
  have "hd VSS_IDENTIFIER \<noteq> hd (replicate 16 0)"
    by (simp add: VSS_IDENTIFIER_def)
  then show "replicate 16 0 \<noteq> VSS_IDENTIFIER" "VSS_IDENTIFIER \<noteq> replicate 16 0"
    by metis+
qed

end
