(* ===== verification/Vss_Catalog.thy ===== *)
theory Vss_Catalog
  imports Vss_Codec Vss_Guid
begin

text \<open>
  \<open>core/src/catalog.rs\<close>: the volume header at 0x1E00, the catalog blocks and their 128-byte
  entries. \<open>encode_volume_header\<close> and \<open>encode_entry\<close> are the documented layouts, with the bytes
  the program does not read as zeros; the interpretations show that the parsers invert them.
\<close>

section \<open>Constants, records and parsers\<close>

definition VSS_VOLUME_HEADER_OFFSET :: u64 where
  "VSS_VOLUME_HEADER_OFFSET = 0x1E00"

definition BLOCK_SIZE :: usize where
  "BLOCK_SIZE = 16384"

definition CATALOG_BLOCK_HEADER_LEN :: usize where
  "CATALOG_BLOCK_HEADER_LEN = 128"

definition CATALOG_ENTRY_LEN :: usize where
  "CATALOG_ENTRY_LEN = 128"

definition VOLUME_HEADER_RECORD_TYPE :: u32 where
  "VOLUME_HEADER_RECORD_TYPE = 0x01"

definition CATALOG_BLOCK_RECORD_TYPE :: u32 where
  "CATALOG_BLOCK_RECORD_TYPE = 0x02"

definition MAX_CATALOG_BLOCKS :: usize where
  "MAX_CATALOG_BLOCKS = 4096"

record VolumeHeader =
  has_vss_identifier :: bool
  version :: u32
  record_type :: u32
  current_offset :: u64
  header_catalog_offset :: u64
  maximum_size :: u64
  volume_identifier :: bytes
  storage_volume_identifier :: bytes

definition VolumeHeader_parse :: "bytes \<Rightarrow> VolumeHeader option" where
  "VolumeHeader_parse buf = do {
     guid \<leftarrow> read_guid buf 0;
     ver \<leftarrow> le_u32 buf 16;
     rt \<leftarrow> le_u32 buf 20;
     cur \<leftarrow> le_u64 buf 24;
     cat \<leftarrow> le_u64 buf 48;
     mx \<leftarrow> le_u64 buf 56;
     vol_id \<leftarrow> read_guid buf 64;
     sto_id \<leftarrow> read_guid buf 80;
     Some \<lparr>has_vss_identifier = (guid = VSS_IDENTIFIER), version = ver, record_type = rt,
           current_offset = cur, header_catalog_offset = cat, maximum_size = mx,
           volume_identifier = vol_id, storage_volume_identifier = sto_id\<rparr>
   }"

record StoreDescriptor =
  store_id :: bytes
  volume_size :: u64
  sequence :: u64
  snapshot_flags :: u64
  creation_time :: u64
  store_header_offset :: "u64 option"
  store_bitmap_offset :: "u64 option"

definition store_id_string :: "(bytes \<Rightarrow> rstring) \<Rightarrow> StoreDescriptor \<Rightarrow> rstring" where
  "store_id_string uuid d = format_guid uuid (store_id d)"

datatype CatalogEntry =
    Empty
  | Snapshot StoreDescriptor
  | StorePointer bytes u64 u64
  | Other

definition parse_catalog_entry :: "bytes \<Rightarrow> CatalogEntry option" where
  "parse_catalog_entry buf = do {
     t \<leftarrow> le_u64 buf 0;
     (if t = 0x02 then do {
        sid \<leftarrow> read_guid buf 16;
        vs \<leftarrow> le_u64 buf 8;
        sq \<leftarrow> le_u64 buf 32;
        fl \<leftarrow> le_u64 buf 40;
        ct \<leftarrow> le_u64 buf 48;
        Some (Snapshot \<lparr>store_id = sid, volume_size = vs, sequence = sq, snapshot_flags = fl,
                        creation_time = ct, store_header_offset = None,
                        store_bitmap_offset = None\<rparr>)
      }
      else if t = 0x03 then do {
        sid \<leftarrow> read_guid buf 16;
        hd_off \<leftarrow> le_u64 buf 32;
        bm_off \<leftarrow> le_u64 buf 48;
        Some (StorePointer sid hd_off bm_off)
      }
      else if t = 0x00 then Some Empty
      else Some Other)
   }"

definition catalog_next_block_offset :: "bytes \<Rightarrow> u64 option" where
  "catalog_next_block_offset block = le_u64 block 40"

definition is_catalog_block :: "bytes \<Rightarrow> bool option" where
  "is_catalog_block block = do {
     guid \<leftarrow> read_guid block 0;
     (if guid = VSS_IDENTIFIER then do {
        rt \<leftarrow> le_u32 block 20;
        Some (rt = CATALOG_BLOCK_RECORD_TYPE)
      }
      else Some False)
   }"

section \<open>The on-disk layouts\<close>

definition encode_volume_header :: "VolumeHeader \<Rightarrow> bytes" where
  "encode_volume_header h =
     (if has_vss_identifier h then VSS_IDENTIFIER else replicate 16 0) @
     to_le_bytes 4 (version h) @ to_le_bytes 4 (record_type h) @
     to_le_bytes 8 (current_offset h) @ replicate 16 0 @
     to_le_bytes 8 (header_catalog_offset h) @ to_le_bytes 8 (maximum_size h) @
     volume_identifier h @ storage_volume_identifier h @ replicate 32 0"

definition valid_volume_header :: "VolumeHeader \<Rightarrow> bool" where
  "valid_volume_header h \<longleftrightarrow>
     length (volume_identifier h) = 16 \<and> length (storage_volume_identifier h) = 16"

fun encode_entry :: "CatalogEntry \<Rightarrow> bytes" where
  "encode_entry Empty = replicate 128 0"
| "encode_entry (Snapshot d) =
     to_le_bytes 8 (2 :: u64) @ to_le_bytes 8 (volume_size d) @ store_id d @
     to_le_bytes 8 (sequence d) @ to_le_bytes 8 (snapshot_flags d) @
     to_le_bytes 8 (creation_time d) @ replicate 72 0"
| "encode_entry (StorePointer sid hd_off bm_off) =
     to_le_bytes 8 (3 :: u64) @ replicate 8 0 @ sid @
     to_le_bytes 8 hd_off @ replicate 8 0 @ to_le_bytes 8 bm_off @ replicate 72 0"
| "encode_entry Other = to_le_bytes 8 (1 :: u64) @ replicate 120 0"

fun valid_entry :: "CatalogEntry \<Rightarrow> bool" where
  "valid_entry (Snapshot d) =
     (length (store_id d) = 16 \<and> store_header_offset d = None \<and> store_bitmap_offset d = None)"
| "valid_entry (StorePointer sid _ _) = (length sid = 16)"
| "valid_entry _ = True"

section \<open>Lemmas\<close>

lemma catalog_consts [vss_consts]:
  "VSS_VOLUME_HEADER_OFFSET = 0x1E00" "BLOCK_SIZE = 16384" "CATALOG_BLOCK_HEADER_LEN = 128"
  "CATALOG_ENTRY_LEN = 128" "CATALOG_BLOCK_RECORD_TYPE = 2" "MAX_CATALOG_BLOCKS = 4096"
  by (simp_all add: VSS_VOLUME_HEADER_OFFSET_def BLOCK_SIZE_def CATALOG_BLOCK_HEADER_LEN_def
      CATALOG_ENTRY_LEN_def CATALOG_BLOCK_RECORD_TYPE_def MAX_CATALOG_BLOCKS_def)

lemma VolumeHeader_parse_fields:
  "VolumeHeader_parse buf = Some
     \<lparr>has_vss_identifier = (field buf 0 16 = VSS_IDENTIFIER),
      version = from_le_bytes (field buf 16 4), record_type = from_le_bytes (field buf 20 4),
      current_offset = from_le_bytes (field buf 24 8),
      header_catalog_offset = from_le_bytes (field buf 48 8),
      maximum_size = from_le_bytes (field buf 56 8),
      volume_identifier = field buf 64 16, storage_volume_identifier = field buf 80 16\<rparr>"
  by (simp add: VolumeHeader_parse_def no_panic usize_max_val)

definition volume_header_of :: "bytes \<Rightarrow> VolumeHeader" where
  "volume_header_of buf = the (VolumeHeader_parse buf)"

lemma VolumeHeader_parse_ok [no_panic]: "VolumeHeader_parse buf = Some (volume_header_of buf)"
  by (simp add: volume_header_of_def VolumeHeader_parse_fields)

lemma parse_catalog_entry_fields:
  "parse_catalog_entry buf = Some
     (let t = from_le_bytes (field buf 0 8) :: u64
      in if t = 2 then
           Snapshot \<lparr>store_id = field buf 16 16, volume_size = from_le_bytes (field buf 8 8),
                     sequence = from_le_bytes (field buf 32 8),
                     snapshot_flags = from_le_bytes (field buf 40 8),
                     creation_time = from_le_bytes (field buf 48 8),
                     store_header_offset = None, store_bitmap_offset = None\<rparr>
         else if t = 3 then
           StorePointer (field buf 16 16) (from_le_bytes (field buf 32 8))
             (from_le_bytes (field buf 48 8))
         else if t = 0 then Empty else Other)"
  by (simp add: parse_catalog_entry_def no_panic usize_max_val Let_def)

definition catalog_entry_of :: "bytes \<Rightarrow> CatalogEntry" where
  "catalog_entry_of buf = the (parse_catalog_entry buf)"

lemma parse_catalog_entry_ok [no_panic]: "parse_catalog_entry buf = Some (catalog_entry_of buf)"
  by (simp add: catalog_entry_of_def parse_catalog_entry_fields)

lemma valid_catalog_entry_of: "valid_entry (catalog_entry_of buf)"
  by (simp add: catalog_entry_of_def parse_catalog_entry_fields Let_def)

lemma catalog_next_block_offset_ok [no_panic]:
  "catalog_next_block_offset b = Some (from_le_bytes (field b 40 8))"
  by (simp add: catalog_next_block_offset_def no_panic usize_max_val)

lemma is_catalog_block_ok [no_panic]:
  "is_catalog_block b =
     Some (field b 0 16 = VSS_IDENTIFIER \<and> from_le_bytes (field b 20 4) = CATALOG_BLOCK_RECORD_TYPE)"
  by (simp add: is_catalog_block_def no_panic usize_max_val)

interpretation volume_header:
  record_codec VolumeHeader_parse encode_volume_header 128 valid_volume_header
proof (unfold_locales, goal_cases)
  case (1 x)
  then show ?case by (simp add: encode_volume_header_def valid_volume_header_def)
next
  case (2 x rest)
  then show ?case
    by (cases "has_vss_identifier x")
      (simp_all add: VolumeHeader_parse_fields encode_volume_header_def valid_volume_header_def
        field_append field_of_le_bytes)
qed

interpretation catalog_entry: record_codec parse_catalog_entry encode_entry 128 valid_entry
proof (unfold_locales, goal_cases)
  case (1 x)
  then show ?case by (cases x) simp_all
next
  case (2 x rest)
  then show ?case
    by (cases x)
      (simp_all add: parse_catalog_entry_fields field_append field_of_le_bytes Let_def)
qed

end
