(* ===== verification/Vss_Chain.thy ===== *)
theory Vss_Chain
  imports Vss_Error Vss_Catalog
begin

text \<open>
  The catalog, the diff area and the store bitmap are chains of 16 KiB blocks, each naming the
  offset of the next one. \<open>chain\<close> is what such a chain is: the offsets visited from a first one
  until the chain ends, repeats, leaves the volume, reaches a block that is not accepted, or
  has given as many blocks as the cap. The locale \<open>chain_walk\<close> is the contract of a loop of the
  sources that walks a chain, and its lemmas are proved once for the three loops: the loop
  does not panic over any reader, and over a volume it folds its body over the chain.
\<close>

definition block_at :: "bytes \<Rightarrow> u64 \<Rightarrow> bytes" where
  "block_at v off = subslice v (unat off) BLOCK_SIZE"

definition in_volume :: "bytes \<Rightarrow> u64 \<Rightarrow> bool" where
  "in_volume v off \<longleftrightarrow> unat off + BLOCK_SIZE \<le> length v"

fun chain ::
    "(bytes \<Rightarrow> bool) \<Rightarrow> (bytes \<Rightarrow> u64) \<Rightarrow> bytes \<Rightarrow> nat \<Rightarrow> u64 set \<Rightarrow> u64 \<Rightarrow> u64 list" where
  "chain accept next_of v 0 visited off = []"
| "chain accept next_of v (Suc k) visited off =
     (if off = 0 \<or> off \<in> visited \<or> \<not> in_volume v off \<or> \<not> accept (block_at v off) then []
      else off # chain accept next_of v k (insert off visited) (next_of (block_at v off)))"

lemma length_block_at [simp]: "in_volume v off \<Longrightarrow> length (block_at v off) = BLOCK_SIZE"
  by (simp add: block_at_def in_volume_def)

lemma length_chain: "length (chain a f v k vis off) \<le> k"
  by (induction k arbitrary: vis off) auto

lemma chain_fresh: "o' \<in> set (chain a f v k vis off) \<Longrightarrow> o' \<notin> vis"
  by (induction k arbitrary: vis off) (auto split: if_splits)

lemma distinct_chain: "distinct (chain a f v k vis off)"
  by (induction k arbitrary: vis off) (auto dest: chain_fresh)

lemma chain_members:
  "o' \<in> set (chain a f v k vis off) \<Longrightarrow> o' \<noteq> 0 \<and> in_volume v o' \<and> a (block_at v o')"
  by (induction k arbitrary: vis off) (auto split: if_splits)

lemma hd_chain: "chain a f v k vis off \<noteq> [] \<Longrightarrow> hd (chain a f v k vis off) = off"
  by (cases k) (auto split: if_splits)

text \<open>A chain stops short of its cap only where it has to.\<close>

lemma chain_maximal:
  assumes "c = chain a f v k vis off" and "length c < k"
    and "nx = (if c = [] then off else f (block_at v (last c)))"
  shows "nx = 0 \<or> nx \<in> vis \<union> set c \<or> \<not> in_volume v nx \<or> \<not> a (block_at v nx)"
  using assms
proof (induction k arbitrary: vis off c)
  case (Suc k)
  show ?case
  proof (cases "off = 0 \<or> off \<in> vis \<or> \<not> in_volume v off \<or> \<not> a (block_at v off)")
    case True
    with Suc.prems show ?thesis by auto
  next
    case False
    let ?c = "chain a f v k (insert off vis) (f (block_at v off))"
    from False Suc.prems(1) have c: "c = off # ?c" by simp
    have "nx = 0 \<or> nx \<in> insert off vis \<union> set ?c \<or> \<not> in_volume v nx \<or> \<not> a (block_at v nx)"
      by (rule Suc.IH [OF refl]) (use Suc.prems(2,3) c in \<open>auto split: if_splits\<close>)
    then show ?thesis unfolding c by auto
  qed
qed simp

text \<open>Each block of the chain is named by the one before it.\<close>

lemma chain_linked:
  "Suc i < length (chain a f v k vis off) \<Longrightarrow>
   chain a f v k vis off ! Suc i = f (block_at v (chain a f v k vis off ! i))"
proof (induction k arbitrary: vis off i)
  case (Suc k)
  show ?case
  proof (cases i)
    case 0
    with Suc.prems show ?thesis by (cases k) (auto split: if_splits)
  next
    case (Suc j)
    with Suc.prems Suc.IH show ?thesis by (auto split: if_splits)
  qed
qed simp

text \<open>Blocks that were written as a chain, the last with no successor, are found as that chain.\<close>

fun linked :: "(bytes \<Rightarrow> bool) \<Rightarrow> (bytes \<Rightarrow> u64) \<Rightarrow> bytes \<Rightarrow> u64 list \<Rightarrow> u64 \<Rightarrow> bool" where
  "linked accept next_of v [] first \<longleftrightarrow> first = 0"
| "linked accept next_of v (off # offs) first \<longleftrightarrow>
     first = off \<and> off \<noteq> 0 \<and> in_volume v off \<and> accept (block_at v off) \<and>
     linked accept next_of v offs (next_of (block_at v off))"

lemma chain_of_linked:
  "linked a f v offs first \<Longrightarrow> distinct offs \<Longrightarrow> length offs \<le> k \<Longrightarrow> vis \<inter> set offs = {} \<Longrightarrow>
   chain a f v k vis first = offs"
proof (induction offs arbitrary: first k vis)
  case Nil
  then show ?case by (cases k) simp_all
next
  case (Cons off offs)
  then obtain j where k: "k = Suc j" by (cases k) auto
  have "chain a f v j (insert off vis) (f (block_at v off)) = offs"
    by (rule Cons.IH) (use Cons.prems k in auto)
  with Cons.prems k show ?case by auto
qed

text \<open>The range check of the sources, on a volume of known size.\<close>

lemma in_volume_checked:
  assumes "length v < 2 ^ 64"
  shows "(\<exists>e. checked_add off (of_nat BLOCK_SIZE) = Some e \<and> e \<le> of_nat (length v)) \<longleftrightarrow>
         in_volume v off"
proof -
  have len: "unat (of_nat (length v) :: u64) = length v"
    using assms by (simp add: unat_of_nat)
  have bs: "unat (of_nat BLOCK_SIZE :: u64) = BLOCK_SIZE"
    by (simp add: vss_consts unat_of_nat)
  show ?thesis
    using assms unfolding in_volume_def word_le_nat_alt len
    by (auto simp: checked_add_Some unat_add_exact bs)
qed

locale chain_walk =
  fixes walk :: "'r read_seek_ops \<Rightarrow> u64 \<Rightarrow> 's \<Rightarrow> u64 set \<Rightarrow> u64 \<Rightarrow> usize \<Rightarrow> 'r \<Rightarrow>
      (VssError, 's) outcome \<times> 'r"
    and cap :: usize
    and step :: "bytes \<Rightarrow> 's \<Rightarrow> ('s \<times> u64) option option"
    and accept :: "bytes \<Rightarrow> bool"
    and next_of :: "bytes \<Rightarrow> u64"
    and body :: "bytes \<Rightarrow> 's \<Rightarrow> 's"
  assumes walk_unfold: "walk ops vs st visited next blocks r =
      (if next \<noteq> 0 \<and> blocks < cap then
         if next \<in> visited then (Ok st, r)
         else (case checked_add next (of_nat BLOCK_SIZE) of
                 None \<Rightarrow> (Ok st, r)
               | Some e \<Rightarrow>
                   if e \<le> vs then
                     and_then (from_io (seek_start ops next r)) (\<lambda>_ r.
                     and_then (from_io (read_exact ops BLOCK_SIZE r)) (\<lambda>block r.
                     or_panic (step block st) r (\<lambda>res.
                       case res of
                         None \<Rightarrow> (Ok st, r)
                       | Some (st', next') \<Rightarrow>
                           walk ops vs st' (insert next visited) next' (Suc blocks) r)))
                   else (Ok st, r))
       else (Ok st, r))"
    and step_law: "length b = BLOCK_SIZE \<Longrightarrow>
      step b st = Some (if accept b then Some (body b st, next_of b) else None)"
begin

text \<open>One turn of the loop: it returns its state, fails with the reader's error, or continues.\<close>

lemma walk_cases:
  assumes "read_seek ops"
  obtains (stop) r' where "walk ops vs st visited next blocks r = (Ok st, r')"
  | (fail) e r' where "walk ops vs st visited next blocks r = (Err e, r')"
  | (continue) b r' where "blocks < cap" and "length b = BLOCK_SIZE" and "accept b"
      and "walk ops vs st visited next blocks r =
           walk ops vs (body b st) (insert next visited) (next_of b) (Suc blocks) r'"
proof -
  let ?w = "walk ops vs st visited next blocks r"
  show ?thesis
  proof (cases "next \<noteq> 0 \<and> blocks < cap \<and> next \<notin> visited \<and>
      (\<exists>e. checked_add next (of_nat BLOCK_SIZE) = Some e \<and> e \<le> vs)")
    case False
    then have "?w = (Ok st, r)"
      by (subst walk_unfold) (auto split: option.split)
    then show ?thesis by (rule stop)
  next
    case True
    then have w: "?w = and_then (from_io (seek_start ops next r)) (\<lambda>_ r.
        and_then (from_io (read_exact ops BLOCK_SIZE r)) (\<lambda>block r.
        or_panic (step block st) r (\<lambda>res. case res of None \<Rightarrow> (Ok st, r)
          | Some (st', next') \<Rightarrow> walk ops vs st' (insert next visited) next' (Suc blocks) r)))"
      by (subst walk_unfold) auto
    obtain s r1 where s: "seek_start ops next r = (s, r1)" by fastforce
    obtain t r2 where t: "read_exact ops BLOCK_SIZE r1 = (t, r2)" by fastforce
    show ?thesis
    proof (cases s)
      case (Inl e)
      with w s show ?thesis by (intro fail) simp
    next
      case Inr1: (Inr x)
      show ?thesis
      proof (cases t)
        case (Inl e)
        with w s t Inr1 show ?thesis by (intro fail) simp
      next
        case (Inr b)
        then have b: "length b = BLOCK_SIZE"
          using read_seek.read_exact_fills [OF assms] t by blast
        have w': "?w = (if accept b
            then walk ops vs (body b st) (insert next visited) (next_of b) (Suc blocks) r2
            else (Ok st, r2))"
          unfolding w using s t Inr1 Inr b by (simp add: step_law)
        show ?thesis
        proof (cases "accept b")
          case True': True
          show ?thesis by (rule continue [of b r2]) (use True True' b w' in auto)
        next
          case False
          with w' show ?thesis by (intro stop) simp
        qed
      qed
    qed
  qed
qed

lemma walk_not_panic:
  assumes "read_seek ops"
  shows "fst (walk ops vs st visited next blocks r) \<noteq> Panic"
proof (induction "cap - blocks" arbitrary: st visited "next" blocks r rule: less_induct)
  case less
  show ?case
    by (rule walk_cases [OF assms, of vs st visited "next" blocks r]) (simp_all add: less)
qed

text \<open>An invariant of the body is an invariant of the walk, over any reader.\<close>

lemma walk_invariant:
  assumes rs: "read_seek ops" and init: "P st"
    and body: "\<And>b st. length b = BLOCK_SIZE \<Longrightarrow> P st \<Longrightarrow> P (body b st)"
    and ok: "walk ops vs st visited next blocks r = (Ok st', r')"
  shows "P st'"
  using init ok
proof (induction "cap - blocks" arbitrary: st visited "next" blocks r rule: less_induct)
  case less
  show ?case
  proof (rule walk_cases [OF rs, of vs st visited "next" blocks r])
    fix b r2
    assume k: "blocks < cap" and b: "length b = BLOCK_SIZE"
      and eq: "walk ops vs st visited next blocks r =
           walk ops vs (body b st) (insert next visited) (next_of b) (Suc blocks) r2"
    show "P st'"
      by (rule less.hyps [of "Suc blocks" "body b st"]) (use k b eq less.prems body in auto)
  qed (use less.prems in auto)
qed

text \<open>The body runs at most once per block, so what it adds is bounded by the cap.\<close>

lemma walk_measure:
  assumes rs: "read_seek ops"
    and body: "\<And>b st. length b = BLOCK_SIZE \<Longrightarrow> m (body b st) \<le> (m st :: nat) + c"
    and ok: "walk ops vs st visited next blocks r = (Ok st', r')"
  shows "m st' \<le> m st + c * (cap - blocks)"
  using ok
proof (induction "cap - blocks" arbitrary: st visited "next" blocks r rule: less_induct)
  case less
  show ?case
  proof (rule walk_cases [OF rs, of vs st visited "next" blocks r])
    fix b r2
    assume k: "blocks < cap" and b: "length b = BLOCK_SIZE"
      and eq: "walk ops vs st visited next blocks r =
           walk ops vs (body b st) (insert next visited) (next_of b) (Suc blocks) r2"
    have "m st' \<le> m (body b st) + c * (cap - Suc blocks)"
      by (rule less.hyps [of "Suc blocks"]) (use k eq less.prems in auto)
    moreover have "c * (cap - blocks) = c + c * (cap - Suc blocks)"
      using k by (metis Suc_diff_Suc mult_Suc_right)
    ultimately show "m st' \<le> m st + c * (cap - blocks)"
      using body [OF b, of st] by linarith
  qed (use less.prems in auto)
qed

text \<open>Over a volume the walk succeeds, and folds the body over the chain.\<close>

lemma walk_chain:
  assumes vr: "volume_reader ops invar contents position"
    and "reads invar contents v r"
  shows "gives (reads invar contents v) (walk ops (of_nat (length v)) st visited next blocks r)
     (Ok (foldl (\<lambda>s off. body (block_at v off) s) st
        (chain accept next_of v (cap - blocks) visited next)))"
  using assms(2)
proof (induction "cap - blocks" arbitrary: st visited "next" blocks r)
  case 0
  then have "\<not> blocks < cap" and "cap - blocks = 0" by simp_all
  with 0(2) show ?case by (subst walk_unfold) simp
next
  case (Suc k)
  from Suc.hyps(2) have k: "blocks < cap" "k = cap - Suc blocks" by simp_all
  from volume_reader.holds_fits [OF vr Suc.prems] have fits: "length v < 2 ^ 64" .
  show ?case
  proof (cases "next = 0 \<or> next \<in> visited \<or> \<not> in_volume v next")
    case True
    with in_volume_checked [OF fits, of "next"] Suc.prems show ?thesis
      by (subst walk_unfold) (auto simp flip: Suc.hyps(2) split: option.split)
  next
    case False
    with in_volume_checked [OF fits, of "next"] obtain e where
      e: "checked_add next (of_nat BLOCK_SIZE) = Some e" "e \<le> of_nat (length v)"
      and iv: "in_volume v next" by blast
    have w: "walk ops (of_nat (length v)) st visited next blocks r =
        and_then (from_io (seek_start ops next r)) (\<lambda>_ r.
        and_then (from_io (read_exact ops BLOCK_SIZE r)) (\<lambda>block r.
        or_panic (step block st) r (\<lambda>res. case res of None \<Rightarrow> (Ok st, r)
          | Some (st', next') \<Rightarrow>
              walk ops (of_nat (length v)) st' (insert next visited) next' (Suc blocks) r)))"
      using False k(1) e by (subst walk_unfold) simp
    show ?thesis
      unfolding w
    proof (rule volume_reader.gives_seek_read_vss [OF vr Suc.prems])
      show "unat next + BLOCK_SIZE \<le> length v" using iv by (simp add: in_volume_def)
    next
      fix r assume "volume_reader.holds_at invar contents position v (unat next + BLOCK_SIZE) r"
      then have r: "reads invar contents v r" by (rule volume_reader.holds_at_holds [OF vr])
      from Suc.hyps(1) [OF k(2) r] False iv
      show "gives (reads invar contents v)
          (or_panic (step (subslice v (unat next) BLOCK_SIZE) st) r (\<lambda>res. case res of
              None \<Rightarrow> (Ok st, r)
            | Some (st', next') \<Rightarrow>
                walk ops (of_nat (length v)) st' (insert next visited) next' (Suc blocks) r))
          (Ok (foldl (\<lambda>s off. body (block_at v off) s) st
            (chain accept next_of v (cap - blocks) visited next)))"
        using r by (simp add: step_law flip: Suc.hyps(2) k(2) block_at_def)
    qed
  qed
qed

end

end
