(* ===== verification/Vss_Store.thy ===== *)
theory Vss_Store
  imports Vss_Codec Vss_Guid
begin

unbundle bit_operations_syntax

text \<open>
  \<open>core/src/store.rs\<close>: the store block header, the attribute flags and the store information
  with its two length-prefixed UTF-16LE strings. \<open>encode_store_header\<close> and
  \<open>encode_store_info\<close> are the documented layouts.
\<close>

section \<open>Constants, records and parsers\<close>

definition STORE_BLOCK_HEADER_LEN :: usize where
  "STORE_BLOCK_HEADER_LEN = 128"

definition STORE_HEADER_RECORD_TYPE :: u32 where
  "STORE_HEADER_RECORD_TYPE = 0x0004"

definition MAX_STORE_INFO_LEN :: usize where
  "MAX_STORE_INFO_LEN = 2 ^ 20"

record StoreBlockHeader =
  sbh_has_vss_identifier :: bool
  sbh_version :: u32
  sbh_record_type :: u32
  sbh_relative_offset :: u64
  sbh_current_offset :: u64
  sbh_next_offset :: u64
  sbh_store_information_size :: u64

definition StoreBlockHeader_parse :: "bytes \<Rightarrow> StoreBlockHeader option" where
  "StoreBlockHeader_parse buf = do {
     guid \<leftarrow> read_guid buf 0;
     ver \<leftarrow> le_u32 buf 16;
     rt \<leftarrow> le_u32 buf 20;
     rel \<leftarrow> le_u64 buf 24;
     cur \<leftarrow> le_u64 buf 32;
     nxt \<leftarrow> le_u64 buf 40;
     sz \<leftarrow> le_u64 buf 48;
     Some \<lparr>sbh_has_vss_identifier = (guid = VSS_IDENTIFIER), sbh_version = ver,
           sbh_record_type = rt, sbh_relative_offset = rel, sbh_current_offset = cur,
           sbh_next_offset = nxt, sbh_store_information_size = sz\<rparr>
   }"

datatype AttributeFlags = AttributeFlags (attribute_bits: u32)

definition PERSISTENT :: u32 where "PERSISTENT = 0x00000001"
definition NO_AUTO_RECOVERY :: u32 where "NO_AUTO_RECOVERY = 0x00000002"
definition CLIENT_ACCESSIBLE :: u32 where "CLIENT_ACCESSIBLE = 0x00000004"
definition NO_AUTO_RELEASE :: u32 where "NO_AUTO_RELEASE = 0x00000008"
definition NO_WRITERS :: u32 where "NO_WRITERS = 0x00000010"
definition TRANSPORTABLE :: u32 where "TRANSPORTABLE = 0x00000020"
definition NOT_SURFACED :: u32 where "NOT_SURFACED = 0x00000040"
definition NOT_TRANSACTED :: u32 where "NOT_TRANSACTED = 0x00000080"
definition DIFFERENTIAL :: u32 where "DIFFERENTIAL = 0x00020000"
definition PLEX :: u32 where "PLEX = 0x00040000"

definition attr_contains :: "AttributeFlags \<Rightarrow> u32 \<Rightarrow> bool" where
  "attr_contains f flag \<longleftrightarrow> attribute_bits f AND flag \<noteq> 0"

definition is_persistent :: "AttributeFlags \<Rightarrow> bool" where
  "is_persistent f \<longleftrightarrow> attr_contains f PERSISTENT"

definition is_client_accessible :: "AttributeFlags \<Rightarrow> bool" where
  "is_client_accessible f \<longleftrightarrow> attr_contains f CLIENT_ACCESSIBLE"

definition is_differential :: "AttributeFlags \<Rightarrow> bool" where
  "is_differential f \<longleftrightarrow> attr_contains f DIFFERENTIAL"

record StoreInfo =
  shadow_copy_id :: bytes
  shadow_copy_set_id :: bytes
  snapshot_context :: u32
  attributes :: AttributeFlags
  operating_machine :: rstring
  service_machine :: rstring

definition shadow_copy_id_string :: "(bytes \<Rightarrow> rstring) \<Rightarrow> StoreInfo \<Rightarrow> rstring" where
  "shadow_copy_id_string uuid i = format_guid uuid (shadow_copy_id i)"

definition shadow_copy_set_id_string :: "(bytes \<Rightarrow> rstring) \<Rightarrow> StoreInfo \<Rightarrow> rstring" where
  "shadow_copy_set_id_string uuid i = format_guid uuid (shadow_copy_set_id i)"

definition read_string :: "bytes \<Rightarrow> usize \<Rightarrow> usize \<Rightarrow> rstring option" where
  "read_string buf off len = do {
     e \<leftarrow> usize_add off len;
     Some (case slice_get buf off e of Some s \<Rightarrow> utf16le_string s | None \<Rightarrow> [])
   }"

definition StoreInfo_parse :: "bytes \<Rightarrow> StoreInfo option" where
  "StoreInfo_parse buf = do {
     op_size \<leftarrow> map_option unat (le_u16 buf 64);
     op_machine \<leftarrow> read_string buf 66 op_size;
     svc_size_off \<leftarrow> usize_add 66 op_size;
     svc_size \<leftarrow> map_option unat (le_u16 buf svc_size_off);
     svc_off \<leftarrow> usize_add svc_size_off 2;
     svc_machine \<leftarrow> read_string buf svc_off svc_size;
     copy_id \<leftarrow> read_guid buf 16;
     set_id \<leftarrow> read_guid buf 32;
     ctx \<leftarrow> le_u32 buf 48;
     attr \<leftarrow> le_u32 buf 56;
     Some \<lparr>shadow_copy_id = copy_id, shadow_copy_set_id = set_id, snapshot_context = ctx,
           attributes = AttributeFlags attr, operating_machine = op_machine,
           service_machine = svc_machine\<rparr>
   }"

section \<open>The on-disk layouts\<close>

definition encode_store_header :: "StoreBlockHeader \<Rightarrow> bytes" where
  "encode_store_header h =
     (if sbh_has_vss_identifier h then VSS_IDENTIFIER else replicate 16 0) @
     to_le_bytes 4 (sbh_version h) @ to_le_bytes 4 (sbh_record_type h) @
     to_le_bytes 8 (sbh_relative_offset h) @ to_le_bytes 8 (sbh_current_offset h) @
     to_le_bytes 8 (sbh_next_offset h) @ to_le_bytes 8 (sbh_store_information_size h) @
     replicate 72 0"

text \<open>The unread bytes of the store information are \<open>u1\<close>, \<open>u2\<close> and \<open>u3\<close>.\<close>

definition encode_store_info :: "bytes \<Rightarrow> bytes \<Rightarrow> bytes \<Rightarrow> StoreInfo \<Rightarrow> bytes" where
  "encode_store_info u1 u2 u3 i =
     u1 @ shadow_copy_id i @ shadow_copy_set_id i @ to_le_bytes 4 (snapshot_context i) @ u2 @
     to_le_bytes 4 (attribute_bits (attributes i)) @ u3 @
     to_le_bytes 2 (of_nat (length (utf16le_bytes (operating_machine i))) :: u16) @
     utf16le_bytes (operating_machine i) @
     to_le_bytes 2 (of_nat (length (utf16le_bytes (service_machine i))) :: u16) @
     utf16le_bytes (service_machine i)"

definition valid_machine :: "rstring \<Rightarrow> bool" where
  "valid_machine s \<longleftrightarrow> (\<forall>c \<in> set s. is_scalar c) \<and> length (utf16le_bytes s) < 65536"

definition valid_store_info :: "StoreInfo \<Rightarrow> bool" where
  "valid_store_info i \<longleftrightarrow>
     length (shadow_copy_id i) = 16 \<and> length (shadow_copy_set_id i) = 16 \<and>
     valid_machine (operating_machine i) \<and> valid_machine (service_machine i)"

section \<open>Lemmas\<close>

lemma store_consts [vss_consts]:
  "STORE_BLOCK_HEADER_LEN = 128" "MAX_STORE_INFO_LEN = 1048576"
  by (simp_all add: STORE_BLOCK_HEADER_LEN_def MAX_STORE_INFO_LEN_def)

lemma StoreBlockHeader_parse_fields:
  "StoreBlockHeader_parse buf = Some
     \<lparr>sbh_has_vss_identifier = (field buf 0 16 = VSS_IDENTIFIER),
      sbh_version = from_le_bytes (field buf 16 4),
      sbh_record_type = from_le_bytes (field buf 20 4),
      sbh_relative_offset = from_le_bytes (field buf 24 8),
      sbh_current_offset = from_le_bytes (field buf 32 8),
      sbh_next_offset = from_le_bytes (field buf 40 8),
      sbh_store_information_size = from_le_bytes (field buf 48 8)\<rparr>"
  by (simp add: StoreBlockHeader_parse_def no_panic usize_max_val)

definition store_header_of :: "bytes \<Rightarrow> StoreBlockHeader" where
  "store_header_of buf = the (StoreBlockHeader_parse buf)"

lemma StoreBlockHeader_parse_ok [no_panic]:
  "StoreBlockHeader_parse buf = Some (store_header_of buf)"
  by (simp add: store_header_of_def StoreBlockHeader_parse_fields)

interpretation store_header:
  record_codec StoreBlockHeader_parse encode_store_header 128 "\<lambda>_. True"
proof (unfold_locales, goal_cases)
  case (1 x)
  then show ?case by (simp add: encode_store_header_def)
next
  case (2 x rest)
  then show ?case
    by (cases "sbh_has_vss_identifier x")
      (simp_all add: StoreBlockHeader_parse_fields encode_store_header_def
        field_append field_of_le_bytes)
qed

text \<open>A string whose range leaves the buffer is empty; the range itself cannot overflow.\<close>

lemma read_string_ok [no_panic]:
  "off + len \<le> usize_max \<Longrightarrow>
   read_string buf off len =
     Some (if off + len \<le> length buf then utf16le_string (subslice buf off len) else [])"
  by (simp add: read_string_def usize_add_ok slice_get_def subslice_def)

lemma StoreInfo_parse_fields:
  "StoreInfo_parse buf = Some
     (let op_size = unat (from_le_bytes (field buf 64 2) :: u16);
          svc_size = unat (from_le_bytes (field buf (66 + op_size) 2) :: u16)
      in \<lparr>shadow_copy_id = field buf 16 16, shadow_copy_set_id = field buf 32 16,
          snapshot_context = from_le_bytes (field buf 48 4),
          attributes = AttributeFlags (from_le_bytes (field buf 56 4)),
          operating_machine =
            (if 66 + op_size \<le> length buf then utf16le_string (subslice buf 66 op_size) else []),
          service_machine =
            (if 68 + op_size + svc_size \<le> length buf
             then utf16le_string (subslice buf (68 + op_size) svc_size) else [])\<rparr>)"
proof -
  have b: "unat (w :: u16) \<le> 65535" for w
    using u16_range [of w] by simp
  show ?thesis
    using b [of "from_le_bytes (field buf 64 2)"]
      b [of "from_le_bytes (field buf (66 + unat (from_le_bytes (field buf 64 2) :: u16)) 2)"]
    by (simp add: StoreInfo_parse_def no_panic usize_max_val Let_def)
qed

definition store_info_of :: "bytes \<Rightarrow> StoreInfo" where
  "store_info_of buf = the (StoreInfo_parse buf)"

lemma StoreInfo_parse_ok [no_panic]: "StoreInfo_parse buf = Some (store_info_of buf)"
  by (simp add: store_info_of_def StoreInfo_parse_fields)

lemma StoreInfo_parse_encode:
  assumes "valid_store_info i" and "length u1 = 16" and "length u2 = 4" and "length u3 = 4"
  shows "StoreInfo_parse (encode_store_info u1 u2 u3 i @ rest) = Some i"
proof -
  let ?op = "utf16le_bytes (operating_machine i)" and ?svc = "utf16le_bytes (service_machine i)"
  have valid: "length (shadow_copy_id i) = 16" "length (shadow_copy_set_id i) = 16"
      "length ?op < 65536" "length ?svc < 65536"
    and strings: "utf16le_string ?op = operating_machine i" "utf16le_string ?svc = service_machine i"
    using assms(1) by (auto simp: valid_store_info_def valid_machine_def intro: utf16le_roundtrip)
  have size: "unat (of_nat (length ?op) :: u16) = length ?op"
      "unat (of_nat (length ?svc) :: u16) = length ?svc"
    using valid by (simp_all add: unat_of_nat)
  show ?thesis
    using assms(2-4) valid
    by (cases "attributes i")
      (simp add: StoreInfo_parse_fields encode_store_info_def field_append field_of_le_bytes
        Let_def size strings)
qed

end
