(* ===== verification/Vss_Volume.thy ===== *)
theory Vss_Volume
  imports Vss_Chain Vss_Store
begin

text \<open>
  \<open>core/src/lib.rs\<close>: opening a volume, walking its catalog, reading a store's information.
  \<open>catalog_stores\<close> is the abstract specification: the entries of the blocks of the catalog
  chain, applied in order. The lemmas show that \<open>walk_catalog\<close> and \<open>open_volume\<close> implement it
  over every volume, do not panic over any reader, and keep the invariants of the stores.
\<close>

section \<open>State and operations\<close>

record 'r VssVolume =
  reader :: 'r
  total_size :: u64
  has_vss_header :: bool
  catalog_offset :: u64
  stores :: "StoreDescriptor list"

text \<open>The accessors; the fields they read are private to the module.\<close>

definition VssVolume_has_vss_header :: "'r VssVolume \<Rightarrow> bool" where
  "VssVolume_has_vss_header vol = has_vss_header vol"

definition VssVolume_stores :: "'r VssVolume \<Rightarrow> StoreDescriptor list" where
  "VssVolume_stores vol = stores vol"

definition VssVolume_catalog_offset :: "'r VssVolume \<Rightarrow> u64" where
  "VssVolume_catalog_offset vol = catalog_offset vol"

definition store_count :: "'r VssVolume \<Rightarrow> usize" where
  "store_count vol = length (stores vol)"

definition VssVolume_volume_size :: "'r VssVolume \<Rightarrow> u64" where
  "VssVolume_volume_size vol = total_size vol"

declare VssVolume_has_vss_header_def [simp] VssVolume_stores_def [simp]
  VssVolume_catalog_offset_def [simp]

text \<open>\<open>iter_mut().rev().find(p)\<close> and the assignments to what it found.\<close>

fun update_first :: "('a \<Rightarrow> bool) \<Rightarrow> ('a \<Rightarrow> 'a) \<Rightarrow> 'a list \<Rightarrow> 'a list" where
  "update_first p f [] = []"
| "update_first p f (x # xs) = (if p x then f x # xs else x # update_first p f xs)"

fun apply_entry :: "CatalogEntry \<Rightarrow> StoreDescriptor list \<Rightarrow> StoreDescriptor list" where
  "apply_entry (Snapshot d) ds = ds @ [d]"
| "apply_entry (StorePointer sid hd_off bm_off) ds =
     rev (update_first (\<lambda>d. store_id d = sid \<and> store_header_offset d = None)
            (\<lambda>d. d\<lparr>store_header_offset := Some hd_off, store_bitmap_offset := Some bm_off\<rparr>)
            (rev ds))"
| "apply_entry Empty ds = ds"
| "apply_entry Other ds = ds"

function walk_entries ::
    "bytes \<Rightarrow> usize \<Rightarrow> StoreDescriptor list \<Rightarrow> StoreDescriptor list option" where
  "walk_entries block off ds = do {
     e \<leftarrow> usize_add off CATALOG_ENTRY_LEN;
     (if e \<le> BLOCK_SIZE then do {
        buf \<leftarrow> slice_get block off e;
        entry \<leftarrow> parse_catalog_entry buf;
        off' \<leftarrow> usize_add off CATALOG_ENTRY_LEN;
        walk_entries block off' (apply_entry entry ds)
      }
      else Some ds)
   }"
  by pat_completeness auto
termination
  by (relation "measure (\<lambda>(_, off, _). BLOCK_SIZE - off)") (auto simp: usize_add_Some vss_consts)

function walk_catalog_loop ::
    "'r read_seek_ops \<Rightarrow> u64 \<Rightarrow> StoreDescriptor list \<Rightarrow> u64 set \<Rightarrow> u64 \<Rightarrow> usize \<Rightarrow> 'r \<Rightarrow>
     (VssError, StoreDescriptor list) outcome \<times> 'r" where
  "walk_catalog_loop ops vs ds visited next blocks r =
     (if next \<noteq> 0 \<and> blocks < MAX_CATALOG_BLOCKS then
        if next \<in> visited then (Ok ds, r)
        else (case checked_add next (of_nat BLOCK_SIZE) of
                None \<Rightarrow> (Ok ds, r)
              | Some e \<Rightarrow>
                  if e \<le> vs then
                    and_then (from_io (seek_start ops next r)) (\<lambda>_ r.
                    and_then (from_io (read_exact ops BLOCK_SIZE r)) (\<lambda>block r.
                    or_panic (is_catalog_block block) r (\<lambda>is_catalog.
                    if \<not> is_catalog then (Ok ds, r)
                    else
                      or_panic (walk_entries block CATALOG_BLOCK_HEADER_LEN ds) r (\<lambda>ds'.
                      or_panic (usize_add blocks 1) r (\<lambda>blocks'.
                      or_panic (catalog_next_block_offset block) r (\<lambda>next'.
                      walk_catalog_loop ops vs ds' (insert next visited) next' blocks' r))))))
                  else (Ok ds, r))
      else (Ok ds, r))"
  by pat_completeness auto
termination
  by (relation "measure (\<lambda>(_, _, _, _, _, blocks, _). MAX_CATALOG_BLOCKS - blocks)")
    (auto simp: usize_add_Some)

declare walk_entries.simps [simp del] walk_catalog_loop.simps [simp del]

definition walk_catalog ::
    "'r read_seek_ops \<Rightarrow> u64 \<Rightarrow> u64 \<Rightarrow> 'r \<Rightarrow> (VssError, StoreDescriptor list) outcome \<times> 'r" where
  "walk_catalog ops first vs r = walk_catalog_loop ops vs [] {} first 0 r"

text \<open>The volume owns the reader it was opened with; a failed \<open>open\<close> drops it.\<close>

definition open_volume_run ::
    "'r read_seek_ops \<Rightarrow> 'r \<Rightarrow> (VssError, 'r VssVolume) outcome \<times> 'r" where
  "open_volume_run ops r =
     and_then (from_io (seek_end ops r)) (\<lambda>vs r.
     and_then
       (if VSS_VOLUME_HEADER_OFFSET + of_nat CATALOG_BLOCK_HEADER_LEN \<le> vs then
          and_then (from_io (seek_start ops VSS_VOLUME_HEADER_OFFSET r)) (\<lambda>_ r.
          and_then (from_io (read_exact ops CATALOG_BLOCK_HEADER_LEN r)) (\<lambda>hdr r.
          or_panic (VolumeHeader_parse hdr) r (\<lambda>vh.
          (Ok (has_vss_identifier vh, header_catalog_offset vh), r))))
        else (Ok (False, 0), r)) (\<lambda>(has_header, cat_off) r.
     and_then
       (if has_header \<and> cat_off \<noteq> 0 then walk_catalog ops cat_off vs r else (Ok [], r)) (\<lambda>ds r.
     (Ok \<lparr>reader = r, total_size = vs, has_vss_header = has_header,
          catalog_offset = cat_off, stores = ds\<rparr>, r))))"

definition open_volume :: "'r read_seek_ops \<Rightarrow> 'r \<Rightarrow> (VssError, 'r VssVolume) outcome" where
  "open_volume ops r = fst (open_volume_run ops r)"

text \<open>An operation on the volume's reader.\<close>

definition with_reader ::
    "'r VssVolume \<Rightarrow> ('r \<Rightarrow> ('e, 'a) outcome \<times> 'r) \<Rightarrow> ('e, 'a) outcome \<times> 'r VssVolume" where
  "with_reader vol f = (case f (reader vol) of (res, r) \<Rightarrow> (res, vol\<lparr>reader := r\<rparr>))"

definition store_info ::
    "'r read_seek_ops \<Rightarrow> usize \<Rightarrow> 'r VssVolume \<Rightarrow> (VssError, StoreInfo) outcome \<times> 'r VssVolume" where
  "store_info ops i vol =
     (case vec_get (stores vol) i of
        None \<Rightarrow> (Err (StoreIndexOutOfRange i (length (stores vol))), vol)
      | Some d \<Rightarrow>
     (case store_header_offset d of
        None \<Rightarrow> (Err (StoreInfoUnavailable i), vol)
      | Some header_off \<Rightarrow>
     (case (case checked_add header_off (of_nat STORE_BLOCK_HEADER_LEN) of
              Some e \<Rightarrow> if e \<le> total_size vol then Some e else None
            | None \<Rightarrow> None) of
        None \<Rightarrow> (Err (StoreOffsetOutOfBounds i header_off (total_size vol)), vol)
      | Some header_end \<Rightarrow>
          with_reader vol (\<lambda>r.
          and_then (from_io (seek_start ops header_off r)) (\<lambda>_ r.
          and_then (from_io (read_exact ops STORE_BLOCK_HEADER_LEN r)) (\<lambda>hbuf r.
          or_panic (StoreBlockHeader_parse hbuf) r (\<lambda>header.
          let remaining = as_usize (saturating_sub (total_size vol) header_end);
              want = (case usize_try_from (sbh_store_information_size header) of
                        Some n \<Rightarrow> n | None \<Rightarrow> usize_max);
              info_len = min (min want MAX_STORE_INFO_LEN) remaining
          in
          and_then (from_io (read_exact ops info_len r)) (\<lambda>ibuf r.
          or_panic (StoreInfo_parse ibuf) r (\<lambda>info. (Ok info, r)))))))))  )"

section \<open>The abstract specification\<close>

definition entries_per_block :: nat where
  "entries_per_block = (BLOCK_SIZE - CATALOG_BLOCK_HEADER_LEN) div CATALOG_ENTRY_LEN"

definition entry_at :: "bytes \<Rightarrow> nat \<Rightarrow> CatalogEntry" where
  "entry_at block i =
     catalog_entry_of
       (subslice block (CATALOG_BLOCK_HEADER_LEN + i * CATALOG_ENTRY_LEN) CATALOG_ENTRY_LEN)"

definition block_entries :: "bytes \<Rightarrow> CatalogEntry list" where
  "block_entries block = map (entry_at block) [0..<entries_per_block]"

definition accept_catalog :: "bytes \<Rightarrow> bool" where
  "accept_catalog b \<longleftrightarrow>
     field b 0 16 = VSS_IDENTIFIER \<and> from_le_bytes (field b 20 4) = CATALOG_BLOCK_RECORD_TYPE"

definition next_catalog :: "bytes \<Rightarrow> u64" where
  "next_catalog b = from_le_bytes (field b 40 8)"

definition apply_entries :: "CatalogEntry list \<Rightarrow> StoreDescriptor list \<Rightarrow> StoreDescriptor list" where
  "apply_entries es ds = fold apply_entry es ds"

definition catalog_chain :: "bytes \<Rightarrow> u64 \<Rightarrow> u64 list" where
  "catalog_chain v first = chain accept_catalog next_catalog v MAX_CATALOG_BLOCKS {} first"

definition catalog_entries :: "bytes \<Rightarrow> u64 \<Rightarrow> CatalogEntry list" where
  "catalog_entries v first = concat (map (\<lambda>off. block_entries (block_at v off)) (catalog_chain v first))"

definition catalog_stores :: "bytes \<Rightarrow> u64 \<Rightarrow> StoreDescriptor list" where
  "catalog_stores v first = apply_entries (catalog_entries v first) []"

text \<open>What opening the volume \<open>v\<close> finds: the header if the volume is long enough for one.\<close>

definition header_of :: "bytes \<Rightarrow> VolumeHeader option" where
  "header_of v =
     (if 0x1E00 + 128 \<le> length v then Some (volume_header_of (subslice v 0x1E00 128)) else None)"

definition volume_has_header :: "bytes \<Rightarrow> bool" where
  "volume_has_header v = (case header_of v of None \<Rightarrow> False | Some h \<Rightarrow> has_vss_identifier h)"

definition volume_catalog_offset :: "bytes \<Rightarrow> u64" where
  "volume_catalog_offset v = (case header_of v of None \<Rightarrow> 0 | Some h \<Rightarrow> header_catalog_offset h)"

definition volume_stores :: "bytes \<Rightarrow> StoreDescriptor list" where
  "volume_stores v =
     (if volume_has_header v \<and> volume_catalog_offset v \<noteq> 0
      then catalog_stores v (volume_catalog_offset v) else [])"

section \<open>Walking the entries of a block\<close>

lemma walk_entries_from:
  assumes "length block = BLOCK_SIZE"
  shows "i \<le> entries_per_block \<Longrightarrow>
    walk_entries block (CATALOG_BLOCK_HEADER_LEN + i * CATALOG_ENTRY_LEN) ds =
      Some (apply_entries (map (entry_at block) [i..<entries_per_block]) ds)"
proof (induction "entries_per_block - i" arbitrary: i ds)
  case 0
  then have "i = entries_per_block" by simp
  then show ?case
    by (subst walk_entries.simps)
      (simp add: entries_per_block_def vss_consts usize_add_def usize_max_val apply_entries_def)
next
  case (Suc k)
  then have i: "i < entries_per_block" by simp
  let ?off = "CATALOG_BLOCK_HEADER_LEN + i * CATALOG_ENTRY_LEN"
  have off: "?off + CATALOG_ENTRY_LEN = CATALOG_BLOCK_HEADER_LEN + Suc i * CATALOG_ENTRY_LEN"
    by simp
  have le: "?off + CATALOG_ENTRY_LEN \<le> BLOCK_SIZE"
    using i by (simp add: entries_per_block_def vss_consts)
  then have add: "usize_add ?off CATALOG_ENTRY_LEN = Some (?off + CATALOG_ENTRY_LEN)"
    by (simp add: usize_add_def usize_max_val vss_consts)
  have "walk_entries block ?off ds =
      walk_entries block (CATALOG_BLOCK_HEADER_LEN + Suc i * CATALOG_ENTRY_LEN)
        (apply_entry (entry_at block i) ds)"
    using le assms
    by (subst walk_entries.simps) (simp add: add slice_get_ok parse_catalog_entry_ok entry_at_def off)
  also have "\<dots> = Some (apply_entries (map (entry_at block) [Suc i..<entries_per_block])
        (apply_entry (entry_at block i) ds))"
    by (rule Suc.hyps(1)) (use Suc.hyps(2) i in auto)
  finally show ?case
    using i by (simp add: upt_conv_Cons apply_entries_def)
qed

lemma walk_entries_ok [no_panic]:
  "length block = BLOCK_SIZE \<Longrightarrow>
   walk_entries block CATALOG_BLOCK_HEADER_LEN ds = Some (apply_entries (block_entries block) ds)"
  using walk_entries_from [of block 0] by (simp add: block_entries_def)

section \<open>The catalog walk as a chain walk\<close>

definition catalog_step ::
    "bytes \<Rightarrow> StoreDescriptor list \<Rightarrow> (StoreDescriptor list \<times> u64) option option" where
  "catalog_step block ds = do {
     c \<leftarrow> is_catalog_block block;
     (if \<not> c then Some None
      else do {
        ds' \<leftarrow> walk_entries block CATALOG_BLOCK_HEADER_LEN ds;
        n \<leftarrow> catalog_next_block_offset block;
        Some (Some (ds', n))
      })
   }"

interpretation catalog: chain_walk
  walk_catalog_loop MAX_CATALOG_BLOCKS catalog_step accept_catalog next_catalog
  "\<lambda>b. apply_entries (block_entries b)"
proof (unfold_locales, goal_cases)
  case (1 ops vs st visited "next" blocks r)
  have add: "usize_add blocks 1 = Some (Suc blocks)" if "blocks < MAX_CATALOG_BLOCKS"
    using that by (simp add: usize_add_def usize_max_val vss_consts)
  have body: "or_panic (is_catalog_block block) r (\<lambda>is_catalog.
      if \<not> is_catalog then (Ok st, r)
      else or_panic (walk_entries block CATALOG_BLOCK_HEADER_LEN st) r (\<lambda>ds'.
           or_panic (usize_add blocks 1) r (\<lambda>blocks'.
           or_panic (catalog_next_block_offset block) r (\<lambda>next'.
           walk_catalog_loop ops vs ds' (insert next visited) next' blocks' r)))) =
      or_panic (catalog_step block st) r (\<lambda>res. case res of
           None \<Rightarrow> (Ok st, r)
         | Some (st', next') \<Rightarrow>
             walk_catalog_loop ops vs st' (insert next visited) next' (Suc blocks) r)"
    if "blocks < MAX_CATALOG_BLOCKS" for block r
    using add [OF that]
    by (cases "is_catalog_block block"; cases "walk_entries block CATALOG_BLOCK_HEADER_LEN st";
        cases "catalog_next_block_offset block") (simp_all add: catalog_step_def)
  show ?case
  proof (cases "blocks < MAX_CATALOG_BLOCKS")
    case True
    show ?thesis by (subst walk_catalog_loop.simps) (simp only: body [OF True])
  next
    case False
    then show ?thesis by (subst walk_catalog_loop.simps) simp
  qed
next
  case (2 b st)
  then show ?case
    by (simp add: catalog_step_def is_catalog_block_ok walk_entries_ok catalog_next_block_offset_ok
        accept_catalog_def next_catalog_def)
qed

lemma foldl_entries:
  "foldl (\<lambda>s off. apply_entries (g off) s) s offs = apply_entries (concat (map g offs)) s"
  by (induction offs arbitrary: s) (simp_all add: apply_entries_def)

lemma walk_catalog_volume:
  assumes "volume_reader ops invar contents position" and "reads invar contents v r"
  shows "gives (reads invar contents v) (walk_catalog ops first (of_nat (length v)) r)
           (Ok (catalog_stores v first))"
  using catalog.walk_chain [OF assms, of "[]" "{}" first 0]
  by (simp add: walk_catalog_def catalog_stores_def catalog_entries_def catalog_chain_def foldl_entries)

section \<open>What every entry keeps\<close>

text \<open>A descriptor as a catalog yields it: both offsets are known or neither is.\<close>

definition store_wf :: "StoreDescriptor \<Rightarrow> bool" where
  "store_wf d \<longleftrightarrow> length (store_id d) = 16 \<and>
     (store_header_offset d = None \<longleftrightarrow> store_bitmap_offset d = None)"

text \<open>The descriptor without its pointers, as its type-0x02 entry gave it.\<close>

definition core :: "StoreDescriptor \<Rightarrow> StoreDescriptor" where
  "core d = d\<lparr>store_header_offset := None, store_bitmap_offset := None\<rparr>"

fun snapshots :: "CatalogEntry list \<Rightarrow> StoreDescriptor list" where
  "snapshots [] = []"
| "snapshots (Snapshot d # es) = d # snapshots es"
| "snapshots (_ # es) = snapshots es"

lemma set_update_first: "x \<in> set (update_first p f xs) \<Longrightarrow> x \<in> set xs \<or> (\<exists>y \<in> set xs. p y \<and> x = f y)"
  by (induction xs) (auto split: if_splits)

lemma length_update_first [simp]: "length (update_first p f xs) = length xs"
  by (induction xs) auto

lemma map_update_first: "(\<And>x. g (f x) = g x) \<Longrightarrow> map g (update_first p f xs) = map g xs"
  by (induction xs) auto

lemma apply_entry_wf:
  assumes "valid_entry e" and "\<forall>d \<in> set ds. store_wf d"
  shows "\<forall>d \<in> set (apply_entry e ds). store_wf d"
  using assms by (cases e) (auto simp: store_wf_def dest!: set_update_first)

lemma apply_entries_wf:
  "\<forall>e \<in> set es. valid_entry e \<Longrightarrow> \<forall>d \<in> set ds. store_wf d \<Longrightarrow>
   \<forall>d \<in> set (apply_entries es ds). store_wf d"
proof (induction es arbitrary: ds)
  case (Cons e es)
  then have "\<forall>d \<in> set (apply_entry e ds). store_wf d"
    by (intro apply_entry_wf) simp_all
  with Cons show ?case by (simp add: apply_entries_def)
qed (simp add: apply_entries_def)

lemma valid_block_entries: "e \<in> set (block_entries b) \<Longrightarrow> valid_entry e"
  by (auto simp: block_entries_def entry_at_def valid_catalog_entry_of)

lemma length_block_entries [simp]: "length (block_entries b) = 127"
  by (simp add: block_entries_def entries_per_block_def vss_consts)

lemma length_apply_entries: "length (apply_entries es ds) \<le> length ds + length es"
proof (induction es arbitrary: ds)
  case (Cons e es)
  have "length (apply_entry e ds) \<le> Suc (length ds)" by (cases e) auto
  with Cons [of "apply_entry e ds"] show ?case by (simp add: apply_entries_def)
qed (simp add: apply_entries_def)

lemma core_apply_entry:
  "map core (apply_entry e ds) = map core ds @ map core (snapshots [e])"
  by (cases e) (simp_all add: map_update_first core_def rev_map [symmetric])

lemma core_apply_entries:
  "map core (apply_entries es ds) = map core ds @ map core (snapshots es)"
proof (induction es arbitrary: ds)
  case (Cons e es)
  have "snapshots (e # es) = snapshots [e] @ snapshots es" by (cases e) simp_all
  with Cons [of "apply_entry e ds"] core_apply_entry [of e ds] show ?case
    by (simp add: apply_entries_def)
qed (simp add: apply_entries_def)

lemma core_snapshots: "\<forall>e \<in> set es. valid_entry e \<Longrightarrow> map core (snapshots es) = snapshots es"
  by (induction es rule: snapshots.induct) (auto simp: core_def)

text \<open>An attached pointer comes from an entry of the store's own identifier.\<close>

definition pointed_by :: "CatalogEntry set \<Rightarrow> StoreDescriptor \<Rightarrow> bool" where
  "pointed_by es d \<longleftrightarrow>
     (case (store_header_offset d, store_bitmap_offset d) of
        (Some h, Some b) \<Rightarrow> StorePointer (store_id d) h b \<in> es
      | (None, None) \<Rightarrow> True
      | _ \<Rightarrow> False)"

lemma pointed_by_mono: "pointed_by es d \<Longrightarrow> es \<subseteq> es' \<Longrightarrow> pointed_by es' d"
  by (auto simp: pointed_by_def split: option.splits)

lemma apply_entry_pointed:
  assumes "valid_entry e" and "\<forall>d \<in> set ds. pointed_by es d"
  shows "\<forall>d \<in> set (apply_entry e ds). pointed_by (insert e es) d"
proof
  fix d assume d: "d \<in> set (apply_entry e ds)"
  have old: "d \<in> set ds \<Longrightarrow> pointed_by (insert e es) d"
    using assms(2) pointed_by_mono by blast
  show "pointed_by (insert e es) d"
    using assms(1) d old
    by (cases e) (auto simp: pointed_by_def dest!: set_update_first)
qed

lemma apply_entries_pointed:
  "\<forall>e \<in> set es. valid_entry e \<Longrightarrow> \<forall>d \<in> set ds. pointed_by es' d \<Longrightarrow>
   \<forall>d \<in> set (apply_entries es ds). pointed_by (es' \<union> set es) d"
proof (induction es arbitrary: ds es')
  case (Cons e es)
  have "\<forall>d \<in> set (apply_entry e ds). pointed_by (insert e es') d"
    using Cons.prems by (intro apply_entry_pointed) auto
  with Cons show ?case by (fastforce simp: apply_entries_def)
qed (simp add: apply_entries_def)

section \<open>Opening\<close>

lemma header_check:
  assumes "length v < 2 ^ 64"
  shows "VSS_VOLUME_HEADER_OFFSET + of_nat CATALOG_BLOCK_HEADER_LEN \<le> of_nat (length v) \<longleftrightarrow>
         0x1E00 + 128 \<le> length v"
  using assms by (simp add: vss_consts word_le_nat_alt unat_of_nat)

lemma open_volume_Ok:
  assumes "open_volume ops r = Ok vol"
  shows "stores vol = [] \<or>
     (\<exists>first r1 r2. walk_catalog ops first (total_size vol) r1 = (Ok (stores vol), r2))"
  using assms
  by (auto simp: open_volume_def open_volume_run_def and_then_def or_panic_def
      split: prod.splits outcome.splits if_splits option.splits)

lemma header_step:
  assumes vr: "volume_reader ops invar contents position" and r: "reads invar contents v r"
  shows "gives (reads invar contents v)
     (if VSS_VOLUME_HEADER_OFFSET + of_nat CATALOG_BLOCK_HEADER_LEN \<le> of_nat (length v) then
        and_then (from_io (seek_start ops VSS_VOLUME_HEADER_OFFSET r)) (\<lambda>_ r.
        and_then (from_io (read_exact ops CATALOG_BLOCK_HEADER_LEN r)) (\<lambda>hdr r.
        or_panic (VolumeHeader_parse hdr) r (\<lambda>vh.
        (Ok (has_vss_identifier vh, header_catalog_offset vh), r))))
      else (Ok (False, 0), r))
     (Ok (volume_has_header v, volume_catalog_offset v))"
proof (cases "0x1E00 + 128 \<le> length v")
  case True
  have "gives (reads invar contents v)
     (and_then (from_io (seek_start ops VSS_VOLUME_HEADER_OFFSET r)) (\<lambda>_ r.
      and_then (from_io (read_exact ops CATALOG_BLOCK_HEADER_LEN r)) (\<lambda>hdr r.
      or_panic (VolumeHeader_parse hdr) r (\<lambda>vh.
      (Ok (has_vss_identifier vh, header_catalog_offset vh), r)))))
     (Ok (volume_has_header v, volume_catalog_offset v))"
  proof (rule volume_reader.gives_seek_read_vss [OF vr r])
    show "unat VSS_VOLUME_HEADER_OFFSET + CATALOG_BLOCK_HEADER_LEN \<le> length v"
      using True by (simp add: vss_consts)
  next
    fix r assume "volume_reader.holds_at invar contents position v
        (unat VSS_VOLUME_HEADER_OFFSET + CATALOG_BLOCK_HEADER_LEN) r"
    then have "reads invar contents v r" by (rule volume_reader.holds_at_holds [OF vr])
    with True show "gives (reads invar contents v)
        (or_panic (VolumeHeader_parse
            (subslice v (unat VSS_VOLUME_HEADER_OFFSET) CATALOG_BLOCK_HEADER_LEN)) r
          (\<lambda>vh. (Ok (has_vss_identifier vh, header_catalog_offset vh), r)))
        (Ok (volume_has_header v, volume_catalog_offset v))"
      by (simp add: VolumeHeader_parse_ok vss_consts volume_has_header_def
          volume_catalog_offset_def header_of_def)
  qed
  then show ?thesis
    using True header_check [OF volume_reader.holds_fits [OF vr r]] by simp
next
  case False
  then show ?thesis
    using r header_check [OF volume_reader.holds_fits [OF vr r]]
    by (simp add: volume_has_header_def volume_catalog_offset_def header_of_def)
qed

lemma open_volume_over:
  assumes vr: "volume_reader ops invar contents position" and r: "reads invar contents v r"
  shows "\<exists>r'. reads invar contents v r' \<and>
     open_volume ops r = Ok
       \<lparr>reader = r', total_size = of_nat (length v), has_vss_header = volume_has_header v,
        catalog_offset = volume_catalog_offset v, stores = volume_stores v\<rparr>"
proof -
  obtain r1 where r1: "from_io (seek_end ops r) = (Ok (of_nat (length v)), r1)"
      "reads invar contents v r1"
    by (rule givesE [OF volume_reader.gives_from_io_seek_end [OF vr r]])
  note hdr = givesE [OF header_step [OF vr r1(2)]]
  obtain r2 where r2: "(if VSS_VOLUME_HEADER_OFFSET + of_nat CATALOG_BLOCK_HEADER_LEN \<le> of_nat (length v)
        then and_then (from_io (seek_start ops VSS_VOLUME_HEADER_OFFSET r1)) (\<lambda>_ r.
          and_then (from_io (read_exact ops CATALOG_BLOCK_HEADER_LEN r)) (\<lambda>hdr r.
          or_panic (VolumeHeader_parse hdr) r (\<lambda>vh.
          (Ok (has_vss_identifier vh, header_catalog_offset vh), r))))
        else (Ok (False, 0), r1)) = (Ok (volume_has_header v, volume_catalog_offset v), r2)"
      "reads invar contents v r2"
    by (rule hdr)
  have "gives (reads invar contents v)
      (if volume_has_header v \<and> volume_catalog_offset v \<noteq> 0
       then walk_catalog ops (volume_catalog_offset v) (of_nat (length v)) r2 else (Ok [], r2))
      (Ok (volume_stores v))"
    using walk_catalog_volume [OF vr r2(2)] r2(2) by (simp add: volume_stores_def)
  then obtain r3 where r3: "(if volume_has_header v \<and> volume_catalog_offset v \<noteq> 0
       then walk_catalog ops (volume_catalog_offset v) (of_nat (length v)) r2 else (Ok [], r2)) =
      (Ok (volume_stores v), r3)" "reads invar contents v r3"
    by (rule givesE)
  have "open_volume ops r = Ok
       \<lparr>reader = r3, total_size = of_nat (length v), has_vss_header = volume_has_header v,
        catalog_offset = volume_catalog_offset v, stores = volume_stores v\<rparr>"
    unfolding open_volume_def open_volume_run_def r1 and_then_simps r2 prod.case r3 by simp
  with r3(2) show ?thesis by blast
qed

lemma walk_catalog_not_panic: "read_seek ops \<Longrightarrow> fst (walk_catalog ops first vs r) \<noteq> Panic"
  unfolding walk_catalog_def by (rule catalog.walk_not_panic)

lemma walk_catalog_wf:
  assumes "read_seek ops" and "walk_catalog ops first vs r = (Ok ds, r')"
  shows "\<forall>d \<in> set ds. store_wf d"
proof (rule catalog.walk_invariant [OF assms(1) _ _ assms(2) [unfolded walk_catalog_def]])
  fix b ds assume "\<forall>d \<in> set ds. store_wf d"
  then show "\<forall>d \<in> set (apply_entries (block_entries b) ds). store_wf d"
    by (intro apply_entries_wf) (auto intro: valid_block_entries)
qed simp

lemma walk_catalog_length:
  assumes "read_seek ops" and "walk_catalog ops first vs r = (Ok ds, r')"
  shows "length ds \<le> 127 * MAX_CATALOG_BLOCKS"
  using catalog.walk_measure [OF assms(1) _ assms(2) [unfolded walk_catalog_def], of length 127]
    length_apply_entries [of "block_entries b" for b]
  by (fastforce simp: add.commute)

section \<open>Store information\<close>

lemma with_reader_fst: "fst (with_reader vol f) = fst (f (reader vol))"
  by (simp add: with_reader_def split: prod.split)

lemma with_reader_not_panic [panic_free]:
  "fst (f (reader vol)) \<noteq> Panic \<Longrightarrow> fst (with_reader vol f) \<noteq> Panic"
  by (simp add: with_reader_fst)

lemma with_reader_gives:
  assumes "\<And>r. Q r \<Longrightarrow> gives Q (f r) res" and "Q (reader vol)"
  shows "\<exists>r'. with_reader vol f = (res, vol\<lparr>reader := r'\<rparr>) \<and> Q r'"
  using assms(1) [OF assms(2)] by (auto simp: with_reader_def gives_def split: prod.split)

text \<open>What the store information of a volume is: at most 1 MiB, and never past the end.\<close>

definition store_info_len :: "bytes \<Rightarrow> nat \<Rightarrow> nat" where
  "store_info_len v h =
     min (min (unat (sbh_store_information_size (store_header_of (subslice v h 128)))) (2 ^ 20))
         (length v - (h + 128))"

definition store_info_spec ::
    "bytes \<Rightarrow> StoreDescriptor list \<Rightarrow> usize \<Rightarrow> (VssError, StoreInfo) outcome" where
  "store_info_spec v ds i =
     (if length ds \<le> i then Err (StoreIndexOutOfRange i (length ds))
      else case store_header_offset (ds ! i) of
        None \<Rightarrow> Err (StoreInfoUnavailable i)
      | Some h \<Rightarrow>
          if length v < unat h + 128 then Err (StoreOffsetOutOfBounds i h (of_nat (length v)))
          else Ok (store_info_of (subslice v (unat h + 128) (store_info_len v (unat h)))))"

lemma header_range:
  assumes "length v < 2 ^ 64" and "vs = of_nat (length v)"
  shows "(case checked_add h (of_nat STORE_BLOCK_HEADER_LEN) of
            Some e \<Rightarrow> if e \<le> vs then Some e else None | None \<Rightarrow> None) =
         (if unat h + 128 \<le> length v then Some (h + 128) else None)"
proof -
  have "unat (of_nat (length v) :: u64) = length v" using assms by (simp add: unat_of_nat)
  moreover have "unat h + 128 < 2 ^ 64 \<Longrightarrow> unat (h + 128) = unat h + 128"
    using unat_add_exact [of h 128] by simp
  ultimately show ?thesis
    using assms by (auto simp: checked_add_def vss_consts word_le_nat_alt)
qed

lemma store_info_over:
  assumes vr: "volume_reader ops invar contents position"
    and r: "reads invar contents v (reader vol)" and size: "total_size vol = of_nat (length v)"
  shows "\<exists>r'. store_info ops i vol = (store_info_spec v (stores vol) i, vol\<lparr>reader := r'\<rparr>) \<and>
              reads invar contents v r'"
proof (cases "i < length (stores vol) \<and> (\<exists>h. store_header_offset (stores vol ! i) = Some h \<and>
    unat h + 128 \<le> length v)")
  case False
  have "vol = vol\<lparr>reader := reader vol\<rparr>" by simp
  moreover have "store_info ops i vol = (store_info_spec v (stores vol) i, vol)"
  proof (cases "i < length (stores vol)")
    case i: True
    show ?thesis
    proof (cases "store_header_offset (stores vol ! i)")
      case None
      with i show ?thesis by (simp add: store_info_def store_info_spec_def vec_get_def)
    next
      case (Some h)
      with i False have "length v < unat h + 128" by auto
      with i Some header_range [OF volume_reader.holds_fits [OF vr r] size, of h] show ?thesis
        by (simp add: store_info_def store_info_spec_def vec_get_def size)
    qed
  qed (simp add: store_info_def store_info_spec_def vec_get_def)
  ultimately show ?thesis using r by metis
next
  case True
  then obtain h where i: "i < length (stores vol)" and h: "store_header_offset (stores vol ! i) = Some h"
    and hl: "unat h + 128 \<le> length v" by blast
  note fits = volume_reader.holds_fits [OF vr r]
  have he: "unat (h + 128) = unat h + 128"
    using unat_add_exact [of h 128] hl fits by simp
  have vl: "unat (of_nat (length v) :: u64) = length v"
    using fits by (simp add: unat_of_nat)
  let ?info = "store_info_of (subslice v (unat h + 128) (store_info_len v (unat h)))"
  have "gives (reads invar contents v)
     (and_then (from_io (seek_start ops h r0)) (\<lambda>_ r.
      and_then (from_io (read_exact ops STORE_BLOCK_HEADER_LEN r)) (\<lambda>hbuf r.
      or_panic (StoreBlockHeader_parse hbuf) r (\<lambda>header.
      let remaining = as_usize (saturating_sub (total_size vol) (h + 128));
          want = (case usize_try_from (sbh_store_information_size header) of
                    Some n \<Rightarrow> n | None \<Rightarrow> usize_max);
          info_len = min (min want MAX_STORE_INFO_LEN) remaining
      in
      and_then (from_io (read_exact ops info_len r)) (\<lambda>ibuf r.
      or_panic (StoreInfo_parse ibuf) r (\<lambda>info. (Ok info, r))))))) (Ok ?info)"
    if r0: "reads invar contents v r0" for r0
  proof (rule volume_reader.gives_seek_read_vss [OF vr r0])
    show "unat h + STORE_BLOCK_HEADER_LEN \<le> length v" using hl by (simp add: vss_consts)
  next
    fix r assume at: "volume_reader.holds_at invar contents position v (unat h + STORE_BLOCK_HEADER_LEN) r"
    let ?n = "store_info_len v (unat h)"
    have "gives (reads invar contents v)
        (and_then (from_io (read_exact ops ?n r)) (\<lambda>ibuf r.
         or_panic (StoreInfo_parse ibuf) r (\<lambda>info. (Ok info, r)))) (Ok ?info)"
      by (rule gives_then [OF volume_reader.gives_from_io_read_exact [OF vr at]])
        (use hl in \<open>auto simp: vss_consts store_info_len_def StoreInfo_parse_ok
          dest: volume_reader.holds_at_holds [OF vr]\<close>)
    then show "gives (reads invar contents v)
        (or_panic (StoreBlockHeader_parse (subslice v (unat h) STORE_BLOCK_HEADER_LEN)) r (\<lambda>header.
      let remaining = as_usize (saturating_sub (total_size vol) (h + 128));
          want = (case usize_try_from (sbh_store_information_size header) of
                    Some n \<Rightarrow> n | None \<Rightarrow> usize_max);
          info_len = min (min want MAX_STORE_INFO_LEN) remaining
      in
      and_then (from_io (read_exact ops info_len r)) (\<lambda>ibuf r.
      or_panic (StoreInfo_parse ibuf) r (\<lambda>info. (Ok info, r))))) (Ok ?info)"
      by (simp add: StoreBlockHeader_parse_ok Let_def as_usize_def unat_saturating_sub size vl he
          store_info_len_def vss_consts)
  qed
  from with_reader_gives [OF this r] show ?thesis
    using i h hl header_range [OF fits size]
    by (simp add: store_info_def store_info_spec_def vec_get_def size)
qed

lemma store_info_frame:
  "\<exists>r'. snd (store_info ops i vol) = vol\<lparr>reader := r'\<rparr>"
proof -
  have same: "\<exists>r'. vol = vol\<lparr>reader := r'\<rparr>" by (rule exI [of _ "reader vol"]) simp
  show ?thesis
    using same by (auto simp: store_info_def with_reader_def split: option.split prod.split)
qed

end
