(* ===== verification/Vss_Block.thy ===== *)
theory Vss_Block
  imports Vss_Codec
begin

unbundle bit_operations_syntax

text \<open>
  \<open>core/src/block.rs\<close>: the block descriptor with its flags and the store block range. The
  layouts \<open>encode_descriptor\<close> and \<open>encode_range\<close> are those of the format documentation; the
  interpretations show that the parsers invert them and ignore no byte.
\<close>

section \<open>Records and parsers\<close>

definition BLOCK_DESCRIPTOR_LEN :: usize where
  "BLOCK_DESCRIPTOR_LEN = 32"

definition STORE_BLOCK_RANGE_LEN :: usize where
  "STORE_BLOCK_RANGE_LEN = 24"

datatype BlockDescriptorFlags = BlockDescriptorFlags (bits: u32)

definition FORWARDER :: u32 where "FORWARDER = 0x01"
definition OVERLAY :: u32 where "OVERLAY = 0x02"
definition NOT_USED :: u32 where "NOT_USED = 0x04"

definition contains :: "BlockDescriptorFlags \<Rightarrow> u32 \<Rightarrow> bool" where
  "contains f flag \<longleftrightarrow> bits f AND flag \<noteq> 0"

definition is_forwarder :: "BlockDescriptorFlags \<Rightarrow> bool" where
  "is_forwarder f \<longleftrightarrow> contains f FORWARDER"

definition is_overlay :: "BlockDescriptorFlags \<Rightarrow> bool" where
  "is_overlay f \<longleftrightarrow> contains f OVERLAY"

definition is_not_used :: "BlockDescriptorFlags \<Rightarrow> bool" where
  "is_not_used f \<longleftrightarrow> contains f NOT_USED"

record BlockDescriptor =
  original_offset :: u64
  relative_store_offset :: u64
  store_offset :: u64
  flags :: BlockDescriptorFlags
  allocation_bitmap :: u32

definition BlockDescriptor_parse :: "bytes \<Rightarrow> BlockDescriptor option" where
  "BlockDescriptor_parse buf = do {
     original \<leftarrow> le_u64 buf 0;
     relative \<leftarrow> le_u64 buf 8;
     store \<leftarrow> le_u64 buf 16;
     f \<leftarrow> le_u32 buf 24;
     alloc \<leftarrow> le_u32 buf 28;
     Some \<lparr>original_offset = original, relative_store_offset = relative, store_offset = store,
           flags = BlockDescriptorFlags f, allocation_bitmap = alloc\<rparr>
   }"

record StoreBlockRange =
  range_store_offset :: u64
  range_relative_offset :: u64
  range_size :: u64

definition StoreBlockRange_parse :: "bytes \<Rightarrow> StoreBlockRange option" where
  "StoreBlockRange_parse buf = do {
     store \<leftarrow> le_u64 buf 0;
     relative \<leftarrow> le_u64 buf 8;
     sz \<leftarrow> le_u64 buf 16;
     Some \<lparr>range_store_offset = store, range_relative_offset = relative, range_size = sz\<rparr>
   }"

section \<open>The on-disk layouts\<close>

definition encode_descriptor :: "BlockDescriptor \<Rightarrow> bytes" where
  "encode_descriptor d =
     to_le_bytes 8 (original_offset d) @ to_le_bytes 8 (relative_store_offset d) @
     to_le_bytes 8 (store_offset d) @ to_le_bytes 4 (bits (flags d)) @
     to_le_bytes 4 (allocation_bitmap d)"

definition encode_range :: "StoreBlockRange \<Rightarrow> bytes" where
  "encode_range d =
     to_le_bytes 8 (range_store_offset d) @ to_le_bytes 8 (range_relative_offset d) @
     to_le_bytes 8 (range_size d)"

section \<open>Lemmas\<close>

lemma BLOCK_DESCRIPTOR_LEN_val [vss_consts]: "BLOCK_DESCRIPTOR_LEN = 32"
  by (simp add: BLOCK_DESCRIPTOR_LEN_def)

text \<open>The parsers cannot panic: every offset is a small constant.\<close>

lemma BlockDescriptor_parse_fields:
  "BlockDescriptor_parse buf = Some
     \<lparr>original_offset = from_le_bytes (field buf 0 8),
      relative_store_offset = from_le_bytes (field buf 8 8),
      store_offset = from_le_bytes (field buf 16 8),
      flags = BlockDescriptorFlags (from_le_bytes (field buf 24 4)),
      allocation_bitmap = from_le_bytes (field buf 28 4)\<rparr>"
  by (simp add: BlockDescriptor_parse_def no_panic usize_max_val)

lemma StoreBlockRange_parse_fields:
  "StoreBlockRange_parse buf = Some
     \<lparr>range_store_offset = from_le_bytes (field buf 0 8),
      range_relative_offset = from_le_bytes (field buf 8 8),
      range_size = from_le_bytes (field buf 16 8)\<rparr>"
  by (simp add: StoreBlockRange_parse_def no_panic usize_max_val)

definition descriptor_of :: "bytes \<Rightarrow> BlockDescriptor" where
  "descriptor_of buf = the (BlockDescriptor_parse buf)"

lemma BlockDescriptor_parse_ok [no_panic]: "BlockDescriptor_parse buf = Some (descriptor_of buf)"
  by (simp add: descriptor_of_def BlockDescriptor_parse_fields)

lemma length_encode_descriptor [simp]: "length (encode_descriptor d) = 32"
  by (simp add: encode_descriptor_def)

interpretation descriptor: exact_codec BlockDescriptor_parse encode_descriptor 32 "\<lambda>_. True"
proof (unfold_locales, goal_cases)
  case (2 x rest)
  then show ?case
    by (simp add: BlockDescriptor_parse_fields encode_descriptor_def field_append field_of_le_bytes)
next
  case (3 b)
  have "b = field b 0 8 @ field b 8 8 @ field b 16 8 @ field b 24 4 @ field b 28 4"
    using 3 field_split [of b 0 8 24] field_split [of b 8 8 16] field_split [of b 16 8 8]
      field_split [of b 24 4 4] field_last [of b 28 4] by simp
  then show ?case
    by (simp add: BlockDescriptor_parse_fields encode_descriptor_def le_bytes_of_field)
qed simp

interpretation range: exact_codec StoreBlockRange_parse encode_range 24 "\<lambda>_. True"
proof (unfold_locales, goal_cases)
  case (2 x rest)
  then show ?case
    by (simp add: StoreBlockRange_parse_fields encode_range_def field_append field_of_le_bytes)
next
  case (3 b)
  have "b = field b 0 8 @ field b 8 8 @ field b 16 8"
    using 3 field_split [of b 0 8 16] field_split [of b 8 8 8] field_last [of b 16 8] by simp
  then show ?case
    by (simp add: StoreBlockRange_parse_fields encode_range_def le_bytes_of_field)
qed (simp add: encode_range_def)

text \<open>The three flag tests are the three low bits; a plain descriptor has none of them.\<close>

lemma flag_bits:
  "is_forwarder f \<longleftrightarrow> bit (bits f) 0" "is_overlay f \<longleftrightarrow> bit (bits f) 1" "is_not_used f \<longleftrightarrow> bit (bits f) 2"
  by (simp_all add: is_forwarder_def is_overlay_def is_not_used_def contains_def
      FORWARDER_def OVERLAY_def NOT_USED_def bit_iff_and_push_bit_not_eq_0 push_bit_eq_mult)

end
