(* ===== verification/Vss_Reconstruct.thy ===== *)
theory Vss_Reconstruct
  imports Vss_Volume Vss_Block
begin

unbundle bit_operations_syntax

text \<open>
  \<open>core/src/reconstruct.rs\<close>: the copy-on-write reconstruction of a snapshot. The block map and
  the bitmap are built by two chain walks (\<open>build_block_map\<close>, \<open>build_bitmap\<close>); \<open>read_block\<close> and
  \<open>read_at\<close> overlay them on the live volume. A \<open>BTreeMap\<close> is a map, its \<open>HashSet\<close> of visited
  offsets a set; a buffer the code fills is the new value of that buffer in the result.
\<close>

section \<open>State\<close>

definition DIFF_AREA_RECORD_TYPE :: u32 where
  "DIFF_AREA_RECORD_TYPE = 0x0003"

definition BITMAP_RECORD_TYPE :: u32 where
  "BITMAP_RECORD_TYPE = 0x0006"

definition SUB_BLOCK_COUNT :: usize where
  "SUB_BLOCK_COUNT = 32"

definition SUB_BLOCK_SIZE :: usize where
  "SUB_BLOCK_SIZE = BLOCK_SIZE div SUB_BLOCK_COUNT"

definition MAX_STORE_BLOCKS :: usize where
  "MAX_STORE_BLOCKS = 2 ^ 20"

record SnapshotState =
  snapshot_volume_size :: u64
  block_map :: "u64 \<rightharpoonup> BlockDescriptor list"
  bitmap :: bytes

record 'r Snapshot =
  snapshot_reader :: 'r
  state :: SnapshotState

section \<open>The two chain walks\<close>

text \<open>\<open>map.entry(d.original_offset).or_default().push(d)\<close>.\<close>

definition push_descriptor ::
    "BlockDescriptor \<Rightarrow> (u64 \<rightharpoonup> BlockDescriptor list) \<Rightarrow> (u64 \<rightharpoonup> BlockDescriptor list)" where
  "push_descriptor d m =
     m(original_offset d \<mapsto>
         (case m (original_offset d) of None \<Rightarrow> [] | Some ds \<Rightarrow> ds) @ [d])"

function walk_descriptors ::
    "bytes \<Rightarrow> usize \<Rightarrow> (u64 \<rightharpoonup> BlockDescriptor list) \<Rightarrow> (u64 \<rightharpoonup> BlockDescriptor list) option" where
  "walk_descriptors block off m = do {
     e \<leftarrow> usize_add off BLOCK_DESCRIPTOR_LEN;
     (if e \<le> BLOCK_SIZE then do {
        record \<leftarrow> slice_get block off e;
        (if list_all (\<lambda>x. x = 0) record then Some m
         else do {
           d \<leftarrow> BlockDescriptor_parse record;
           off' \<leftarrow> usize_add off BLOCK_DESCRIPTOR_LEN;
           walk_descriptors block off' (push_descriptor d m)
         })
      }
      else Some m)
   }"
  by pat_completeness auto
termination
  by (relation "measure (\<lambda>(_, off, _). BLOCK_SIZE - off)") (auto simp: usize_add_Some vss_consts)

function build_block_map_loop ::
    "'r read_seek_ops \<Rightarrow> u64 \<Rightarrow> (u64 \<rightharpoonup> BlockDescriptor list) \<Rightarrow> u64 set \<Rightarrow> u64 \<Rightarrow> usize \<Rightarrow> 'r \<Rightarrow>
     (VssError, u64 \<rightharpoonup> BlockDescriptor list) outcome \<times> 'r" where
  "build_block_map_loop ops vs m visited next blocks r =
     (if next \<noteq> 0 \<and> blocks < MAX_STORE_BLOCKS then
        if next \<in> visited then (Ok m, r)
        else (case checked_add next (of_nat BLOCK_SIZE) of
                None \<Rightarrow> (Ok m, r)
              | Some e \<Rightarrow>
                  if e \<le> vs then
                    and_then (from_io (seek_start ops next r)) (\<lambda>_ r.
                    and_then (from_io (read_exact ops BLOCK_SIZE r)) (\<lambda>block r.
                    or_panic (StoreBlockHeader_parse block) r (\<lambda>header.
                    if sbh_record_type header \<noteq> DIFF_AREA_RECORD_TYPE then (Ok m, r)
                    else
                      or_panic (walk_descriptors block STORE_BLOCK_HEADER_LEN m) r (\<lambda>m'.
                      or_panic (usize_add blocks 1) r (\<lambda>blocks'.
                      build_block_map_loop ops vs m' (insert next visited)
                        (sbh_next_offset header) blocks' r)))))
                  else (Ok m, r))
      else (Ok m, r))"
  by pat_completeness auto
termination
  by (relation "measure (\<lambda>(_, _, _, _, _, blocks, _). MAX_STORE_BLOCKS - blocks)")
    (auto simp: usize_add_Some)

definition build_block_map ::
    "'r read_seek_ops \<Rightarrow> u64 \<Rightarrow> u64 \<Rightarrow> 'r \<Rightarrow> (VssError, u64 \<rightharpoonup> BlockDescriptor list) outcome \<times> 'r" where
  "build_block_map ops first vs r = build_block_map_loop ops vs Map.empty {} first 0 r"

function build_bitmap_loop ::
    "'r read_seek_ops \<Rightarrow> u64 \<Rightarrow> (u64 \<times> bytes) list \<Rightarrow> u64 set \<Rightarrow> u64 \<Rightarrow> usize \<Rightarrow> 'r \<Rightarrow>
     (VssError, (u64 \<times> bytes) list) outcome \<times> 'r" where
  "build_bitmap_loop ops vs pieces visited next blocks r =
     (if next \<noteq> 0 \<and> blocks < MAX_STORE_BLOCKS then
        if next \<in> visited then (Ok pieces, r)
        else (case checked_add next (of_nat BLOCK_SIZE) of
                None \<Rightarrow> (Ok pieces, r)
              | Some e \<Rightarrow>
                  if e \<le> vs then
                    and_then (from_io (seek_start ops next r)) (\<lambda>_ r.
                    and_then (from_io (read_exact ops BLOCK_SIZE r)) (\<lambda>block r.
                    or_panic (StoreBlockHeader_parse block) r (\<lambda>header.
                    if sbh_record_type header \<noteq> BITMAP_RECORD_TYPE then (Ok pieces, r)
                    else
                      or_panic (slice_get block STORE_BLOCK_HEADER_LEN BLOCK_SIZE) r (\<lambda>payload.
                      or_panic (usize_add blocks 1) r (\<lambda>blocks'.
                      build_bitmap_loop ops vs (pieces @ [(sbh_relative_offset header, payload)])
                        (insert next visited) (sbh_next_offset header) blocks' r)))))
                  else (Ok pieces, r))
      else (Ok pieces, r))"
  by pat_completeness auto
termination
  by (relation "measure (\<lambda>(_, _, _, _, _, blocks, _). MAX_STORE_BLOCKS - blocks)")
    (auto simp: usize_add_Some)

declare walk_descriptors.simps [simp del] build_block_map_loop.simps [simp del]
  build_bitmap_loop.simps [simp del]

text \<open>\<open>Vec::with_capacity\<close> panics above \<open>isize::MAX\<close> bytes; \<open>sort_by_key\<close> is stable.\<close>

definition vec_with_capacity :: "usize \<Rightarrow> bytes option" where
  "vec_with_capacity n = (if n \<le> isize_max then Some [] else None)"

definition build_bitmap ::
    "'r read_seek_ops \<Rightarrow> u64 \<Rightarrow> u64 \<Rightarrow> 'r \<Rightarrow> (VssError, bytes) outcome \<times> 'r" where
  "build_bitmap ops first vs r =
     and_then (build_bitmap_loop ops vs [] {} first 0 r) (\<lambda>pieces r.
     let pieces = sort_key fst pieces in
     or_panic (vec_with_capacity
         (usize_saturating_mul (length pieces) (BLOCK_SIZE - STORE_BLOCK_HEADER_LEN))) r (\<lambda>empty.
     (Ok (foldl (\<lambda>bm piece. bm @ snd piece) empty pieces), r)))"

definition snapshot_state ::
    "'r read_seek_ops \<Rightarrow> usize \<Rightarrow> 'r VssVolume \<Rightarrow>
     (VssError, SnapshotState) outcome \<times> 'r VssVolume" where
  "snapshot_state ops i vol =
     (case vec_get (stores vol) i of
        None \<Rightarrow> (Err (StoreIndexOutOfRange i (length (stores vol))), vol)
      | Some d \<Rightarrow>
     (case store_header_offset d of
        None \<Rightarrow> (Err (StoreInfoUnavailable i), vol)
      | Some header \<Rightarrow>
     (case store_bitmap_offset d of
        None \<Rightarrow> (Err (StoreInfoUnavailable i), vol)
      | Some bm \<Rightarrow>
          with_reader vol (\<lambda>r.
          let diff_start = saturating_add header (of_nat BLOCK_SIZE) in
          and_then (build_block_map ops diff_start (total_size vol) r) (\<lambda>m r.
          and_then (build_bitmap ops bm (total_size vol) r) (\<lambda>b r.
          (Ok \<lparr>snapshot_volume_size = total_size vol, block_map = m, bitmap = b\<rparr>, r)))))))"

section \<open>Reading\<close>

definition is_unallocated :: "SnapshotState \<Rightarrow> u64 \<Rightarrow> bool" where
  "is_unallocated st block_number =
     (let byte = block_number div 8;
          b = block_number mod 8
      in case usize_try_from byte of
           None \<Rightarrow> False
         | Some i \<Rightarrow>
             (case vec_get (bitmap st) i of
                None \<Rightarrow> False
              | Some x \<Rightarrow> x AND push_bit (unat b) 1 \<noteq> 0))"

text \<open>The new content of the block buffer \<open>out\<close> and whether the block was in range; on both
  paths the buffer is overwritten in full.\<close>

definition read_block_at ::
    "'r read_seek_ops \<Rightarrow> u64 \<Rightarrow> u64 \<Rightarrow> 'r \<Rightarrow> (io_error, bool \<times> bytes) outcome \<times> 'r" where
  "read_block_at ops off vs r =
     (case (case checked_add off (of_nat BLOCK_SIZE) of
              Some e \<Rightarrow> if e \<le> vs then Some e else None
            | None \<Rightarrow> None) of
        Some _ \<Rightarrow>
          and_then (lift_io (seek_start ops off r)) (\<lambda>_ r.
          and_then (lift_io (read_exact ops BLOCK_SIZE r)) (\<lambda>out r.
          (Ok (True, out), r)))
      | None \<Rightarrow> (Ok (False, replicate BLOCK_SIZE 0), r))"

fun overlay_sub_blocks :: "usize list \<Rightarrow> bytes \<Rightarrow> bytes \<Rightarrow> u32 \<Rightarrow> bytes option" where
  "overlay_sub_blocks [] out overlay bm = Some out"
| "overlay_sub_blocks (i # is) out overlay bm =
     (if bm AND push_bit i 1 \<noteq> 0 then do {
        start \<leftarrow> usize_mul i SUB_BLOCK_SIZE;
        e \<leftarrow> usize_add start SUB_BLOCK_SIZE;
        src \<leftarrow> slice_get overlay start e;
        out' \<leftarrow> copy_into out start e src;
        overlay_sub_blocks is out' overlay bm
      }
      else overlay_sub_blocks is out overlay bm)"

definition apply_overlay :: "bytes \<Rightarrow> bytes \<Rightarrow> u32 \<Rightarrow> bytes option" where
  "apply_overlay out overlay bm = overlay_sub_blocks [0..<SUB_BLOCK_COUNT] out overlay bm"

text \<open>The predicates of \<open>read_block\<close> on descriptors.\<close>

definition is_plain :: "BlockDescriptor \<Rightarrow> bool" where
  "is_plain d \<longleftrightarrow> \<not> is_forwarder (flags d) \<and> \<not> is_overlay (flags d) \<and> \<not> is_not_used (flags d)"

definition is_patch :: "BlockDescriptor \<Rightarrow> bool" where
  "is_patch d \<longleftrightarrow> is_overlay (flags d) \<and> \<not> is_not_used (flags d)"

fun apply_overlays ::
    "'r read_seek_ops \<Rightarrow> u64 \<Rightarrow> BlockDescriptor list \<Rightarrow> bytes \<Rightarrow> 'r \<Rightarrow>
     (io_error, bytes) outcome \<times> 'r" where
  "apply_overlays ops vs [] out r = (Ok out, r)"
| "apply_overlays ops vs (d # ds) out r =
     and_then (read_block_at ops (store_offset d) vs r) (\<lambda>res r.
     if fst res then
       or_panic (apply_overlay out (snd res) (allocation_bitmap d)) r (\<lambda>out'.
       apply_overlays ops vs ds out' r)
     else apply_overlays ops vs ds out r)"

definition read_block ::
    "'r read_seek_ops \<Rightarrow> SnapshotState \<Rightarrow> u64 \<Rightarrow> 'r \<Rightarrow> (io_error, bytes) outcome \<times> 'r" where
  "read_block ops st off r =
     (let block_number = off div of_nat BLOCK_SIZE;
          base = saturating_mul block_number (of_nat BLOCK_SIZE);
          out = replicate BLOCK_SIZE 0
      in case (case block_map st base of
                 Some ds \<Rightarrow> if ds \<noteq> [] then Some ds else None
               | None \<Rightarrow> None) of
           Some ds \<Rightarrow>
             (let last_plain = find is_plain (rev ds);
                  base_source = (case last_plain of None \<Rightarrow> base | Some d \<Rightarrow> store_offset d)
              in
              and_then (read_block_at ops base_source (snapshot_volume_size st) r) (\<lambda>res r.
              apply_overlays ops (snapshot_volume_size st) (filter is_patch ds) (snd res) r))
         | None \<Rightarrow>
             if is_unallocated st block_number then (Ok out, r)
             else
               and_then (read_block_at ops base (snapshot_volume_size st) r) (\<lambda>res r.
               (Ok (snd res), r)))"

text \<open>The position inside its block of a cursor: below the block size, so the loop of \<open>read_at\<close>
  advances.\<close>

lemma unat_block_size: "unat (of_nat BLOCK_SIZE :: u64) = BLOCK_SIZE"
  by (simp add: vss_consts)

lemma unat_block_base:
  "unat (saturating_mul (c div of_nat BLOCK_SIZE) (of_nat BLOCK_SIZE)) = unat c div BLOCK_SIZE * BLOCK_SIZE"
proof -
  have le: "unat c div BLOCK_SIZE * BLOCK_SIZE \<le> unat c" by simp
  then have lt: "unat c div BLOCK_SIZE * BLOCK_SIZE < 2 ^ 64"
    by (rule le_less_trans) simp
  have "unat (c div of_nat BLOCK_SIZE) = unat c div BLOCK_SIZE"
    by (simp add: unat_div unat_block_size)
  then show ?thesis
    using lt by (simp add: saturating_mul_def unat_block_size unat_word_ariths)
qed

lemma unat_within:
  "u64_sub c (saturating_mul (c div of_nat BLOCK_SIZE) (of_nat BLOCK_SIZE)) = Some w \<Longrightarrow>
   unat w = unat c mod BLOCK_SIZE"
  using unat_block_base [of c] minus_div_mult_eq_mod [of "unat c" BLOCK_SIZE]
  by (auto simp: u64_sub_def unat_sub split: if_splits)

lemma within_exists:
  "\<exists>w. u64_sub c (saturating_mul (c div of_nat BLOCK_SIZE) (of_nat BLOCK_SIZE)) = Some w"
  using unat_block_base [of c] by (simp add: u64_sub_def word_le_nat_alt)

function read_at_loop ::
    "'r read_seek_ops \<Rightarrow> SnapshotState \<Rightarrow> usize \<Rightarrow> u64 \<Rightarrow> bytes \<Rightarrow> 'r \<Rightarrow>
     (io_error, unit) outcome \<times> (bytes \<times> 'r)" where
  "read_at_loop ops st written cursor buf r =
     (if written < length buf then
        (let base = saturating_mul (cursor div of_nat BLOCK_SIZE) (of_nat BLOCK_SIZE) in
         or_panic (u64_sub cursor base) (buf, r) (\<lambda>w.
         let within = as_usize w in
         and_then (apsnd (Pair buf) (read_block ops st base r)) (\<lambda>block s.
         or_panic (usize_sub BLOCK_SIZE within) s (\<lambda>avail.
         or_panic (usize_sub (length buf) written) s (\<lambda>rest.
         let n = min avail rest in
         or_panic (usize_add written n) s (\<lambda>written'.
         or_panic (usize_add within n) s (\<lambda>within'.
         or_panic (slice_get block within within') s (\<lambda>src.
         or_panic (copy_into buf written written' src) s (\<lambda>buf'.
         read_at_loop ops st written' (saturating_add cursor (of_nat n)) buf' (snd s))))))))))
      else (Ok (), (buf, r)))"
  by pat_completeness auto
termination
proof (relation "measure (\<lambda>(_, _, written, _, buf, _). length buf - written)", goal_cases)
  case (2 ops st written cursor buf r base w within block s avail rest n written' within' src buf')
  have "within < BLOCK_SIZE"
    using 2(2,3,4) unat_within [of cursor w] by (simp add: as_usize_def vss_consts)
  then have "0 < n" and "written' = written + n"
    using 2 by (auto simp: usize_sub_Some usize_add_Some)
  moreover have "length buf' = length buf"
    using 2 by (blast dest: copy_into_length)
  moreover have "written < length buf" using 2 by blast
  ultimately show ?case by simp
qed simp

declare read_at_loop.simps [simp del]

definition read_at ::
    "'r read_seek_ops \<Rightarrow> SnapshotState \<Rightarrow> u64 \<Rightarrow> bytes \<Rightarrow> 'r \<Rightarrow>
     (io_error, unit) outcome \<times> (bytes \<times> 'r)" where
  "read_at ops st off buf r = read_at_loop ops st 0 off buf r"

text \<open>The public operations: a snapshot borrows the volume's reader.\<close>

definition snapshot ::
    "'r read_seek_ops \<Rightarrow> usize \<Rightarrow> 'r VssVolume \<Rightarrow> (VssError, 'r Snapshot) outcome \<times> 'r VssVolume" where
  "snapshot ops i vol =
     and_then (snapshot_state ops i vol) (\<lambda>st vol.
     (Ok \<lparr>snapshot_reader = reader vol, state = st\<rparr>, vol))"

definition Snapshot_read_block ::
    "'r read_seek_ops \<Rightarrow> u64 \<Rightarrow> 'r Snapshot \<Rightarrow> (VssError, bytes) outcome \<times> 'r Snapshot" where
  "Snapshot_read_block ops off s =
     (case map_err Io (read_block ops (state s) off (snapshot_reader s)) of
        (res, r) \<Rightarrow> (res, s\<lparr>snapshot_reader := r\<rparr>))"

definition Snapshot_read_at ::
    "'r read_seek_ops \<Rightarrow> u64 \<Rightarrow> bytes \<Rightarrow> 'r Snapshot \<Rightarrow>
     (VssError, unit) outcome \<times> (bytes \<times> 'r Snapshot)" where
  "Snapshot_read_at ops off buf s =
     (case map_err Io (read_at ops (state s) off buf (snapshot_reader s)) of
        (res, (buf', r)) \<Rightarrow> (res, (buf', s\<lparr>snapshot_reader := r\<rparr>)))"

end
