(* ===== verification/Vss_Reconstruct_Spec.thy ===== *)
theory Vss_Reconstruct_Spec
  imports Vss_Reconstruct
begin

unbundle bit_operations_syntax

text \<open>
  The specification of the reconstruction and the lemmas that \<open>Vss_Reconstruct\<close> implements it:
  the block map groups the descriptors of the diff-area chain by the block they replace, the
  bitmap concatenates the payloads of the bitmap chain in the order of their offsets, and
  \<open>snapshot_byte\<close> gives the byte of the snapshot at each position.
\<close>

section \<open>The diff area\<close>

definition records_per_block :: nat where
  "records_per_block = (BLOCK_SIZE - STORE_BLOCK_HEADER_LEN) div BLOCK_DESCRIPTOR_LEN"

definition record_at :: "bytes \<Rightarrow> nat \<Rightarrow> bytes" where
  "record_at b i = subslice b (STORE_BLOCK_HEADER_LEN + i * BLOCK_DESCRIPTOR_LEN) BLOCK_DESCRIPTOR_LEN"

definition zero_record :: "bytes \<Rightarrow> bool" where
  "zero_record = list_all (\<lambda>x. x = 0)"

text \<open>The descriptors of a block: its records up to the first one that is all zeros.\<close>

definition block_descriptors :: "bytes \<Rightarrow> BlockDescriptor list" where
  "block_descriptors b =
     map descriptor_of (takeWhile (\<lambda>x. \<not> zero_record x) (map (record_at b) [0..<records_per_block]))"

definition accept_diff :: "bytes \<Rightarrow> bool" where
  "accept_diff b \<longleftrightarrow> sbh_record_type (store_header_of b) = DIFF_AREA_RECORD_TYPE"

definition accept_bitmap :: "bytes \<Rightarrow> bool" where
  "accept_bitmap b \<longleftrightarrow> sbh_record_type (store_header_of b) = BITMAP_RECORD_TYPE"

definition next_store_block :: "bytes \<Rightarrow> u64" where
  "next_store_block b = sbh_next_offset (store_header_of b)"

definition diff_descriptors :: "bytes \<Rightarrow> u64 \<Rightarrow> BlockDescriptor list" where
  "diff_descriptors v first = concat (map (\<lambda>off. block_descriptors (block_at v off))
     (chain accept_diff next_store_block v MAX_STORE_BLOCKS {} first))"

text \<open>The descriptors of each block of the volume, in the order of the list.\<close>

definition group :: "BlockDescriptor list \<Rightarrow> (u64 \<rightharpoonup> BlockDescriptor list)" where
  "group ds k = (case filter (\<lambda>d. original_offset d = k) ds of [] \<Rightarrow> None | xs \<Rightarrow> Some xs)"

lemma reconstruct_consts [vss_consts]:
  "DIFF_AREA_RECORD_TYPE = 3" "BITMAP_RECORD_TYPE = 6" "SUB_BLOCK_COUNT = 32"
  "SUB_BLOCK_SIZE = 512" "MAX_STORE_BLOCKS = 1048576"
  by (simp_all add: DIFF_AREA_RECORD_TYPE_def BITMAP_RECORD_TYPE_def SUB_BLOCK_COUNT_def
      SUB_BLOCK_SIZE_def BLOCK_SIZE_def MAX_STORE_BLOCKS_def)

lemma walk_descriptors_from:
  assumes "length block = BLOCK_SIZE"
  shows "i \<le> records_per_block \<Longrightarrow>
    walk_descriptors block (STORE_BLOCK_HEADER_LEN + i * BLOCK_DESCRIPTOR_LEN) m =
      Some (fold push_descriptor (map descriptor_of
        (takeWhile (\<lambda>x. \<not> zero_record x) (map (record_at block) [i..<records_per_block]))) m)"
proof (induction "records_per_block - i" arbitrary: i m)
  case 0
  then have "i = records_per_block" by simp
  then show ?case
    by (subst walk_descriptors.simps)
      (simp add: records_per_block_def vss_consts usize_add_def usize_max_val)
next
  case (Suc k)
  then have i: "i < records_per_block" by simp
  let ?off = "STORE_BLOCK_HEADER_LEN + i * BLOCK_DESCRIPTOR_LEN"
  have off: "?off + BLOCK_DESCRIPTOR_LEN = STORE_BLOCK_HEADER_LEN + Suc i * BLOCK_DESCRIPTOR_LEN"
    by simp
  have le: "?off + BLOCK_DESCRIPTOR_LEN \<le> BLOCK_SIZE"
    using i by (simp add: records_per_block_def vss_consts)
  then have add: "usize_add ?off BLOCK_DESCRIPTOR_LEN = Some (?off + BLOCK_DESCRIPTOR_LEN)"
    by (simp add: usize_add_def usize_max_val vss_consts)
  have step: "walk_descriptors block ?off m =
      (if zero_record (record_at block i) then Some m
       else walk_descriptors block (STORE_BLOCK_HEADER_LEN + Suc i * BLOCK_DESCRIPTOR_LEN)
              (push_descriptor (descriptor_of (record_at block i)) m))"
    using le assms
    by (subst walk_descriptors.simps)
      (simp add: add slice_get_ok BlockDescriptor_parse_ok record_at_def zero_record_def off)
  have rec: "walk_descriptors block (STORE_BLOCK_HEADER_LEN + Suc i * BLOCK_DESCRIPTOR_LEN) m' =
      Some (fold push_descriptor (map descriptor_of
        (takeWhile (\<lambda>x. \<not> zero_record x) (map (record_at block) [Suc i..<records_per_block]))) m')" for m'
    by (rule Suc.hyps(1)) (use Suc.hyps(2) i in auto)
  show ?case
    unfolding step rec using i by (simp add: upt_conv_Cons)
qed

lemma walk_descriptors_ok [no_panic]:
  "length block = BLOCK_SIZE \<Longrightarrow>
   walk_descriptors block STORE_BLOCK_HEADER_LEN m = Some (fold push_descriptor (block_descriptors block) m)"
  using walk_descriptors_from [of block 0] by (simp add: block_descriptors_def)

definition diff_step ::
    "bytes \<Rightarrow> (u64 \<rightharpoonup> BlockDescriptor list) \<Rightarrow> ((u64 \<rightharpoonup> BlockDescriptor list) \<times> u64) option option" where
  "diff_step block m = do {
     header \<leftarrow> StoreBlockHeader_parse block;
     (if sbh_record_type header \<noteq> DIFF_AREA_RECORD_TYPE then Some None
      else do {
        m' \<leftarrow> walk_descriptors block STORE_BLOCK_HEADER_LEN m;
        Some (Some (m', sbh_next_offset header))
      })
   }"

lemma next_blocks: "blocks < MAX_STORE_BLOCKS \<Longrightarrow> usize_add blocks 1 = Some (Suc blocks)"
  by (simp add: usize_add_def usize_max_val vss_consts)

interpretation diff: chain_walk
  build_block_map_loop MAX_STORE_BLOCKS diff_step accept_diff next_store_block
  "\<lambda>b. fold push_descriptor (block_descriptors b)"
proof (unfold_locales, goal_cases)
  case (1 ops vs st visited "next" blocks r)
  have body: "or_panic (StoreBlockHeader_parse block) r (\<lambda>header.
      if sbh_record_type header \<noteq> DIFF_AREA_RECORD_TYPE then (Ok st, r)
      else or_panic (walk_descriptors block STORE_BLOCK_HEADER_LEN st) r (\<lambda>m'.
           or_panic (usize_add blocks 1) r (\<lambda>blocks'.
           build_block_map_loop ops vs m' (insert next visited) (sbh_next_offset header) blocks' r))) =
      or_panic (diff_step block st) r (\<lambda>res. case res of
           None \<Rightarrow> (Ok st, r)
         | Some (st', next') \<Rightarrow>
             build_block_map_loop ops vs st' (insert next visited) next' (Suc blocks) r)"
    if "blocks < MAX_STORE_BLOCKS" for block r
    using next_blocks [OF that]
    by (cases "StoreBlockHeader_parse block"; cases "walk_descriptors block STORE_BLOCK_HEADER_LEN st")
      (simp_all add: diff_step_def)
  show ?case
  proof (cases "blocks < MAX_STORE_BLOCKS")
    case True
    show ?thesis by (subst build_block_map_loop.simps) (simp only: body [OF True])
  next
    case False
    then show ?thesis by (subst build_block_map_loop.simps) simp
  qed
next
  case (2 b st)
  then show ?case
    by (simp add: diff_step_def StoreBlockHeader_parse_ok walk_descriptors_ok accept_diff_def
        next_store_block_def)
qed

lemma push_group: "push_descriptor d (group ds) = group (ds @ [d])"
  by (rule ext) (auto simp: push_descriptor_def group_def split: list.split)

lemma fold_push_group: "fold push_descriptor ds (group ds') = group (ds' @ ds)"
  by (induction ds arbitrary: ds') (simp_all add: push_group)

lemma foldl_push_group:
  "foldl (\<lambda>m off. fold push_descriptor (g off) m) (group ds) offs = group (ds @ concat (map g offs))"
  by (induction offs arbitrary: ds) (simp_all add: fold_push_group)

lemma group_empty: "group [] = Map.empty"
  by (rule ext) (simp add: group_def)

lemma build_block_map_volume:
  assumes "volume_reader ops invar contents position" and "reads invar contents v r"
  shows "gives (reads invar contents v) (build_block_map ops first (of_nat (length v)) r)
           (Ok (group (diff_descriptors v first)))"
  using diff.walk_chain [OF assms, of Map.empty "{}" first 0]
    foldl_push_group [of "\<lambda>off. block_descriptors (block_at v off)" "[]"]
  by (simp add: build_block_map_def diff_descriptors_def group_empty)

section \<open>The store bitmap\<close>

definition bitmap_piece :: "bytes \<Rightarrow> u64 \<times> bytes" where
  "bitmap_piece b =
     (sbh_relative_offset (store_header_of b),
      subslice b STORE_BLOCK_HEADER_LEN (BLOCK_SIZE - STORE_BLOCK_HEADER_LEN))"

definition bitmap_pieces :: "bytes \<Rightarrow> u64 \<Rightarrow> (u64 \<times> bytes) list" where
  "bitmap_pieces v first = map (\<lambda>off. bitmap_piece (block_at v off))
     (chain accept_bitmap next_store_block v MAX_STORE_BLOCKS {} first)"

definition store_bitmap :: "bytes \<Rightarrow> u64 \<Rightarrow> bytes" where
  "store_bitmap v first = concat (map snd (sort_key fst (bitmap_pieces v first)))"

definition bitmap_step ::
    "bytes \<Rightarrow> (u64 \<times> bytes) list \<Rightarrow> ((u64 \<times> bytes) list \<times> u64) option option" where
  "bitmap_step block pieces = do {
     header \<leftarrow> StoreBlockHeader_parse block;
     (if sbh_record_type header \<noteq> BITMAP_RECORD_TYPE then Some None
      else do {
        payload \<leftarrow> slice_get block STORE_BLOCK_HEADER_LEN BLOCK_SIZE;
        Some (Some (pieces @ [(sbh_relative_offset header, payload)], sbh_next_offset header))
      })
   }"

interpretation bitmap_walk: chain_walk
  build_bitmap_loop MAX_STORE_BLOCKS bitmap_step accept_bitmap next_store_block
  "\<lambda>b pieces. pieces @ [bitmap_piece b]"
proof (unfold_locales, goal_cases)
  case (1 ops vs st visited "next" blocks r)
  have body: "or_panic (StoreBlockHeader_parse block) r (\<lambda>header.
      if sbh_record_type header \<noteq> BITMAP_RECORD_TYPE then (Ok st, r)
      else or_panic (slice_get block STORE_BLOCK_HEADER_LEN BLOCK_SIZE) r (\<lambda>payload.
           or_panic (usize_add blocks 1) r (\<lambda>blocks'.
           build_bitmap_loop ops vs (st @ [(sbh_relative_offset header, payload)])
             (insert next visited) (sbh_next_offset header) blocks' r))) =
      or_panic (bitmap_step block st) r (\<lambda>res. case res of
           None \<Rightarrow> (Ok st, r)
         | Some (st', next') \<Rightarrow>
             build_bitmap_loop ops vs st' (insert next visited) next' (Suc blocks) r)"
    if "blocks < MAX_STORE_BLOCKS" for block r
    using next_blocks [OF that]
    by (cases "StoreBlockHeader_parse block"; cases "slice_get block STORE_BLOCK_HEADER_LEN BLOCK_SIZE")
      (simp_all add: bitmap_step_def)
  show ?case
  proof (cases "blocks < MAX_STORE_BLOCKS")
    case True
    show ?thesis by (subst build_bitmap_loop.simps) (simp only: body [OF True])
  next
    case False
    then show ?thesis by (subst build_bitmap_loop.simps) simp
  qed
next
  case (2 b st)
  then show ?case
    by (simp add: bitmap_step_def StoreBlockHeader_parse_ok slice_get_ok accept_bitmap_def
        next_store_block_def bitmap_piece_def vss_consts)
qed

lemma foldl_append_piece: "foldl (\<lambda>ps off. ps @ [g off]) ps offs = ps @ map g offs"
  by (induction offs arbitrary: ps) simp_all

lemma foldl_append_snd: "foldl (\<lambda>bm piece. bm @ snd piece) bm ps = bm @ concat (map snd ps)"
  by (induction ps arbitrary: bm) simp_all

text \<open>The capacity asked for is at most \<open>2\<^sup>2\<^sup>0\<close> payloads, far below \<open>isize::MAX\<close>.\<close>

lemma bitmap_capacity:
  assumes "length pieces \<le> MAX_STORE_BLOCKS"
  shows "vec_with_capacity (usize_saturating_mul (length pieces)
           (BLOCK_SIZE - STORE_BLOCK_HEADER_LEN)) = Some []"
proof -
  have "length pieces * 16256 \<le> 1048576 * 16256"
    using assms by (simp add: vss_consts)
  then show ?thesis
    by (simp add: vec_with_capacity_def usize_saturating_mul_def vss_consts)
qed

lemma build_bitmap_volume:
  assumes "volume_reader ops invar contents position" and "reads invar contents v r"
  shows "gives (reads invar contents v) (build_bitmap ops first (of_nat (length v)) r)
           (Ok (store_bitmap v first))"
proof -
  have "gives (reads invar contents v) (build_bitmap_loop ops (of_nat (length v)) [] {} first 0 r)
      (Ok (bitmap_pieces v first))"
    using bitmap_walk.walk_chain [OF assms, of "[]" "{}" first 0]
    by (simp add: foldl_append_piece bitmap_pieces_def)
  moreover have "length (bitmap_pieces v first) \<le> MAX_STORE_BLOCKS"
    by (simp add: bitmap_pieces_def length_chain)
  ultimately show ?thesis
    unfolding build_bitmap_def
    by (elim gives_then) (simp add: Let_def bitmap_capacity foldl_append_snd store_bitmap_def)
qed

section \<open>The state of a snapshot\<close>

definition state_of :: "bytes \<Rightarrow> u64 \<Rightarrow> u64 \<Rightarrow> SnapshotState" where
  "state_of v header bm =
     \<lparr>snapshot_volume_size = of_nat (length v),
      block_map = group (diff_descriptors v (saturating_add header (of_nat BLOCK_SIZE))),
      bitmap = store_bitmap v bm\<rparr>"

definition snapshot_state_spec ::
    "bytes \<Rightarrow> StoreDescriptor list \<Rightarrow> usize \<Rightarrow> (VssError, SnapshotState) outcome" where
  "snapshot_state_spec v ds i =
     (if length ds \<le> i then Err (StoreIndexOutOfRange i (length ds))
      else case (store_header_offset (ds ! i), store_bitmap_offset (ds ! i)) of
        (Some header, Some bm) \<Rightarrow> Ok (state_of v header bm)
      | _ \<Rightarrow> Err (StoreInfoUnavailable i))"

lemma snapshot_state_over:
  assumes vr: "volume_reader ops invar contents position"
    and r: "reads invar contents v (reader vol)" and size: "total_size vol = of_nat (length v)"
  shows "\<exists>r'. snapshot_state ops i vol = (snapshot_state_spec v (stores vol) i, vol\<lparr>reader := r'\<rparr>) \<and>
              reads invar contents v r'"
proof (cases "i < length (stores vol) \<and> (\<exists>h b. store_header_offset (stores vol ! i) = Some h \<and>
    store_bitmap_offset (stores vol ! i) = Some b)")
  case False
  have "vol = vol\<lparr>reader := reader vol\<rparr>" by simp
  moreover have "snapshot_state ops i vol = (snapshot_state_spec v (stores vol) i, vol)"
    using False
    by (auto simp: snapshot_state_def snapshot_state_spec_def vec_get_def split: option.split)
  ultimately show ?thesis using r by metis
next
  case True
  then obtain h b where i: "i < length (stores vol)"
    and h: "store_header_offset (stores vol ! i) = Some h"
    and b: "store_bitmap_offset (stores vol ! i) = Some b" by blast
  have "gives (reads invar contents v)
      (and_then (build_block_map ops (saturating_add h (of_nat BLOCK_SIZE)) (of_nat (length v)) r0) (\<lambda>m r.
       and_then (build_bitmap ops b (of_nat (length v)) r) (\<lambda>bm r.
       (Ok \<lparr>snapshot_volume_size = of_nat (length v), block_map = m, bitmap = bm\<rparr>, r))))
      (Ok (state_of v h b))" if r0: "reads invar contents v r0" for r0
    by (rule gives_then [OF build_block_map_volume [OF vr r0]],
        rule gives_then [OF build_bitmap_volume [OF vr]])
      (auto simp: state_of_def)
  from with_reader_gives [OF this r] show ?thesis
    using i h b by (simp add: snapshot_state_def snapshot_state_spec_def vec_get_def size Let_def)
qed

section \<open>Reading a block\<close>

definition block_or_zeros :: "bytes \<Rightarrow> u64 \<Rightarrow> bytes" where
  "block_or_zeros v off = (if in_volume v off then block_at v off else replicate BLOCK_SIZE 0)"

lemma length_block_or_zeros [simp]: "length (block_or_zeros v off) = BLOCK_SIZE"
  by (simp add: block_or_zeros_def)

lemma range_check:
  assumes "length v < 2 ^ 64"
  shows "(case checked_add off (of_nat BLOCK_SIZE) of
            Some e \<Rightarrow> if e \<le> of_nat (length v) then Some e else None | None \<Rightarrow> None) =
         (if in_volume v off then Some (off + of_nat BLOCK_SIZE) else None)"
proof (cases "in_volume v off")
  case True
  with in_volume_checked [OF assms, of off] obtain e where
    e: "checked_add off (of_nat BLOCK_SIZE) = Some e" and le: "e \<le> of_nat (length v)" by blast
  from e have "e = off + of_nat BLOCK_SIZE" by (simp add: checked_add_Some)
  with e le True show ?thesis by simp
next
  case False
  with in_volume_checked [OF assms, of off] show ?thesis by (auto split: option.split)
qed

lemma read_block_at_volume:
  assumes vr: "volume_reader ops invar contents position" and r: "reads invar contents v r"
  shows "gives (reads invar contents v) (read_block_at ops off (of_nat (length v)) r)
           (Ok (in_volume v off, block_or_zeros v off))"
proof (cases "in_volume v off")
  case True
  have "gives (reads invar contents v)
      (and_then (lift_io (seek_start ops off r)) (\<lambda>_ r.
       and_then (lift_io (read_exact ops BLOCK_SIZE r)) (\<lambda>out r. (Ok (True, out), r))))
      (Ok (True, block_at v off))"
    by (rule volume_reader.gives_seek_read_io [OF vr r])
      (use True in \<open>auto simp: in_volume_def block_at_def dest: volume_reader.holds_at_holds [OF vr]\<close>)
  with True show ?thesis
    by (simp add: read_block_at_def range_check [OF volume_reader.holds_fits [OF vr r]] block_or_zeros_def)
next
  case False
  with r show ?thesis
    by (simp add: read_block_at_def range_check [OF volume_reader.holds_fits [OF vr r]] block_or_zeros_def)
qed

text \<open>An overlay replaces the 512-byte sub-blocks whose bit is set.\<close>

definition overlay_block :: "bytes \<Rightarrow> bytes \<Rightarrow> u32 \<Rightarrow> bytes" where
  "overlay_block out overlay bm =
     map (\<lambda>p. if bit bm (p div SUB_BLOCK_SIZE) then overlay ! p else out ! p) [0..<BLOCK_SIZE]"

lemma overlay_sub_blocks_nth:
  assumes "length overlay = BLOCK_SIZE"
  shows "length out = BLOCK_SIZE \<Longrightarrow> \<forall>i \<in> set is. i < SUB_BLOCK_COUNT \<Longrightarrow>
    \<exists>out'. overlay_sub_blocks is out overlay bm = Some out' \<and> length out' = BLOCK_SIZE \<and>
      (\<forall>p < BLOCK_SIZE. out' ! p =
         (if p div SUB_BLOCK_SIZE \<in> set is \<and> bit bm (p div SUB_BLOCK_SIZE) then overlay ! p else out ! p))"
proof (induction "is" arbitrary: out)
  case Nil
  then show ?case by simp
next
  case (Cons i "is")
  show ?case
  proof (cases "bit bm i")
    case False
    then have eq: "overlay_sub_blocks (i # is) out overlay bm = overlay_sub_blocks is out overlay bm"
      by (simp add: bit_iff_and_push_bit_not_eq_0)
    obtain out' where "overlay_sub_blocks is out overlay bm = Some out'" "length out' = BLOCK_SIZE"
      and "\<forall>p < BLOCK_SIZE. out' ! p =
         (if p div SUB_BLOCK_SIZE \<in> set is \<and> bit bm (p div SUB_BLOCK_SIZE) then overlay ! p else out ! p)"
      using Cons.IH [OF Cons.prems(1)] Cons.prems(2) by auto
    with False show ?thesis unfolding eq by auto
  next
    case True
    let ?s = "i * SUB_BLOCK_SIZE" and ?e = "i * SUB_BLOCK_SIZE + SUB_BLOCK_SIZE"
    have i: "i < 32" using Cons.prems(2) by (simp add: vss_consts)
    then have le: "?e \<le> BLOCK_SIZE" by (simp add: vss_consts)
    have mul: "usize_mul i SUB_BLOCK_SIZE = Some ?s" and add: "usize_add ?s SUB_BLOCK_SIZE = Some ?e"
      using i by (simp_all add: usize_mul_def usize_add_def usize_max_val vss_consts)
    have src: "slice_get overlay ?s ?e = Some (subslice overlay ?s SUB_BLOCK_SIZE)"
      using le assms by (simp add: slice_get_ok)
    obtain out1 where out1: "copy_into out ?s ?e (subslice overlay ?s SUB_BLOCK_SIZE) = Some out1"
      using le assms Cons.prems(1) by (simp add: copy_into_def)
    have l1: "length out1 = BLOCK_SIZE"
      using copy_into_length [OF out1] Cons.prems(1) by simp
    have n1: "out1 ! p = (if p div SUB_BLOCK_SIZE = i then overlay ! p else out ! p)" if "p < BLOCK_SIZE" for p
    proof -
      have iff: "(?s \<le> p \<and> p < ?e) \<longleftrightarrow> p div SUB_BLOCK_SIZE = i"
        by (auto simp: vss_consts)
      have "subslice overlay ?s SUB_BLOCK_SIZE ! (p - ?s) = overlay ! p" if "?s \<le> p" "p < ?e"
        using that le assms by simp
      with iff show ?thesis
        using copy_into_nth [OF out1, of p] that Cons.prems(1) by auto
    qed
    have "overlay_sub_blocks (i # is) out overlay bm = overlay_sub_blocks is out1 overlay bm"
      using True by (simp add: bit_iff_and_push_bit_not_eq_0 mul add src out1)
    moreover obtain out' where "overlay_sub_blocks is out1 overlay bm = Some out'"
      "length out' = BLOCK_SIZE" and "\<forall>p < BLOCK_SIZE. out' ! p =
         (if p div SUB_BLOCK_SIZE \<in> set is \<and> bit bm (p div SUB_BLOCK_SIZE) then overlay ! p else out1 ! p)"
      using Cons.IH [OF l1] Cons.prems(2) by auto
    ultimately show ?thesis using n1 True by auto
  qed
qed

lemma apply_overlay_ok [no_panic]:
  assumes "length out = BLOCK_SIZE" and "length overlay = BLOCK_SIZE"
  shows "apply_overlay out overlay bm = Some (overlay_block out overlay bm)"
proof -
  obtain out' where out': "apply_overlay out overlay bm = Some out'" "length out' = BLOCK_SIZE"
    and n: "\<forall>p < BLOCK_SIZE. out' ! p =
         (if p div SUB_BLOCK_SIZE \<in> set [0..<SUB_BLOCK_COUNT] \<and> bit bm (p div SUB_BLOCK_SIZE)
          then overlay ! p else out ! p)"
    using overlay_sub_blocks_nth [OF assms(2,1), of "[0..<SUB_BLOCK_COUNT]" bm]
    unfolding apply_overlay_def by auto
  have "out' = overlay_block out overlay bm"
  proof (rule nth_equalityI)
    fix p assume p: "p < length out'"
    then have "p div SUB_BLOCK_SIZE < SUB_BLOCK_COUNT"
      using out'(2) by (simp add: vss_consts)
    with p show "out' ! p = overlay_block out overlay bm ! p"
      using out'(2) n by (simp add: overlay_block_def)
  qed (simp add: out' overlay_block_def)
  with out'(1) show ?thesis by simp
qed

lemma length_overlay_block [simp]: "length (overlay_block out overlay bm) = BLOCK_SIZE"
  by (simp add: overlay_block_def)

text \<open>One patch on a volume: an overlay out of range contributes nothing.\<close>

definition patch :: "bytes \<Rightarrow> BlockDescriptor \<Rightarrow> bytes \<Rightarrow> bytes" where
  "patch v d out =
     (if in_volume v (store_offset d)
      then overlay_block out (block_at v (store_offset d)) (allocation_bitmap d) else out)"

lemma length_patch [simp]: "length out = BLOCK_SIZE \<Longrightarrow> length (patch v d out) = BLOCK_SIZE"
  by (simp add: patch_def)

lemma length_patches [simp]: "length out = BLOCK_SIZE \<Longrightarrow> length (fold (patch v) ds out) = BLOCK_SIZE"
  by (induction ds arbitrary: out) simp_all

lemma apply_overlays_volume:
  assumes vr: "volume_reader ops invar contents position"
  shows "reads invar contents v r \<Longrightarrow> length out = BLOCK_SIZE \<Longrightarrow>
    gives (reads invar contents v) (apply_overlays ops (of_nat (length v)) ds out r)
      (Ok (fold (patch v) ds out))"
proof (induction ds arbitrary: out r)
  case (Cons d ds)
  have "gives (reads invar contents v)
      (if in_volume v (store_offset d) then
         or_panic (apply_overlay out (block_or_zeros v (store_offset d)) (allocation_bitmap d)) r1
           (\<lambda>out'. apply_overlays ops (of_nat (length v)) ds out' r1)
       else apply_overlays ops (of_nat (length v)) ds out r1)
      (Ok (fold (patch v) (d # ds) out))" if "reads invar contents v r1" for r1
  proof (cases "in_volume v (store_offset d)")
    case True
    then have "apply_overlay out (block_or_zeros v (store_offset d)) (allocation_bitmap d) =
        Some (patch v d out)"
      using Cons.prems(2) by (simp add: apply_overlay_ok patch_def block_or_zeros_def)
    with True Cons.IH [OF that, of "patch v d out"] Cons.prems(2) show ?thesis by simp
  next
    case False
    then have "patch v d out = out" by (simp add: patch_def)
    with False Cons.IH [OF that, of out] Cons.prems(2) show ?thesis by simp
  qed
  then show ?case
    by (auto intro!: gives_then [OF read_block_at_volume [OF vr Cons.prems(1)]])
qed simp

text \<open>The byte a descriptor set gives: that of the last patch whose bitmap selects its sub-block
  and which is in range, or that of the last plain descriptor's block, or of the live block.\<close>

definition base_source :: "BlockDescriptor list \<Rightarrow> u64 \<Rightarrow> u64" where
  "base_source ds base = (case filter is_plain ds of [] \<Rightarrow> base | ps \<Rightarrow> store_offset (last ps))"

definition patches_byte :: "bytes \<Rightarrow> nat \<Rightarrow> BlockDescriptor \<Rightarrow> bool" where
  "patches_byte v p d \<longleftrightarrow> is_patch d \<and> in_volume v (store_offset d) \<and>
     bit (allocation_bitmap d) (p div SUB_BLOCK_SIZE)"

definition mapped_byte :: "bytes \<Rightarrow> BlockDescriptor list \<Rightarrow> u64 \<Rightarrow> nat \<Rightarrow> u8" where
  "mapped_byte v ds base p =
     (case filter (patches_byte v p) ds of
        [] \<Rightarrow> block_or_zeros v (base_source ds base) ! p
      | os \<Rightarrow> block_at v (store_offset (last os)) ! p)"

lemma find_last: "find P (rev xs) = (case filter P xs of [] \<Rightarrow> None | ys \<Rightarrow> Some (last ys))"
proof (induction xs rule: rev_induct)
  case (snoc x xs)
  then show ?case by (cases "filter P xs") auto
qed simp

lemma patches_nth:
  assumes "length out = BLOCK_SIZE" and "p < BLOCK_SIZE"
  shows "fold (patch v) (filter is_patch ds) out ! p =
    (case filter (patches_byte v p) ds of
       [] \<Rightarrow> out ! p | os \<Rightarrow> block_at v (store_offset (last os)) ! p)"
proof (induction ds rule: rev_induct)
  case Nil
  then show ?case by simp
next
  case (snoc d ds)
  have "patch v d x ! p =
      (if in_volume v (store_offset d) \<and> bit (allocation_bitmap d) (p div SUB_BLOCK_SIZE)
       then block_at v (store_offset d) ! p else x ! p)" for x
    using assms(2) by (simp add: patch_def overlay_block_def)
  with snoc show ?case
    by (cases "filter (patches_byte v p) ds") (auto simp: patches_byte_def [of v p d])
qed

text \<open>The snapshot as a function from positions to bytes.\<close>

definition snapshot_byte :: "bytes \<Rightarrow> SnapshotState \<Rightarrow> nat \<Rightarrow> u8" where
  "snapshot_byte v st p =
     (let bn = p div BLOCK_SIZE;
          base = of_nat (bn * BLOCK_SIZE) :: u64
      in case block_map st base of
           Some (d # ds) \<Rightarrow> mapped_byte v (d # ds) base (p mod BLOCK_SIZE)
         | _ \<Rightarrow>
             if is_unallocated st (of_nat bn) then 0
             else block_or_zeros v base ! (p mod BLOCK_SIZE))"

definition snapshot_block :: "bytes \<Rightarrow> SnapshotState \<Rightarrow> nat \<Rightarrow> bytes" where
  "snapshot_block v st bn = map (\<lambda>i. snapshot_byte v st (bn * BLOCK_SIZE + i)) [0..<BLOCK_SIZE]"

lemma length_snapshot_block [simp]: "length (snapshot_block v st bn) = BLOCK_SIZE"
  by (simp add: snapshot_block_def)

lemma block_words:
  "off div of_nat BLOCK_SIZE = (of_nat (unat off div BLOCK_SIZE) :: u64)"
  "saturating_mul (off div of_nat BLOCK_SIZE) (of_nat BLOCK_SIZE) =
     (of_nat (unat off div BLOCK_SIZE * BLOCK_SIZE) :: u64)"
proof -
  show "off div of_nat BLOCK_SIZE = (of_nat (unat off div BLOCK_SIZE) :: u64)"
    using unat_div [of off "of_nat BLOCK_SIZE"] unat_block_size by (metis of_nat_unat ucast_id)
  show "saturating_mul (off div of_nat BLOCK_SIZE) (of_nat BLOCK_SIZE) =
     (of_nat (unat off div BLOCK_SIZE * BLOCK_SIZE) :: u64)"
    using unat_block_base [of off] by (metis of_nat_unat ucast_id)
qed

lemma snapshot_block_cases:
  assumes "base = (of_nat (bn * BLOCK_SIZE) :: u64)"
  shows "snapshot_block v st bn =
    (case (case block_map st base of Some ds \<Rightarrow> if ds \<noteq> [] then Some ds else None | None \<Rightarrow> None) of
       Some ds \<Rightarrow> fold (patch v) (filter is_patch ds) (block_or_zeros v (base_source ds base))
     | None \<Rightarrow>
         if is_unallocated st (of_nat bn) then replicate BLOCK_SIZE 0 else block_or_zeros v base)"
proof (rule nth_equalityI)
  fix i assume "i < length (snapshot_block v st bn)"
  then have i: "i < BLOCK_SIZE" by simp
  then have "(bn * BLOCK_SIZE + i) div BLOCK_SIZE = bn" "(bn * BLOCK_SIZE + i) mod BLOCK_SIZE = i"
    by simp_all
  with i assms show "snapshot_block v st bn ! i =
    (case (case block_map st base of Some ds \<Rightarrow> if ds \<noteq> [] then Some ds else None | None \<Rightarrow> None) of
       Some ds \<Rightarrow> fold (patch v) (filter is_patch ds) (block_or_zeros v (base_source ds base))
     | None \<Rightarrow>
         if is_unallocated st (of_nat bn) then replicate BLOCK_SIZE 0 else block_or_zeros v base) ! i"
    by (simp add: snapshot_block_def snapshot_byte_def Let_def patches_nth mapped_byte_def
        split: option.split list.split)
qed (auto split: option.split)

lemma read_block_volume:
  assumes vr: "volume_reader ops invar contents position" and r: "reads invar contents v r"
    and size: "snapshot_volume_size st = of_nat (length v)"
  shows "gives (reads invar contents v) (read_block ops st off r)
           (Ok (snapshot_block v st (unat off div BLOCK_SIZE)))"
proof -
  let ?bn = "unat off div BLOCK_SIZE"
  let ?base = "of_nat (?bn * BLOCK_SIZE) :: u64"
  have src: "(case find is_plain (rev ds) of None \<Rightarrow> ?base | Some d \<Rightarrow> store_offset d) = base_source ds ?base" for ds
    by (simp add: find_last base_source_def split: list.split)
  show ?thesis
  proof (cases "case block_map st ?base of Some ds \<Rightarrow> if ds \<noteq> [] then Some ds else None | None \<Rightarrow> None")
    case (Some ds)
    have "gives (reads invar contents v)
        (and_then (read_block_at ops (base_source ds ?base) (of_nat (length v)) r) (\<lambda>res r.
         apply_overlays ops (of_nat (length v)) (filter is_patch ds) (snd res) r))
        (Ok (fold (patch v) (filter is_patch ds) (block_or_zeros v (base_source ds ?base))))"
      by (rule gives_then [OF read_block_at_volume [OF vr r]])
        (simp add: apply_overlays_volume [OF vr])
    then show ?thesis
      unfolding read_block_def Let_def block_words(2)
      by (simp add: Some src size snapshot_block_cases [OF refl] del: of_nat_mult)
  next
    case None
    show ?thesis
      using gives_then [OF read_block_at_volume [OF vr r, of ?base], where f = "\<lambda>res r. (Ok (snd res), r)"] r
      unfolding read_block_def Let_def block_words(2)
      by (simp add: None size block_words(1) snapshot_block_cases [OF refl] del: of_nat_mult)
  qed
qed

section \<open>No panic over any reader\<close>

lemma read_block_at_not_panic [panic_free]: "fst (read_block_at ops off vs r) \<noteq> Panic"
  unfolding read_block_at_def by (intro panic_free)

lemma read_block_at_length:
  assumes "read_seek ops" and "read_block_at ops off vs r = (Ok res, r')"
  shows "length (snd res) = BLOCK_SIZE"
  using assms(2) read_seek.lift_read_fills [OF assms(1)]
  by (auto simp: read_block_at_def and_then_def
      split: option.splits prod.splits outcome.splits if_splits)

lemma apply_overlays_safe:
  assumes rs: "read_seek ops"
  shows "length out = BLOCK_SIZE \<Longrightarrow> fst (apply_overlays ops vs ds out r) \<noteq> Panic \<and>
    (\<forall>out' r'. apply_overlays ops vs ds out r = (Ok out', r') \<longrightarrow> length out' = BLOCK_SIZE)"
proof (induction ds arbitrary: out r)
  case (Cons d ds)
  show ?case
  proof (cases "read_block_at ops (store_offset d) vs r")
    case (Pair o1 r1)
    show ?thesis
    proof (cases o1)
      case (Ok res)
      then have "length (snd res) = BLOCK_SIZE"
        using read_block_at_length [OF rs] Pair by simp
      then have "apply_overlay out (snd res) bm = Some (overlay_block out (snd res) bm)" for bm
        using Cons.prems by (simp add: apply_overlay_ok)
      then show ?thesis
        using Pair Ok Cons.IH [of "overlay_block out (snd res) (allocation_bitmap d)" r1]
          Cons.IH [OF Cons.prems, of r1]
        by (cases "fst res") simp_all
    next
      case Panic
      then show ?thesis
        using Pair read_block_at_not_panic [of ops "store_offset d" vs r] by simp
    qed (use Pair in simp)
  qed
qed simp

lemma read_block_safe:
  assumes rs: "read_seek ops"
  shows "fst (read_block ops st off r) \<noteq> Panic \<and>
    (\<forall>b r'. read_block ops st off r = (Ok b, r') \<longrightarrow> length b = BLOCK_SIZE)"
proof -
  have mapped: "fst (and_then (read_block_at ops src vs r) (\<lambda>res r. apply_overlays ops vs ds (snd res) r)) \<noteq> Panic \<and>
      (\<forall>b r'. and_then (read_block_at ops src vs r) (\<lambda>res r. apply_overlays ops vs ds (snd res) r) = (Ok b, r') \<longrightarrow>
              length b = BLOCK_SIZE)" for src vs ds
  proof (cases "read_block_at ops src vs r")
    case (Pair o1 r1)
    then show ?thesis
      using apply_overlays_safe [OF rs] read_block_at_length [OF rs, of src vs r]
        read_block_at_not_panic [of ops src vs r]
      by (cases o1) simp_all
  qed
  have live: "fst (and_then (read_block_at ops src vs r) (\<lambda>res r. (Ok (snd res), r))) \<noteq> Panic \<and>
      (\<forall>b r'. and_then (read_block_at ops src vs r) (\<lambda>res r. (Ok (snd res), r)) = (Ok b, r') \<longrightarrow>
              length b = BLOCK_SIZE)" for src vs
  proof (cases "read_block_at ops src vs r")
    case (Pair o1 r1)
    then show ?thesis
      using read_block_at_length [OF rs, of src vs r] read_block_at_not_panic [of ops src vs r]
      by (cases o1) simp_all
  qed
  show ?thesis
    using mapped live by (simp add: read_block_def Let_def split: option.split)
qed

section \<open>Reading a range\<close>

text \<open>One turn of the loop, with every checked step discharged.\<close>

lemma read_at_step:
  assumes "written < length buf" and "length buf \<le> isize_max"
    and w: "w = unat cursor mod BLOCK_SIZE" and n: "n = min (BLOCK_SIZE - w) (length buf - written)"
    and rb: "read_block ops st
        (saturating_mul (cursor div of_nat BLOCK_SIZE) (of_nat BLOCK_SIZE)) r = (res, r1)"
    and len: "\<forall>b. res = Ok b \<longrightarrow> length b = BLOCK_SIZE"
  shows "read_at_loop ops st written cursor buf r =
    (case res of
       Ok b \<Rightarrow> read_at_loop ops st (written + n) (saturating_add cursor (of_nat n))
                 (take written buf @ subslice b w n @ drop (written + n) buf) r1
     | Err e \<Rightarrow> (Err e, (buf, r1))
     | Panic \<Rightarrow> (Panic, (buf, r1)))"
proof -
  have "w < BLOCK_SIZE" by (simp add: w vss_consts)
  then have bounds: "w \<le> BLOCK_SIZE" "written + n \<le> length buf" "w + n \<le> BLOCK_SIZE"
    using assms(1) n by auto
  then have adds: "usize_add written n = Some (written + n)" "usize_add w n = Some (w + n)"
    using assms(2) by (simp_all add: usize_add_def usize_max_val isize_max_val vss_consts)
  obtain wi where wi: "u64_sub cursor (saturating_mul (cursor div of_nat BLOCK_SIZE) (of_nat BLOCK_SIZE)) = Some wi"
    using within_exists [of cursor] by blast
  have as: "as_usize wi = w"
    using unat_within [OF wi] by (simp add: as_usize_def w)
  have subs: "usize_sub BLOCK_SIZE w = Some (BLOCK_SIZE - w)"
      "usize_sub (length buf) written = Some (length buf - written)"
    using bounds assms(1) by (simp_all add: usize_sub_def)
  show ?thesis
  proof (cases res)
    case (Ok b)
    have "slice_get b w (w + n) = Some (subslice b w n)"
      using len Ok bounds by (simp add: slice_get_ok)
    moreover have "copy_into buf written (written + n) (subslice b w n) =
        Some (take written buf @ subslice b w n @ drop (written + n) buf)"
      using len Ok bounds by (simp add: copy_into_def)
    ultimately show ?thesis
      using assms(1) Ok rb wi as
      by (subst read_at_loop.simps) (simp add: Let_def subs adds n [symmetric])
  qed (use assms(1) rb wi in \<open>subst read_at_loop.simps, simp add: Let_def\<close>)+
qed

lemma read_at_loop_safe:
  assumes rs: "read_seek ops"
  shows "length buf \<le> isize_max \<Longrightarrow>
    fst (read_at_loop ops st written cursor buf r) \<noteq> Panic \<and>
    length (fst (snd (read_at_loop ops st written cursor buf r))) = length buf"
proof (induction "length buf - written" arbitrary: written cursor buf r rule: less_induct)
  case less
  show ?case
  proof (cases "written < length buf")
    case True
    define w where "w = unat cursor mod BLOCK_SIZE"
    define n where "n = min (BLOCK_SIZE - w) (length buf - written)"
    have w: "w < BLOCK_SIZE" by (simp add: w_def vss_consts)
    obtain res r1 where rb: "read_block ops st
        (saturating_mul (cursor div of_nat BLOCK_SIZE) (of_nat BLOCK_SIZE)) r = (res, r1)"
      by (cases "read_block ops st
        (saturating_mul (cursor div of_nat BLOCK_SIZE) (of_nat BLOCK_SIZE)) r")
    have len: "\<forall>b. res = Ok b \<longrightarrow> length b = BLOCK_SIZE"
      using read_block_safe [OF rs] rb by blast
    note step = read_at_step [OF True less.prems w_def n_def rb len]
    show ?thesis
    proof (cases res)
      case (Ok b)
      let ?buf = "take written buf @ subslice b w n @ drop (written + n) buf"
      have lb: "length ?buf = length buf"
        using True w len Ok by (simp add: n_def)
      have "0 < n" using True w by (simp add: n_def)
      then have "length ?buf - (written + n) < length buf - written"
        unfolding lb using True by simp
      moreover have "length ?buf \<le> isize_max"
        unfolding lb using less.prems .
      ultimately have "fst (read_at_loop ops st (written + n) (saturating_add cursor (of_nat n)) ?buf r1) \<noteq> Panic \<and>
        length (fst (snd (read_at_loop ops st (written + n) (saturating_add cursor (of_nat n)) ?buf r1))) =
        length ?buf"
        by (rule less.hyps)
      then show ?thesis unfolding lb step using Ok by simp
    next
      case Panic
      then show ?thesis using read_block_safe [OF rs] rb by (metis fst_conv)
    qed (simp add: step)
  qed (subst read_at_loop.simps, simp add: read_at_loop.simps)
qed

lemma map_upt_split: "m \<le> k \<Longrightarrow> map f [0..<m] @ map (\<lambda>j. f (m + j)) [0..<k - m] = map f [0..<k]"
  by (rule nth_equalityI) (auto simp: nth_append)

lemma subslice_snapshot_block:
  assumes "w + n \<le> BLOCK_SIZE"
  shows "subslice (snapshot_block v st bn) w n =
    map (\<lambda>j. snapshot_byte v st (bn * BLOCK_SIZE + w + j)) [0..<n]"
  by (rule nth_equalityI) (use assms in \<open>auto simp: snapshot_block_def add.assoc\<close>)

text \<open>The position of the cursor saturates at the last one a \<open>u64\<close> has, the end of a block.\<close>

definition clip :: "nat \<Rightarrow> nat" where
  "clip p = min p (2 ^ 64 - 1)"

lemma block_end: "unat (cursor :: u64) div BLOCK_SIZE * BLOCK_SIZE + BLOCK_SIZE \<le> 2 ^ 64"
proof -
  have "unat cursor div BLOCK_SIZE < 2 ^ 64 div BLOCK_SIZE"
    using unat_lt64 [of cursor] by (simp add: vss_consts less_mult_imp_div_less)
  then have "(unat cursor div BLOCK_SIZE + 1) * BLOCK_SIZE \<le> (2 ^ 64 div BLOCK_SIZE) * BLOCK_SIZE"
    by (intro mult_le_mono1) simp
  then show ?thesis by (simp add: vss_consts)
qed

lemma read_at_loop_volume:
  assumes vr: "volume_reader ops invar contents position"
    and size: "snapshot_volume_size st = of_nat (length v)"
  shows "reads invar contents v r \<Longrightarrow> length buf \<le> isize_max \<Longrightarrow> written \<le> length buf \<Longrightarrow>
    \<exists>r'. read_at_loop ops st written cursor buf r =
       (Ok (), (take written buf @
          map (\<lambda>j. snapshot_byte v st (clip (unat cursor + j))) [0..<length buf - written], r')) \<and>
       reads invar contents v r'"
proof (induction "length buf - written" arbitrary: written cursor buf r rule: less_induct)
  case less
  show ?case
  proof (cases "written < length buf")
    case False
    with less.prems show ?thesis by (subst read_at_loop.simps) simp
  next
    case True
    define w where "w = unat cursor mod BLOCK_SIZE"
    define n where "n = min (BLOCK_SIZE - w) (length buf - written)"
    define bn where "bn = unat cursor div BLOCK_SIZE"
    have w: "w < BLOCK_SIZE" by (simp add: w_def vss_consts)
    have cur: "bn * BLOCK_SIZE + w = unat cursor" by (simp add: bn_def w_def)
    have n: "0 < n" "w + n \<le> BLOCK_SIZE" "written + n \<le> length buf"
      using True w by (auto simp: n_def)
    have "0 < BLOCK_SIZE" by (simp add: vss_consts)
    then have "unat (saturating_mul (cursor div of_nat BLOCK_SIZE) (of_nat BLOCK_SIZE)) div BLOCK_SIZE = bn"
      unfolding unat_block_base bn_def by simp
    then obtain r1 where rb: "read_block ops st
        (saturating_mul (cursor div of_nat BLOCK_SIZE) (of_nat BLOCK_SIZE)) r =
        (Ok (snapshot_block v st bn), r1)" and r1: "reads invar contents v r1"
      using read_block_volume [OF vr less.prems(1) size,
          of "saturating_mul (cursor div of_nat BLOCK_SIZE) (of_nat BLOCK_SIZE)"]
      by (metis givesE)
    let ?src = "subslice (snapshot_block v st bn) w n"
    let ?buf = "take written buf @ ?src @ drop (written + n) buf"
    have lb: "length ?buf = length buf" using n True by simp
    have step: "read_at_loop ops st written cursor buf r =
        read_at_loop ops st (written + n) (saturating_add cursor (of_nat n)) ?buf r1"
      using read_at_step [OF True less.prems(2) w_def n_def rb] by simp
    have "unat (of_nat n :: u64) = n" using n(2) by (simp add: vss_consts unat_of_nat)
    then have sat: "clip (unat (saturating_add cursor (of_nat n)) + j) = clip (unat cursor + (n + j))" for j
      by (simp add: unat_saturating_add clip_def min_def)
    have "unat cursor + n \<le> 2 ^ 64"
      using block_end [of cursor] cur n(2) by (simp add: bn_def)
    then have inside: "clip (unat cursor + j) = unat cursor + j" if "j < n" for j
      using that by (simp add: clip_def)
    have "\<exists>r'. read_at_loop ops st (written + n) (saturating_add cursor (of_nat n)) ?buf r1 =
       (Ok (), (take (written + n) ?buf @
          map (\<lambda>j. snapshot_byte v st (clip (unat (saturating_add cursor (of_nat n)) + j)))
            [0..<length ?buf - (written + n)], r')) \<and> reads invar contents v r'"
      by (rule less.hyps) (use lb n less.prems r1 True in auto)
    then obtain r' where rec: "read_at_loop ops st written cursor buf r =
        (Ok (), (take (written + n) ?buf @
          map (\<lambda>j. snapshot_byte v st (clip (unat (saturating_add cursor (of_nat n)) + j)))
            [0..<length buf - (written + n)], r'))" and r': "reads invar contents v r'"
      unfolding step lb by blast
    have new: "take (written + n) ?buf = take written buf @
        map (\<lambda>j. snapshot_byte v st (clip (unat cursor + j))) [0..<n]"
      using n True cur inside subslice_snapshot_block [OF n(2), of v st bn] by simp
    have rest: "map (\<lambda>j. snapshot_byte v st (clip (unat (saturating_add cursor (of_nat n)) + j)))
            [0..<length buf - (written + n)] =
        map (\<lambda>j. snapshot_byte v st (clip (unat cursor + (n + j)))) [0..<(length buf - written) - n]"
      using sat by simp
    have all: "map (\<lambda>j. snapshot_byte v st (clip (unat cursor + j))) [0..<n] @
        map (\<lambda>j. snapshot_byte v st (clip (unat cursor + (n + j)))) [0..<(length buf - written) - n] =
        map (\<lambda>j. snapshot_byte v st (clip (unat cursor + j))) [0..<length buf - written]"
      by (rule map_upt_split) (use n True in simp)
    show ?thesis
      unfolding rec new rest append_assoc all using r' by blast
  qed
qed

text \<open>A range that ends at \<open>2\<^sup>6\<^sup>4\<close> or before is never clipped.\<close>

lemma read_at_volume_any:
  assumes "volume_reader ops invar contents position" and "reads invar contents v r"
    and "snapshot_volume_size st = of_nat (length v)" and "length buf \<le> isize_max"
  shows "\<exists>r'. read_at ops st off buf r =
    (Ok (), (map (\<lambda>j. snapshot_byte v st (clip (unat off + j))) [0..<length buf], r')) \<and>
    reads invar contents v r'"
  using read_at_loop_volume [OF assms(1,3,2,4), of 0 off] by (simp add: read_at_def)

lemma clip_range:
  "off + n \<le> 2 ^ 64 \<Longrightarrow> map (\<lambda>j. f (clip (off + j))) [0..<n] = map (\<lambda>j. f (off + j)) [0..<n]"
  by (auto simp: clip_def min_def)

lemma read_at_volume:
  assumes "volume_reader ops invar contents position" and "reads invar contents v r"
    and "snapshot_volume_size st = of_nat (length v)" and "length buf \<le> isize_max"
    and "unat off + length buf \<le> 2 ^ 64"
  shows "\<exists>r'. read_at ops st off buf r =
    (Ok (), (map (\<lambda>j. snapshot_byte v st (unat off + j)) [0..<length buf], r')) \<and>
    reads invar contents v r'"
  using read_at_volume_any [OF assms(1-4), of off] clip_range [OF assms(5), of "snapshot_byte v st"]
  by simp

end
