(* ===== verification/Vss_Volume_Props.thy ===== *)
theory Vss_Volume_Props
  imports Vss_Volume
begin

text \<open>
  The properties of opening a volume, enumerating its stores and reading their information,
  and the layout of a written catalog (\<open>encode_catalog_block\<close>, \<open>catalog_written\<close>) for the
  round trip: what was laid out on disk is what the reader enumerates.
\<close>

section \<open>A catalog written to disk\<close>

definition encode_catalog_block :: "u64 \<Rightarrow> u64 \<Rightarrow> u64 \<Rightarrow> CatalogEntry list \<Rightarrow> bytes" where
  "encode_catalog_block rel cur nxt es =
     VSS_IDENTIFIER @ to_le_bytes 4 (1 :: u32) @ to_le_bytes 4 CATALOG_BLOCK_RECORD_TYPE @
     to_le_bytes 8 rel @ to_le_bytes 8 cur @ to_le_bytes 8 nxt @ replicate 80 0 @
     concat (map encode_entry es)"

text \<open>
  The volume \<open>v\<close> holds the chain of catalog blocks \<open>bs\<close> from \<open>first\<close> on: each with its offset,
  its 127 entries, and the link to the next one, 0 at the end.
\<close>

fun catalog_written :: "bytes \<Rightarrow> (u64 \<times> CatalogEntry list) list \<Rightarrow> u64 \<Rightarrow> bool" where
  "catalog_written v [] first \<longleftrightarrow> first = 0"
| "catalog_written v ((off, es) # bs) first \<longleftrightarrow>
     first = off \<and> off \<noteq> 0 \<and> in_volume v off \<and>
     length es = entries_per_block \<and> (\<forall>e \<in> set es. valid_entry e) \<and>
     (\<exists>rel cur nxt. block_at v off = encode_catalog_block rel cur nxt es \<and>
                    catalog_written v bs nxt)"

text \<open>The entries that describe a store, and the whole of a list of stores.\<close>

definition store_entries :: "StoreDescriptor \<Rightarrow> CatalogEntry list" where
  "store_entries d =
     Snapshot (core d) #
     (case (store_header_offset d, store_bitmap_offset d) of
        (Some h, Some b) \<Rightarrow> [StorePointer (store_id d) h b]
      | _ \<Rightarrow> [])"

lemma encode_catalog_header:
  assumes "b = encode_catalog_block rel cur nxt es"
  shows "field b 0 16 = VSS_IDENTIFIER" "from_le_bytes (field b 20 4) = CATALOG_BLOCK_RECORD_TYPE"
    "from_le_bytes (field b 40 8) = nxt"
  unfolding assms
  by (simp_all add: encode_catalog_block_def field_append field_of_le_bytes)

lemma encode_catalog_entries:
  assumes "length es = entries_per_block" and "\<forall>e \<in> set es. valid_entry e"
  shows "block_entries (encode_catalog_block rel cur nxt es) = es"
proof (rule nth_equalityI)
  show "length (block_entries (encode_catalog_block rel cur nxt es)) = length es"
    using assms by (simp add: block_entries_def)
next
  fix i assume "i < length (block_entries (encode_catalog_block rel cur nxt es))"
  then have i: "i < length es" and i': "i < entries_per_block"
    using assms(1) by (simp_all add: block_entries_def)
  define hdr where "hdr = VSS_IDENTIFIER @ to_le_bytes 4 (1 :: u32) @
    to_le_bytes 4 CATALOG_BLOCK_RECORD_TYPE @ to_le_bytes 8 rel @ to_le_bytes 8 cur @
    to_le_bytes 8 nxt @ (replicate 80 0 :: bytes)"
  have hdr: "length hdr = 128" by (simp add: hdr_def)
  have "encode_catalog_block rel cur nxt es = hdr @ concat (map encode_entry es) @ []"
    by (simp add: encode_catalog_block_def hdr_def)
  then have "subslice (encode_catalog_block rel cur nxt es)
      (CATALOG_BLOCK_HEADER_LEN + i * CATALOG_ENTRY_LEN) CATALOG_ENTRY_LEN = encode_entry (es ! i)"
    using catalog_entry.subslice_table [OF assms(2) i, of "[]"] hdr
    by (simp add: subslice_append_right vss_consts)
  then show "block_entries (encode_catalog_block rel cur nxt es) ! i = es ! i"
    using i i' assms(2) catalog_entry.parse_encode_exact [of "es ! i"]
    by (simp add: block_entries_def entry_at_def catalog_entry_of_def)
qed

lemma linked_written:
  "catalog_written v bs first \<Longrightarrow> linked accept_catalog next_catalog v (map fst bs) first"
proof (induction bs arbitrary: first)
  case (Cons b bs)
  obtain off es where b: "b = (off, es)" by (cases b)
  with Cons.prems obtain rel cur nxt where
    blk: "block_at v off = encode_catalog_block rel cur nxt es" and "catalog_written v bs nxt"
    by auto
  with Cons encode_catalog_header [OF blk] b show ?case
    by (simp add: accept_catalog_def next_catalog_def)
qed simp

lemma written_entries:
  "catalog_written v bs first \<Longrightarrow>
   concat (map (\<lambda>off. block_entries (block_at v off)) (map fst bs)) = concat (map snd bs)"
  by (induction bs arbitrary: first) (auto simp: encode_catalog_entries)

lemma apply_store_entries:
  assumes "store_wf d"
  shows "apply_entries (store_entries d) ds = ds @ [d]"
proof (cases "store_header_offset d")
  case None
  with assms have "core d = d" by (simp add: store_wf_def core_def)
  with None show ?thesis by (simp add: store_entries_def apply_entries_def)
next
  case (Some h)
  with assms obtain b where "store_bitmap_offset d = Some b" by (auto simp: store_wf_def)
  with Some show ?thesis by (simp add: store_entries_def apply_entries_def core_def)
qed

lemma apply_all_store_entries:
  "\<forall>d \<in> set ss. store_wf d \<Longrightarrow>
   apply_entries (concat (map store_entries ss) @ replicate n Empty) ds = ds @ ss"
proof (induction ss arbitrary: ds)
  case Nil
  then show ?case by (induction n) (simp_all add: apply_entries_def)
next
  case (Cons d ss)
  have "apply_entries (store_entries d @ es) ds = apply_entries es (apply_entries (store_entries d) ds)" for es
    by (simp add: apply_entries_def)
  with Cons apply_store_entries [of d ds] show ?case by simp
qed

lemma length_encode_catalog_block:
  assumes "length es = entries_per_block" and "\<forall>e \<in> set es. valid_entry e"
  shows "length (encode_catalog_block rel cur nxt es) = BLOCK_SIZE"
  using catalog_entry.length_table [OF assms(2)] assms(1)
  by (simp add: encode_catalog_block_def entries_per_block_def vss_consts)

lemma catalog_stores_written:
  assumes "catalog_written v bs first" and "distinct (map fst bs)" and "length bs \<le> MAX_CATALOG_BLOCKS"
    and "concat (map snd bs) = concat (map store_entries ss) @ replicate n Empty"
    and "\<forall>d \<in> set ss. store_wf d"
  shows "catalog_stores v first = ss"
proof -
  have "catalog_chain v first = map fst bs"
    unfolding catalog_chain_def
    by (rule chain_of_linked [OF linked_written [OF assms(1)]]) (use assms(2,3) in simp_all)
  then have "catalog_entries v first = concat (map store_entries ss) @ replicate n Empty"
    using written_entries [OF assms(1)] assms(4) by (simp add: catalog_entries_def)
  then show ?thesis
    using apply_all_store_entries [OF assms(5), of n "[]"] by (simp add: catalog_stores_def)
qed

lemma volume_stores_written:
  assumes "header_of v = Some h" and "has_vss_identifier h" and "header_catalog_offset h = first"
    and "first \<noteq> 0" and "catalog_written v bs first"
    and "distinct (map fst bs)" and "length bs \<le> MAX_CATALOG_BLOCKS"
    and "concat (map snd bs) = concat (map store_entries ss) @ replicate n Empty"
    and "\<forall>d \<in> set ss. store_wf d"
  shows "volume_stores v = ss"
  using catalog_stores_written [OF assms(5-9)] assms(1-4)
  by (simp add: volume_stores_def volume_has_header_def volume_catalog_offset_def)

section \<open>Properties\<close>

lemma open_volume_not_panic:
  assumes "read_seek ops"
  shows "open_volume ops r \<noteq> Panic"
  unfolding open_volume_def open_volume_run_def VolumeHeader_parse_ok
  by (intro panic_free walk_catalog_not_panic assms) simp_all

text \<open>Opening a volume never panics, whatever the reader returns: any bytes, any size, any
  I/O failure at any of its operations.\<close>
theorem open_never_panics:
  assumes "read_seek ops"
  shows "open_volume ops r \<noteq> Panic"
  by (rule open_volume_not_panic [OF assms])

theorem open_never_panics_witness: "open_volume cursor_ops (cursor_new [1, 2, 3]) \<noteq> Panic"
  by (rule open_never_panics [OF read_seek_cursor])

text \<open>C9: over a volume of any content, opening succeeds, and finds exactly what the abstract
  specification says: the header of the volume, its catalog offset, and the stores that result
  from applying the entries of the catalog chain in order.\<close>
theorem open_refines_spec:
  assumes "volume_reader ops invar contents position" and "reads invar contents v r"
  shows "\<exists>r'. reads invar contents v r' \<and>
     open_volume ops r = Ok
       \<lparr>reader = r', total_size = of_nat (length v), has_vss_header = volume_has_header v,
        catalog_offset = volume_catalog_offset v, stores = volume_stores v\<rparr>"
  by (rule open_volume_over [OF assms])

lemma cursor_reads:
  "length v \<le> isize_max \<Longrightarrow> reads cursor_invar cursor_data v (cursor_new v)"
  by (simp add: reads_def)

theorem open_refines_spec_witness:
  "\<exists>vol. open_volume cursor_ops (cursor_new [1, 2, 3]) = Ok vol \<and> total_size vol = 3 \<and> stores vol = []"
proof -
  have "reads cursor_invar cursor_data [1, 2, 3] (cursor_new [1, 2, 3])"
    by (rule cursor_reads) (simp add: isize_max_val)
  from open_refines_spec [OF volume_reader_cursor this] show ?thesis
    by (auto simp: volume_stores_def volume_has_header_def header_of_def)
qed

text \<open>C26: every enumerated store has a 16-byte identifier and either both of its offsets or
  neither (so the second missing-pointer check of a snapshot never fires), and there are at
  most 127 stores per catalog block walked, 520192 in all.\<close>
theorem open_stores_well_formed:
  assumes "read_seek ops" and "open_volume ops r = Ok vol"
  shows "(\<forall>d \<in> set (stores vol). store_wf d) \<and> store_count vol \<le> 520192"
proof -
  from open_volume_Ok [OF assms(2)] show ?thesis
  proof
    assume "\<exists>first r1 r2. walk_catalog ops first (total_size vol) r1 = (Ok (stores vol), r2)"
    then obtain first r1 r2 where w: "walk_catalog ops first (total_size vol) r1 = (Ok (stores vol), r2)"
      by blast
    show ?thesis
      using walk_catalog_wf [OF assms(1) w] walk_catalog_length [OF assms(1) w]
      by (simp add: store_count_def vss_consts)
  qed (simp add: store_count_def)
qed

theorem open_stores_well_formed_witness:
  "\<exists>vol. open_volume cursor_ops (cursor_new []) = Ok vol \<and> store_count vol \<le> 520192"
proof -
  have "reads cursor_invar cursor_data [] (cursor_new [])"
    by (rule cursor_reads) simp
  then obtain vol where vol: "open_volume cursor_ops (cursor_new []) = Ok vol"
    using open_volume_over [OF volume_reader_cursor] by blast
  with open_stores_well_formed [OF read_seek_cursor vol] show ?thesis by blast
qed

text \<open>C27: the stores are the type-0x02 entries of the catalog, all of them, in catalog order:
  a type-0x03 entry attaches offsets to a store and changes nothing else.\<close>
theorem stores_are_the_snapshots:
  assumes "volume_reader ops invar contents position" and "reads invar contents v r"
  shows "\<exists>ds. fst (walk_catalog ops first (of_nat (length v)) r) = Ok ds \<and>
    map core ds = snapshots (catalog_entries v first)"
proof -
  have "\<forall>e \<in> set (catalog_entries v first). valid_entry e"
    by (auto simp: catalog_entries_def intro: valid_block_entries)
  then have "map core (catalog_stores v first) = snapshots (catalog_entries v first)"
    by (simp add: catalog_stores_def core_apply_entries core_snapshots)
  with gives_fst [OF walk_catalog_volume [OF assms, of first]] show ?thesis by blast
qed

text \<open>C28: an offset attached to a store comes from a type-0x03 entry of the catalog that carries
  the identifier of that store, and both offsets come from the same entry.\<close>
theorem pointers_from_own_entries:
  assumes "volume_reader ops invar contents position" and "reads invar contents v r"
    and "fst (walk_catalog ops first (of_nat (length v)) r) = Ok ds"
    and "d \<in> set ds" and "store_header_offset d = Some h"
  shows "\<exists>b. store_bitmap_offset d = Some b \<and> StorePointer (store_id d) h b \<in> set (catalog_entries v first)"
proof -
  have "\<forall>e \<in> set (catalog_entries v first). valid_entry e"
    by (auto simp: catalog_entries_def intro: valid_block_entries)
  moreover have "ds = catalog_stores v first"
    using gives_fst [OF walk_catalog_volume [OF assms(1,2), of first]] assms(3) by simp
  ultimately have "pointed_by (set (catalog_entries v first)) d"
    using apply_entries_pointed [of "catalog_entries v first" "[]" "{}"] assms(4)
    by (simp add: catalog_stores_def)
  with assms(5) show ?thesis by (auto simp: pointed_by_def split: option.splits)
qed

text \<open>C29: the catalog walk visits at most 4096 blocks, none twice, each wholly inside the volume
  and carrying the identifier and record type of a catalog block, each named by the block
  before it; it stops before the cap only at an offset that is zero, was visited, leaves the
  volume or is no catalog block; and its result is that of the entries of these blocks, in order.\<close>
theorem catalog_chain_sound:
  assumes "volume_reader ops invar contents position" and "reads invar contents v r"
  shows "\<exists>offs. fst (walk_catalog ops first (of_nat (length v)) r) =
      Ok (fold apply_entry (concat (map (\<lambda>off. block_entries (block_at v off)) offs)) []) \<and>
    length offs \<le> 4096 \<and> distinct offs \<and> (offs \<noteq> [] \<longrightarrow> hd offs = first) \<and>
    list_all (\<lambda>off. off \<noteq> 0 \<and> in_volume v off \<and> accept_catalog (block_at v off)) offs \<and>
    list_all (\<lambda>i. offs ! Suc i = next_catalog (block_at v (offs ! i))) [0..<length offs - 1] \<and>
    (let nx = if offs = [] then first else next_catalog (block_at v (last offs)) in
     length offs = 4096 \<or> nx = 0 \<or> nx \<in> set offs \<or> \<not> in_volume v nx \<or> \<not> accept_catalog (block_at v nx))"
proof (intro exI conjI)
  let ?offs = "catalog_chain v first"
  show "fst (walk_catalog ops first (of_nat (length v)) r) =
      Ok (fold apply_entry (concat (map (\<lambda>off. block_entries (block_at v off)) ?offs)) [])"
    using gives_fst [OF walk_catalog_volume [OF assms, of first]]
    by (simp add: catalog_stores_def catalog_entries_def apply_entries_def)
  show len: "length ?offs \<le> 4096"
    using length_chain [of accept_catalog next_catalog v MAX_CATALOG_BLOCKS "{}" first]
    by (simp add: catalog_chain_def vss_consts)
  show "distinct ?offs" by (simp add: catalog_chain_def distinct_chain)
  show "?offs \<noteq> [] \<longrightarrow> hd ?offs = first"
    by (simp add: catalog_chain_def hd_chain)
  show "list_all (\<lambda>off. off \<noteq> 0 \<and> in_volume v off \<and> accept_catalog (block_at v off)) ?offs"
    by (auto simp: catalog_chain_def list_all_iff dest: chain_members)
  show "list_all (\<lambda>i. ?offs ! Suc i = next_catalog (block_at v (?offs ! i))) [0..<length ?offs - 1]"
    unfolding catalog_chain_def by (auto simp: list_all_iff intro!: chain_linked)
  show "let nx = if ?offs = [] then first else next_catalog (block_at v (last ?offs)) in
     length ?offs = 4096 \<or> nx = 0 \<or> nx \<in> set ?offs \<or> \<not> in_volume v nx \<or> \<not> accept_catalog (block_at v nx)"
  proof (cases "length ?offs = 4096")
    case False
    with len have "length ?offs < MAX_CATALOG_BLOCKS" by (simp add: vss_consts)
    from chain_maximal [OF catalog_chain_def this refl] show ?thesis
      unfolding Let_def by blast
  qed (simp add: Let_def)
qed

text \<open>C11: what was written is what is enumerated. A volume whose header names a catalog of linked
  blocks, holding for each store its type-0x02 entry and, if it has offsets, its type-0x03
  entry, then padding, opens to exactly these stores.\<close>
theorem catalog_roundtrip:
  assumes "volume_reader ops invar contents position" and "reads invar contents v r"
    and "header_of v = Some h" and "has_vss_identifier h" and "header_catalog_offset h = first"
    and "first \<noteq> 0" and "catalog_written v bs first"
    and "distinct (map fst bs)" and "length bs \<le> MAX_CATALOG_BLOCKS"
    and "concat (map snd bs) = concat (map store_entries ss) @ replicate n Empty"
    and "\<forall>d \<in> set ss. store_wf d"
  shows "\<exists>vol. open_volume ops r = Ok vol \<and> has_vss_header vol \<and> stores vol = ss"
  using open_volume_over [OF assms(1,2)] volume_stores_written [OF assms(3-11)] assms(3,4)
  by (auto simp: volume_has_header_def)

text \<open>A volume of 32 KiB with one store: the header at 0x1E00, the catalog block at 0x4000.\<close>

definition sample_store :: StoreDescriptor where
  "sample_store = \<lparr>store_id = replicate 16 7, volume_size = 32768, sequence = 1, snapshot_flags = 0x40,
     creation_time = 130000000000000000, store_header_offset = Some 0x8000,
     store_bitmap_offset = Some 0xC000\<rparr>"

definition sample_header :: VolumeHeader where
  "sample_header = \<lparr>has_vss_identifier = True, version = 1, record_type = 1, current_offset = 0x1E00,
     header_catalog_offset = 0x4000, maximum_size = 0, volume_identifier = replicate 16 0,
     storage_volume_identifier = replicate 16 0\<rparr>"

definition sample_entries :: "CatalogEntry list" where
  "sample_entries = store_entries sample_store @ replicate 125 Empty"

definition sample_volume :: bytes where
  "sample_volume = replicate 0x1E00 0 @ encode_volume_header sample_header @ replicate 0x2180 0 @
     encode_catalog_block 0 0x4000 0 sample_entries"

lemma sample_entries_ok:
  "length sample_entries = entries_per_block" "\<forall>e \<in> set sample_entries. valid_entry e"
  by (auto simp: sample_entries_def store_entries_def sample_store_def core_def
      entries_per_block_def vss_consts)

lemma sample_header_ok: "valid_volume_header sample_header"
  by (simp add: valid_volume_header_def sample_header_def)

lemma length_sample_volume: "length sample_volume = 32768"
  using length_encode_catalog_block [OF sample_entries_ok] volume_header.length_encode [OF sample_header_ok]
  by (simp add: sample_volume_def vss_consts)

lemma sample_volume_header: "header_of sample_volume = Some sample_header"
proof -
  have "subslice sample_volume 0x1E00 128 = encode_volume_header sample_header"
    using volume_header.length_encode [OF sample_header_ok]
    by (simp add: sample_volume_def subslice_append_right subslice_append_left)
  then show ?thesis
    using volume_header.parse_encode_exact [OF sample_header_ok] length_sample_volume
    by (simp add: header_of_def volume_header_of_def)
qed

lemma sample_volume_catalog: "catalog_written sample_volume [(0x4000, sample_entries)] 0x4000"
proof -
  have "block_at sample_volume 0x4000 = encode_catalog_block 0 0x4000 0 sample_entries"
    using volume_header.length_encode [OF sample_header_ok]
      length_encode_catalog_block [OF sample_entries_ok, of 0 "0x4000" 0]
    by (simp add: block_at_def sample_volume_def subslice_append_right vss_consts)
  moreover have "in_volume sample_volume 0x4000"
    using length_sample_volume by (simp add: in_volume_def vss_consts)
  ultimately show ?thesis using sample_entries_ok by auto
qed

lemma sample_volume_stores: "catalog_stores sample_volume 0x4000 = [sample_store]"
  by (rule catalog_stores_written [OF sample_volume_catalog, where n = 125])
    (simp_all add: sample_entries_def sample_store_def store_wf_def vss_consts)

lemma sample_volume_reads: "reads cursor_invar cursor_data sample_volume (cursor_new sample_volume)"
  by (rule cursor_reads) (simp add: length_sample_volume isize_max_val)

lemma sample_volume_walk:
  "fst (walk_catalog cursor_ops 0x4000 (of_nat (length sample_volume)) (cursor_new sample_volume)) =
     Ok [sample_store]"
  using gives_fst [OF walk_catalog_volume [OF volume_reader_cursor sample_volume_reads, of "0x4000"]]
  by (simp add: sample_volume_stores)

theorem stores_are_the_snapshots_witness:
  "map core [sample_store] = snapshots (catalog_entries sample_volume 0x4000)"
  using stores_are_the_snapshots [OF volume_reader_cursor sample_volume_reads, of "0x4000"]
  unfolding sample_volume_walk by auto

theorem pointers_from_own_entries_witness:
  "StorePointer (replicate 16 7) 0x8000 0xC000 \<in> set (catalog_entries sample_volume 0x4000)"
proof -
  have "sample_store \<in> set [sample_store]" and "store_header_offset sample_store = Some 0x8000"
    by (simp_all add: sample_store_def)
  from pointers_from_own_entries [OF volume_reader_cursor sample_volume_reads sample_volume_walk this]
  show ?thesis by (auto simp: sample_store_def)
qed

theorem catalog_chain_sound_witness:
  "\<exists>offs. Ok [sample_store] = (Ok (fold apply_entry
      (concat (map (\<lambda>off. block_entries (block_at sample_volume off)) offs)) []) ::
      (VssError, StoreDescriptor list) outcome) \<and> length offs \<le> 4096"
  using catalog_chain_sound [OF volume_reader_cursor sample_volume_reads, of "0x4000"]
  unfolding sample_volume_walk by blast

theorem catalog_roundtrip_witness:
  "\<exists>vol. open_volume cursor_ops (cursor_new sample_volume) = Ok vol \<and> has_vss_header vol \<and>
     stores vol = [sample_store]"
proof (rule catalog_roundtrip [OF volume_reader_cursor sample_volume_reads sample_volume_header
      _ _ _ sample_volume_catalog])
  show "concat (map snd [(0x4000 :: u64, sample_entries)]) =
      concat (map store_entries [sample_store]) @ replicate 125 Empty"
    by (simp add: sample_entries_def)
qed (simp_all add: sample_header_def sample_store_def store_wf_def vss_consts)

text \<open>Reading a store's information never panics over any reader, whatever the catalog, the
  store header and the store information hold, and changes nothing but the reader.\<close>
theorem store_info_never_panics:
  assumes "read_seek ops"
  shows "fst (store_info ops i vol) \<noteq> Panic \<and>
    (\<exists>r'. snd (store_info ops i vol) = vol\<lparr>reader := r'\<rparr>)"
proof
  show "fst (store_info ops i vol) \<noteq> Panic"
    unfolding store_info_def StoreBlockHeader_parse_ok StoreInfo_parse_ok Let_def
    by (intro panic_free) simp_all
qed (rule store_info_frame)

theorem store_info_never_panics_witness:
  "fst (store_info cursor_ops 0 \<lparr>reader = cursor_new [], total_size = u64_max, has_vss_header = True,
     catalog_offset = 0, stores = [sample_store]\<rparr>) \<noteq> Panic"
  using store_info_never_panics [OF read_seek_cursor] by blast

text \<open>C10: over a volume, \<open>store_info\<close> decides every case: an index past the last store, a store
  without a type-0x03 entry and a header that leaves the volume are their three errors, and
  anything else is decoded, from at most 1 MiB and never from past the end of the volume. No
  I/O error arises, and the reader is still over the same volume.\<close>
theorem store_info_refines_spec:
  assumes "volume_reader ops invar contents position"
    and "reads invar contents v (reader vol)" and "total_size vol = of_nat (length v)"
  shows "\<exists>r'. store_info ops i vol = (store_info_spec v (stores vol) i, vol\<lparr>reader := r'\<rparr>) \<and>
              reads invar contents v r'"
  by (rule store_info_over [OF assms])

theorem store_info_refines_spec_witness:
  "fst (store_info cursor_ops 0 \<lparr>reader = cursor_new sample_volume, total_size = 32768,
     has_vss_header = True, catalog_offset = 0x4000, stores = [sample_store]\<rparr>) =
   Err (StoreOffsetOutOfBounds 0 0x8000 32768)"
proof -
  let ?vol = "\<lparr>reader = cursor_new sample_volume, total_size = 32768, has_vss_header = True,
     catalog_offset = 0x4000, stores = [sample_store]\<rparr>"
  have r: "reads cursor_invar cursor_data sample_volume (reader ?vol)"
    by (simp add: reads_def length_sample_volume isize_max_val)
  have "fst (store_info cursor_ops 0 ?vol) = store_info_spec sample_volume (stores ?vol) 0"
    using store_info_refines_spec [OF volume_reader_cursor r, of 0]
    by (force simp: length_sample_volume)
  then show ?thesis
    by (simp add: store_info_spec_def sample_store_def length_sample_volume)
qed

text \<open>What the specification of \<open>store_info\<close> reads of an encoded store header and information.\<close>

lemma store_info_spec_encoded:
  assumes "i < length ds" and "store_header_offset (ds ! i) = Some h"
    and "valid_store_info info" and "length ua = 16" and "length ub = 4" and "length uc = 4"
    and "length (encode_store_info ua ub uc info) \<le> MAX_STORE_INFO_LEN"
    and "sbh_store_information_size hdr = of_nat (length (encode_store_info ua ub uc info))"
    and "v = pre @ encode_store_header hdr @ encode_store_info ua ub uc info @ post"
    and "length pre = unat h"
  shows "store_info_spec v ds i = Ok info"
proof -
  let ?e = "encode_store_info ua ub uc info"
  have hlen: "length (encode_store_header hdr) = 128" by (simp add: store_header.length_encode)
  have "subslice v (unat h) 128 = encode_store_header hdr"
    using assms(9,10) hlen by (simp add: subslice_append_right subslice_append_left)
  then have hdr: "store_header_of (subslice v (unat h) 128) = hdr"
    using store_header.parse_encode_exact [of hdr] by (simp add: store_header_of_def)
  have vlen: "length v = unat h + 128 + length ?e + length post"
    using assms(9,10) hlen by simp
  have "unat (of_nat (length ?e) :: u64) = length ?e"
    using assms(7) by (simp add: vss_consts unat_of_nat)
  then have len: "store_info_len v (unat h) = length ?e"
    using assms(7,8) by (simp add: store_info_len_def hdr vlen vss_consts)
  have "subslice v (unat h + 128) (length ?e) = ?e"
    using assms(9,10) hlen by (simp add: subslice_append_right subslice_append_left)
  moreover have "StoreInfo_parse ?e = Some info"
    using StoreInfo_parse_encode [OF assms(3-6), of "[]"] by simp
  ultimately show ?thesis
    using assms(1,2) len by (simp add: store_info_spec_def store_info_of_def vlen)
qed

text \<open>C30: the store information written after a store header, with the size the header states,
  is what \<open>store_info\<close> returns, the two machine names included.\<close>
theorem store_info_roundtrip:
  assumes "volume_reader ops invar contents position"
    and "reads invar contents v (reader vol)" and "total_size vol = of_nat (length v)"
    and "i < store_count vol" and "store_header_offset (stores vol ! i) = Some h"
    and "valid_store_info info" and "length ua = 16" and "length ub = 4" and "length uc = 4"
    and "length (encode_store_info ua ub uc info) \<le> MAX_STORE_INFO_LEN"
    and "sbh_store_information_size hdr = of_nat (length (encode_store_info ua ub uc info))"
    and "v = pre @ encode_store_header hdr @ encode_store_info ua ub uc info @ post"
    and "length pre = unat h"
  shows "fst (store_info ops i vol) = Ok info"
  using store_info_over [OF assms(1-3), of i]
    store_info_spec_encoded [OF assms(4) [unfolded store_count_def] assms(5-13)] by auto

definition sample_info :: StoreInfo where
  "sample_info = \<lparr>shadow_copy_id = replicate 16 1, shadow_copy_set_id = replicate 16 2,
     snapshot_context = 1, attributes = AttributeFlags 0x00020005,
     operating_machine = ascii ''HOST'', service_machine = [0x1D11E]\<rparr>"

definition sample_info_bytes :: bytes where
  "sample_info_bytes = encode_store_info (replicate 16 0) (replicate 4 0) (replicate 4 0) sample_info"

lemma sample_info_ok: "valid_store_info sample_info" "length sample_info_bytes = 80"
  by (simp_all add: valid_store_info_def valid_machine_def sample_info_def sample_info_bytes_def
      ascii_def is_scalar_def utf16le_bytes_def encode_utf16_def encode_char_def encode_store_info_def)

definition sample_store_header :: StoreBlockHeader where
  "sample_store_header = \<lparr>sbh_has_vss_identifier = True, sbh_version = 1, sbh_record_type = 4,
     sbh_relative_offset = 0, sbh_current_offset = 0x8000, sbh_next_offset = 0,
     sbh_store_information_size = 80\<rparr>"

definition sample_store_volume :: bytes where
  "sample_store_volume =
     replicate 0x8000 0 @ encode_store_header sample_store_header @ sample_info_bytes @ []"

lemma length_sample_store_volume: "length sample_store_volume = 0x80D0"
  by (simp add: sample_store_volume_def store_header.length_encode sample_info_ok)

theorem store_info_roundtrip_witness:
  "fst (store_info cursor_ops 0 \<lparr>reader = cursor_new sample_store_volume, total_size = 0x80D0,
      has_vss_header = True, catalog_offset = 0x4000, stores = [sample_store]\<rparr>) = Ok sample_info"
  by (rule store_info_roundtrip [OF volume_reader_cursor, where v = sample_store_volume
        and h = "0x8000" and pre = "replicate 0x8000 0" and post = "[]" and hdr = sample_store_header
        and ua = "replicate 16 0" and ub = "replicate 4 0" and uc = "replicate 4 0"])
    (simp_all add: reads_def length_sample_store_volume isize_max_val store_count_def
      sample_store_def sample_info_ok sample_store_volume_def sample_store_header_def vss_consts
      store_header.length_encode
      flip: sample_info_bytes_def)

end
