(* ===== verification/Vss_Reconstruct_Props.thy ===== *)
theory Vss_Reconstruct_Props
  imports Vss_Reconstruct_Spec Vss_Volume_Props "HOL-Library.Multiset"
begin

unbundle bit_operations_syntax

text \<open>
  The properties of the reconstruction: what a snapshot is built from, that reading it never
  panics and implements \<open>snapshot_byte\<close>, the cases the documentation lists, and the layout of
  a written diff area (\<open>encode_diff_block\<close>, \<open>diff_written\<close>) for the round trip.
\<close>

section \<open>Building a snapshot\<close>

lemma bitmap_loop_length:
  assumes "read_seek ops" and "build_bitmap_loop ops vs [] {} first 0 r = (Ok pieces, r')"
  shows "length pieces \<le> MAX_STORE_BLOCKS"
  using bitmap_walk.walk_measure [OF assms(1) _ assms(2), where m = length and c = 1] by simp

lemma build_bitmap_not_panic [panic_free]:
  assumes "read_seek ops"
  shows "fst (build_bitmap ops first vs r) \<noteq> Panic"
  unfolding build_bitmap_def Let_def
  by (rule and_then_not_panic [OF bitmap_walk.walk_not_panic [OF assms]])
    (use bitmap_loop_length [OF assms] in \<open>simp add: bitmap_capacity\<close>)

lemma build_block_map_not_panic [panic_free]:
  "read_seek ops \<Longrightarrow> fst (build_block_map ops first vs r) \<noteq> Panic"
  unfolding build_block_map_def by (rule diff.walk_not_panic)

lemma snapshot_state_frame: "\<exists>r'. snd (snapshot_state ops i vol) = vol\<lparr>reader := r'\<rparr>"
proof -
  have "\<exists>r'. vol = vol\<lparr>reader := r'\<rparr>" by (rule exI [of _ "reader vol"]) simp
  then show ?thesis
    by (auto simp: snapshot_state_def with_reader_def Let_def split: option.split prod.split)
qed

text \<open>Building a snapshot never panics over any reader, whatever the diff area and the bitmap
  chain hold, and changes nothing of the volume but its reader's position.\<close>
theorem snapshot_never_panics:
  assumes "read_seek ops"
  shows "fst (snapshot ops i vol) \<noteq> Panic \<and> (\<exists>r'. snd (snapshot_state ops i vol) = vol\<lparr>reader := r'\<rparr>)"
proof
  show "fst (snapshot ops i vol) \<noteq> Panic"
    unfolding snapshot_def snapshot_state_def Let_def
    by (intro panic_free assms)
qed (rule snapshot_state_frame)

theorem snapshot_never_panics_witness:
  "fst (snapshot cursor_ops 0 \<lparr>reader = cursor_new [1], total_size = u64_max, has_vss_header = True,
     catalog_offset = 0, stores = [sample_store]\<rparr>) \<noteq> Panic"
  using snapshot_never_panics [OF read_seek_cursor] by blast

text \<open>C8: over a volume, \<open>snapshot_state\<close> returns exactly the state the specification gives: an
  index past the last store and a store without pointers are its two errors; otherwise the
  block map groups the descriptors of the diff-area chain that starts one block after the store
  header, and the bitmap is that of the bitmap chain.\<close>
theorem snapshot_refines_spec:
  assumes "volume_reader ops invar contents position"
    and "reads invar contents v (reader vol)" and "total_size vol = of_nat (length v)"
  shows "\<exists>r'. snapshot_state ops i vol = (snapshot_state_spec v (stores vol) i, vol\<lparr>reader := r'\<rparr>) \<and>
              reads invar contents v r'"
  by (rule snapshot_state_over [OF assms])

theorem snapshot_refines_spec_witness:
  "fst (snapshot_state cursor_ops 0 \<lparr>reader = cursor_new [], total_size = 0,
     has_vss_header = True, catalog_offset = 0x4000, stores = [sample_store]\<rparr>) =
   Ok \<lparr>snapshot_volume_size = 0, block_map = Map.empty, bitmap = []\<rparr>"
proof -
  let ?vol = "\<lparr>reader = cursor_new [], total_size = 0,
     has_vss_header = True, catalog_offset = 0x4000, stores = [sample_store]\<rparr>"
  have "reads cursor_invar cursor_data [] (reader ?vol)" by (simp add: cursor_reads)
  from snapshot_refines_spec [OF volume_reader_cursor this, of 0]
  have "fst (snapshot_state cursor_ops 0 ?vol) = snapshot_state_spec [] [sample_store] 0"
    by auto
  moreover have none: "chain a f [] k {} off = []" for a f k off
    by (cases k) (simp_all add: in_volume_def vss_consts)
  ultimately show ?thesis
    by (simp add: snapshot_state_spec_def state_of_def sample_store_def diff_descriptors_def
        store_bitmap_def bitmap_pieces_def group_empty)
qed

text \<open>The block map gives for each block exactly the descriptors of the diff-area chain that
  name it, in the order of the chain and of the records inside each block, and no empty list.\<close>
theorem block_map_groups:
  assumes "volume_reader ops invar contents position" and "reads invar contents v r"
  shows "\<exists>m. fst (build_block_map ops first (of_nat (length v)) r) = Ok m \<and>
    (\<forall>k. m k \<noteq> Some [] \<and>
         (case m k of None \<Rightarrow> [] | Some ds \<Rightarrow> ds) =
           filter (\<lambda>d. original_offset d = k)
             (concat (map (\<lambda>off. block_descriptors (block_at v off))
                (chain accept_diff next_store_block v 1048576 {} first))))"
proof -
  have "fst (build_block_map ops first (of_nat (length v)) r) = Ok (group (diff_descriptors v first))"
    using gives_fst [OF build_block_map_volume [OF assms]] .
  then show ?thesis
    by (auto simp: group_def diff_descriptors_def vss_consts split: list.split)
qed

theorem block_map_groups_witness:
  "\<exists>m. fst (build_block_map cursor_ops 0 0 (cursor_new [])) = Ok m \<and> m 7 \<noteq> Some []"
  using block_map_groups [OF volume_reader_cursor cursor_reads [of "[]"], of 0] by auto

lemma length_concat_pieces:
  "\<forall>p \<in> set ps. length (snd p) = n \<Longrightarrow> length (concat (map snd ps)) = n * length ps"
  by (induction ps) simp_all

text \<open>The store bitmap is the payloads of the bitmap chain's blocks, each once, in ascending
  order of the relative offsets their headers give; 16256 bytes for each block.\<close>
theorem bitmap_in_offset_order:
  assumes "volume_reader ops invar contents position" and "reads invar contents v r"
  shows "\<exists>pieces. fst (build_bitmap ops first (of_nat (length v)) r) = Ok (concat (map snd pieces)) \<and>
    sorted (map fst pieces) \<and> mset pieces = mset (bitmap_pieces v first) \<and>
    length (concat (map snd pieces)) =
      16256 * length (chain accept_bitmap next_store_block v 1048576 {} first)"
proof (intro exI conjI)
  let ?ps = "sort_key fst (bitmap_pieces v first)"
  show "fst (build_bitmap ops first (of_nat (length v)) r) = Ok (concat (map snd ?ps))"
    using gives_fst [OF build_bitmap_volume [OF assms]] by (simp add: store_bitmap_def)
  have "\<forall>p \<in> set ?ps. length (snd p) = 16256"
    by (auto simp: bitmap_pieces_def bitmap_piece_def vss_consts dest: chain_members)
  then have "length (concat (map snd ?ps)) = 16256 * length ?ps"
    by (rule length_concat_pieces)
  then show "length (concat (map snd ?ps)) =
      16256 * length (chain accept_bitmap next_store_block v 1048576 {} first)"
    by (simp add: bitmap_pieces_def vss_consts)
qed simp_all

theorem bitmap_in_offset_order_witness:
  "\<exists>pieces :: (u64 \<times> bytes) list.
     fst (build_bitmap cursor_ops 0 0 (cursor_new [])) = Ok (concat (map snd pieces)) \<and>
     sorted (map fst pieces)"
proof -
  have r: "reads cursor_invar cursor_data [] (cursor_new [])" by (simp add: cursor_reads)
  have z: "of_nat (length ([] :: bytes)) = (0 :: u64)" by simp
  show ?thesis
    using bitmap_in_offset_order [OF volume_reader_cursor r, of 0, unfolded z] by blast
qed

section \<open>Reading a snapshot\<close>

text \<open>A store bitmap marks block \<open>n\<close> unallocated with bit \<open>n mod 8\<close> of byte \<open>n div 8\<close>; a
  block number past the bitmap reads as allocated.\<close>
lemma unallocated_bit:
  "is_unallocated st n =
     (unat n div 8 < length (bitmap st) \<and> bit (bitmap st ! (unat n div 8)) (unat n mod 8))"
  by (simp add: is_unallocated_def vec_get_def Let_def unat_div unat_mod bit_iff_and_push_bit_not_eq_0)

text \<open>Reading a block of a snapshot never panics over any reader and any snapshot state, and
  on success gives 16384 bytes; reading a range never panics for a buffer of any length, and
  keeps that length whether it succeeds or fails.\<close>
theorem snapshot_reads_never_panic:
  assumes "read_seek ops" and "length buf \<le> isize_max"
  shows "fst (Snapshot_read_block ops off s) \<noteq> Panic \<and>
    (\<forall>b s'. Snapshot_read_block ops off s = (Ok b, s') \<longrightarrow> length b = 16384) \<and>
    fst (Snapshot_read_at ops off buf s) \<noteq> Panic \<and>
    length (fst (snd (Snapshot_read_at ops off buf s))) = length buf"
  using read_block_safe [OF assms(1), of "state s" off "snapshot_reader s"]
    read_at_loop_safe [OF assms, of "state s" 0 off "snapshot_reader s"]
  by (cases "read_block ops (state s) off (snapshot_reader s)";
      cases "fst (read_block ops (state s) off (snapshot_reader s))";
      cases "read_at_loop ops (state s) 0 off buf (snapshot_reader s)";
      cases "fst (read_at_loop ops (state s) 0 off buf (snapshot_reader s))")
    (auto simp: Snapshot_read_block_def Snapshot_read_at_def read_at_def vss_consts)

definition empty_state :: "u64 \<Rightarrow> SnapshotState" where
  "empty_state n = \<lparr>snapshot_volume_size = n, block_map = Map.empty, bitmap = []\<rparr>"

theorem snapshot_reads_never_panic_witness:
  "fst (Snapshot_read_at cursor_ops 5 [1, 2, 3]
     \<lparr>snapshot_reader = cursor_new [9], state = empty_state u64_max\<rparr>) \<noteq> Panic"
  using snapshot_reads_never_panic [OF read_seek_cursor, of "[1, 2, 3]"]
  by (simp add: isize_max_val)

text \<open>Over a volume, reading the block that contains an offset succeeds and returns the block
  of the specification: each of its bytes is \<open>snapshot_byte\<close> at its position.\<close>
lemma read_block_refines_spec:
  assumes "volume_reader ops invar contents position" and "reads invar contents v (snapshot_reader s)"
    and "snapshot_volume_size (state s) = of_nat (length v)"
  shows "\<exists>r'. Snapshot_read_block ops off s =
    (Ok (map (snapshot_byte v (state s))
           [unat off div BLOCK_SIZE * BLOCK_SIZE..<unat off div BLOCK_SIZE * BLOCK_SIZE + BLOCK_SIZE]),
     s\<lparr>snapshot_reader := r'\<rparr>) \<and> reads invar contents v r'"
proof -
  have "map (snapshot_byte v (state s)) [n..<n + BLOCK_SIZE] =
      map (\<lambda>i. snapshot_byte v (state s) (n + i)) [0..<BLOCK_SIZE]" for n
    by (rule nth_equalityI) simp_all
  then show ?thesis
    using read_block_volume [OF assms, of off]
    by (auto simp: Snapshot_read_block_def snapshot_block_def elim!: givesE)
qed

text \<open>C6: over a volume, reading a range at any offset and of any length succeeds and fills the
  buffer with the bytes of the specification at its positions, across any number of blocks; a
  range that runs past \<open>2\<^sup>6\<^sup>4\<close>, where the cursor saturates, gets the byte at the last position
  again for each byte that is left.\<close>
theorem read_at_every_range:
  assumes "volume_reader ops invar contents position" and "reads invar contents v (snapshot_reader s)"
    and "snapshot_volume_size (state s) = of_nat (length v)" and "length buf \<le> isize_max"
  shows "\<exists>r'. Snapshot_read_at ops off buf s =
    (Ok (), (map (\<lambda>j. snapshot_byte v (state s) (min (unat off + j) (2 ^ 64 - 1))) [0..<length buf],
             s\<lparr>snapshot_reader := r'\<rparr>)) \<and> reads invar contents v r'"
  using read_at_volume_any [OF assms, of off] unfolding clip_def
  by (auto simp: Snapshot_read_at_def)

lemma small_volume_zeros: "snapshot_byte [9] (empty_state n) p = 0"
proof -
  have "p mod BLOCK_SIZE < BLOCK_SIZE" by (simp add: vss_consts)
  then show ?thesis
    by (simp add: snapshot_byte_def empty_state_def is_unallocated_def vec_get_def
        block_or_zeros_def in_volume_def vss_consts Let_def)
qed

theorem read_at_every_range_witness:
  "\<exists>s'. Snapshot_read_at cursor_ops u64_max [7, 7] \<lparr>snapshot_reader = cursor_new [9], state = empty_state 1\<rparr> =
     (Ok (), ([0, 0], s'))"
proof -
  let ?s = "\<lparr>snapshot_reader = cursor_new [9], state = empty_state 1\<rparr>"
  have "reads cursor_invar cursor_data [9] (snapshot_reader ?s)"
    by (simp add: cursor_reads isize_max_val)
  from read_at_every_range [OF volume_reader_cursor this, of "[7, 7]" u64_max] show ?thesis
    by (auto simp: isize_max_val small_volume_zeros [of 1, unfolded empty_state_def] empty_state_def
        numeral_2_eq_2)
qed

text \<open>Over a volume, reading any range below \<open>2\<^sup>6\<^sup>4\<close> succeeds and fills the buffer with the
  bytes of the specification at its positions, across any number of blocks.\<close>
theorem read_at_refines_spec:
  assumes "volume_reader ops invar contents position" and "reads invar contents v (snapshot_reader s)"
    and "snapshot_volume_size (state s) = of_nat (length v)"
    and "length buf \<le> isize_max" and "unat off + length buf \<le> 2 ^ 64"
  shows "\<exists>r'. Snapshot_read_at ops off buf s =
    (Ok (), (map (snapshot_byte v (state s)) [unat off..<unat off + length buf],
             s\<lparr>snapshot_reader := r'\<rparr>)) \<and> reads invar contents v r'"
proof -
  have "map (snapshot_byte v (state s)) [n..<n + length buf] =
      map (\<lambda>j. snapshot_byte v (state s) (n + j)) [0..<length buf]" for n
    by (rule nth_equalityI) simp_all
  with read_at_volume [OF assms] show ?thesis
    by (auto simp: Snapshot_read_at_def)
qed

theorem read_at_refines_spec_witness:
  "\<exists>s'. Snapshot_read_at cursor_ops 0 [7, 7] \<lparr>snapshot_reader = cursor_new [9], state = empty_state 1\<rparr> =
     (Ok (), ([0, 0], s'))"
proof -
  let ?s = "\<lparr>snapshot_reader = cursor_new [9], state = empty_state 1\<rparr>"
  have zero: "snapshot_byte [9] (empty_state 1) p = 0" if "p < BLOCK_SIZE" for p
    using that by (simp add: snapshot_byte_def empty_state_def is_unallocated_def vec_get_def
        block_or_zeros_def in_volume_def vss_consts Let_def)
  have two: "[0..<2] = [0, Suc 0]" by (simp add: numeral_2_eq_2)
  have "reads cursor_invar cursor_data [9] (snapshot_reader ?s)"
    by (simp add: cursor_reads isize_max_val)
  from read_at_refines_spec [OF volume_reader_cursor this, of "[7, 7]" 0] obtain r'
    where "Snapshot_read_at cursor_ops 0 [7, 7] ?s =
      (Ok (), (map (snapshot_byte [9] (empty_state 1)) [0..<2], ?s\<lparr>snapshot_reader := r'\<rparr>))"
    by (auto simp: isize_max_val empty_state_def two)
  then show ?thesis
    by (simp add: two zero vss_consts)
qed

section \<open>The cases of a block\<close>

lemma read_block_result:
  assumes "volume_reader ops invar contents position" and "reads invar contents v (snapshot_reader s)"
    and "snapshot_volume_size (state s) = of_nat (length v)"
  shows "fst (Snapshot_read_block ops off s) = Ok (snapshot_block v (state s) (unat off div BLOCK_SIZE))"
  using read_block_volume [OF assms, of off]
  by (auto simp: Snapshot_read_block_def elim!: givesE)

text \<open>C7: the cases of a block. With no descriptor it is zeros if the bitmap marks it unallocated,
  and otherwise the live block, or zeros if that does not lie wholly inside the volume. With
  descriptors, its base is the store block of the last plain one, or the live block if there is
  none, wherever the block itself lies; and each byte comes from the last overlay that is in
  range and selects its 512-byte sub-block, or else from the base.\<close>
theorem read_block_cases:
  assumes "volume_reader ops invar contents position" and "reads invar contents v (snapshot_reader s)"
    and "snapshot_volume_size (state s) = of_nat (length v)"
    and "base = of_nat (unat off div BLOCK_SIZE * BLOCK_SIZE)"
  shows
    "(block_map (state s) base = None \<longrightarrow> is_unallocated (state s) (off div of_nat BLOCK_SIZE) \<longrightarrow>
        fst (Snapshot_read_block ops off s) = Ok (replicate 16384 0)) \<and>
     (block_map (state s) base = None \<longrightarrow> \<not> is_unallocated (state s) (off div of_nat BLOCK_SIZE) \<longrightarrow>
        fst (Snapshot_read_block ops off s) =
          Ok (if in_volume v base then block_at v base else replicate 16384 0)) \<and>
     (\<forall>ds. block_map (state s) base = Some ds \<longrightarrow> ds \<noteq> [] \<longrightarrow> filter is_patch ds = [] \<longrightarrow>
        fst (Snapshot_read_block ops off s) =
          Ok (block_or_zeros v (case filter is_plain ds of [] \<Rightarrow> base | ps \<Rightarrow> store_offset (last ps)))) \<and>
     (\<forall>ds b i. block_map (state s) base = Some ds \<longrightarrow> ds \<noteq> [] \<longrightarrow> i < 16384 \<longrightarrow>
        fst (Snapshot_read_block ops off s) = Ok b \<longrightarrow>
        b ! i = (case filter (patches_byte v i) ds of
                   [] \<Rightarrow> block_or_zeros v (base_source ds base) ! i
                 | os \<Rightarrow> block_at v (store_offset (last os)) ! i))"
proof -
  let ?bn = "unat off div BLOCK_SIZE"
  note result = read_block_result [OF assms(1-3), of off]
  note blk = snapshot_block_cases [OF assms(4), of v "state s"]
  have bn: "off div of_nat BLOCK_SIZE = of_nat ?bn" by (rule block_words(1))
  have size: "16384 = BLOCK_SIZE" by (simp add: vss_consts)
  have byte: "snapshot_block v (state s) ?bn ! i = mapped_byte v ds base i"
    if "block_map (state s) base = Some ds" "ds \<noteq> []" "i < BLOCK_SIZE" for ds i
    using that by (simp add: blk patches_nth mapped_byte_def)
  show ?thesis
    unfolding bn result size
    using byte by (auto simp: blk block_or_zeros_def base_source_def mapped_byte_def)
qed

text \<open>Applying an overlay to a block never panics; byte \<open>i\<close> of the result is the overlay's if
  bit \<open>i div 512\<close> of the allocation bitmap is set, and the base's otherwise.\<close>
lemma overlay_selects_sub_blocks:
  assumes "length out = 16384" and "length overlay = 16384"
  shows "\<exists>res. apply_overlay out overlay bm = Some res \<and> length res = 16384 \<and>
    list_all (\<lambda>i. res ! i = (if bit bm (i div 512) then overlay ! i else out ! i)) [0..<16384]"
  using apply_overlay_ok [of out overlay bm] assms
  by (auto simp: overlay_block_def vss_consts list_all_iff)

section \<open>A diff area written to disk\<close>

definition encode_diff_block :: "StoreBlockHeader \<Rightarrow> BlockDescriptor list \<Rightarrow> bytes" where
  "encode_diff_block hdr ds =
     encode_store_header hdr @ concat (map encode_descriptor ds) @
     replicate (32 * (records_per_block - length ds)) 0"

text \<open>The volume \<open>v\<close> holds the chain of diff-area blocks \<open>bs\<close> from \<open>first\<close> on.\<close>

fun diff_written :: "bytes \<Rightarrow> (u64 \<times> BlockDescriptor list) list \<Rightarrow> u64 \<Rightarrow> bool" where
  "diff_written v [] first \<longleftrightarrow> first = 0"
| "diff_written v ((off, ds) # bs) first \<longleftrightarrow>
     first = off \<and> off \<noteq> 0 \<and> in_volume v off \<and>
     length ds \<le> records_per_block \<and> (\<forall>d \<in> set ds. \<not> zero_record (encode_descriptor d)) \<and>
     (\<exists>hdr. sbh_record_type hdr = DIFF_AREA_RECORD_TYPE \<and>
            block_at v off = encode_diff_block hdr ds \<and> diff_written v bs (sbh_next_offset hdr))"

lemma records_per_block_val: "records_per_block = 508"
  by (simp add: records_per_block_def vss_consts)

lemma length_encode_store_header [simp]: "length (encode_store_header hdr) = 128"
  by (simp add: store_header.length_encode)

lemma length_encode_diff_block:
  "length ds \<le> records_per_block \<Longrightarrow> length (encode_diff_block hdr ds) = BLOCK_SIZE"
  using descriptor.length_table [of ds]
  by (simp add: encode_diff_block_def records_per_block_val vss_consts)

lemma store_header_of_encode: "store_header_of (encode_store_header hdr @ rest) = hdr"
  using store_header.parse_encode [of hdr rest] by (simp add: store_header_of_def)

lemma descriptor_of_encode [simp]: "descriptor_of (encode_descriptor d) = d"
  using descriptor.parse_encode_exact [of d] by (simp add: descriptor_of_def)

lemma encode_diff_header:
  assumes "b = encode_diff_block hdr ds"
  shows "accept_diff b = (sbh_record_type hdr = DIFF_AREA_RECORD_TYPE)" "next_store_block b = sbh_next_offset hdr"
  unfolding assms
  by (simp_all add: accept_diff_def next_store_block_def encode_diff_block_def store_header_of_encode)

lemma encode_diff_records:
  assumes "length ds \<le> records_per_block"
  shows "map (record_at (encode_diff_block hdr ds)) [0..<records_per_block] =
    map encode_descriptor ds @ replicate (records_per_block - length ds) (replicate 32 0)"
    (is "_ = ?rhs")
proof (rule nth_equalityI)
  fix i assume "i < length (map (record_at (encode_diff_block hdr ds)) [0..<records_per_block])"
  then have i: "i < records_per_block" by simp
  let ?tab = "concat (map encode_descriptor ds)"
  let ?pad = "replicate (32 * (records_per_block - length ds)) 0 :: bytes"
  have r: "record_at (encode_diff_block hdr ds) i = subslice (?tab @ ?pad) (i * 32) 32"
    by (simp add: record_at_def encode_diff_block_def subslice_append_right vss_consts)
  have tab: "length ?tab = length ds * 32" using descriptor.length_table [of ds] by simp
  show "map (record_at (encode_diff_block hdr ds)) [0..<records_per_block] ! i = ?rhs ! i"
  proof (cases "i < length ds")
    case True
    with r i show ?thesis
      using descriptor.subslice_table [of ds i ?pad] by (simp add: nth_append)
  next
    case False
    then have "subslice (?tab @ ?pad) (i * 32) 32 = subslice ?pad (32 * (i - length ds)) 32"
      using tab by (simp add: subslice_append_right algebra_simps diff_mult_distrib2)
    also have "\<dots> = replicate 32 0"
      by (rule subslice_replicate) (use i False in auto)
    finally show ?thesis using r i False by (simp add: nth_append)
  qed
qed (use assms in simp)

lemma block_descriptors_encode:
  assumes "length ds \<le> records_per_block" and "\<forall>d \<in> set ds. \<not> zero_record (encode_descriptor d)"
  shows "block_descriptors (encode_diff_block hdr ds) = ds"
proof -
  have "takeWhile (\<lambda>x. \<not> zero_record x) (replicate n (replicate 32 0)) = []" for n
    by (cases n) (simp_all add: zero_record_def list_all_iff)
  then have "takeWhile (\<lambda>x. \<not> zero_record x)
      (map encode_descriptor ds @ replicate (records_per_block - length ds) (replicate 32 0)) =
      map encode_descriptor ds"
    using assms(2) by (subst takeWhile_append2) auto
  then show ?thesis
    by (simp add: block_descriptors_def encode_diff_records [OF assms(1)] comp_def)
qed

lemma linked_diff:
  "diff_written v bs first \<Longrightarrow> linked accept_diff next_store_block v (map fst bs) first"
proof (induction bs arbitrary: first)
  case (Cons b bs)
  obtain off ds where b: "b = (off, ds)" by (cases b)
  with Cons.prems obtain hdr where
    "block_at v off = encode_diff_block hdr ds" "sbh_record_type hdr = DIFF_AREA_RECORD_TYPE"
    "diff_written v bs (sbh_next_offset hdr)" by auto
  with Cons b show ?case by (simp add: encode_diff_header)
qed simp

lemma diff_written_descriptors:
  assumes "diff_written v bs first" and "distinct (map fst bs)" and "length bs \<le> MAX_STORE_BLOCKS"
  shows "diff_descriptors v first = concat (map snd bs)"
proof -
  have "chain accept_diff next_store_block v MAX_STORE_BLOCKS {} first = map fst bs"
    by (rule chain_of_linked [OF linked_diff [OF assms(1)]]) (use assms(2,3) in simp_all)
  moreover have "concat (map (\<lambda>off. block_descriptors (block_at v off)) (map fst bs)) = concat (map snd bs)"
    using assms(1)
    by (induction bs arbitrary: first) (auto simp: block_descriptors_encode)
  ultimately show ?thesis by (simp add: diff_descriptors_def)
qed

text \<open>C12: what was written is what is found. Descriptors laid out over a chain of diff-area blocks,
  up to 508 in each, none of them all zeros, come back as the block map: for each block the
  descriptors that name it, in the order they were written.\<close>
theorem diff_area_roundtrip:
  assumes "volume_reader ops invar contents position" and "reads invar contents v r"
    and "diff_written v bs first" and "distinct (map fst bs)" and "length bs \<le> 1048576"
  shows "fst (build_block_map ops first (of_nat (length v)) r) = Ok (group (concat (map snd bs)))"
  using gives_fst [OF build_block_map_volume [OF assms(1,2), of first]] assms(5)
    diff_written_descriptors [OF assms(3,4)]
  by (simp add: vss_consts)

text \<open>A volume of three blocks: the second lists one plain descriptor, that block 0 is kept in
  the third.\<close>

definition sample_descriptor :: BlockDescriptor where
  "sample_descriptor = \<lparr>original_offset = 0, relative_store_offset = 0x4000, store_offset = 0x8000,
     flags = BlockDescriptorFlags 0, allocation_bitmap = 0\<rparr>"

definition sample_diff_header :: StoreBlockHeader where
  "sample_diff_header = \<lparr>sbh_has_vss_identifier = True, sbh_version = 1, sbh_record_type = 3,
     sbh_relative_offset = 0, sbh_current_offset = 0x4000, sbh_next_offset = 0,
     sbh_store_information_size = 0\<rparr>"

definition sample_diff_volume :: bytes where
  "sample_diff_volume = replicate BLOCK_SIZE 1 @
     encode_diff_block sample_diff_header [sample_descriptor] @ replicate BLOCK_SIZE 2"

lemma sample_descriptor_nonzero: "\<not> zero_record (encode_descriptor sample_descriptor)"
proof
  assume "zero_record (encode_descriptor sample_descriptor)"
  then have "encode_descriptor sample_descriptor = replicate 32 0"
    by (intro replicate_eqI) (auto simp: zero_record_def list_all_iff)
  then have "descriptor_of (replicate 32 0) = sample_descriptor"
    by (metis descriptor_of_encode)
  moreover have "store_offset (descriptor_of (replicate 32 0)) = 0"
    by (simp add: descriptor_of_def BlockDescriptor_parse_fields field_def)
  ultimately show False by (simp add: sample_descriptor_def)
qed

lemma length_sample_diff_volume: "length sample_diff_volume = 3 * BLOCK_SIZE"
  by (simp add: sample_diff_volume_def length_encode_diff_block records_per_block_val)

lemma sample_diff_written: "diff_written sample_diff_volume [(0x4000, [sample_descriptor])] 0x4000"
proof -
  have "block_at sample_diff_volume 0x4000 = encode_diff_block sample_diff_header [sample_descriptor]"
    using length_encode_diff_block [of "[sample_descriptor]" sample_diff_header]
    by (simp add: block_at_def sample_diff_volume_def subslice_append_right subslice_append_left
        records_per_block_val vss_consts)
  moreover have "in_volume sample_diff_volume 0x4000"
    by (simp add: in_volume_def length_sample_diff_volume vss_consts)
  moreover have "sbh_record_type sample_diff_header = DIFF_AREA_RECORD_TYPE"
    "sbh_next_offset sample_diff_header = 0"
    by (simp_all add: sample_diff_header_def vss_consts)
  ultimately show ?thesis
    using sample_descriptor_nonzero by (auto simp: records_per_block_val)
qed

lemma sample_diff_reads: "reads cursor_invar cursor_data sample_diff_volume (cursor_new sample_diff_volume)"
  by (rule cursor_reads) (simp add: length_sample_diff_volume vss_consts)

theorem diff_area_roundtrip_witness:
  "fst (build_block_map cursor_ops 0x4000 (of_nat (length sample_diff_volume))
     (cursor_new sample_diff_volume)) = Ok (group [sample_descriptor])"
  using diff_area_roundtrip [OF volume_reader_cursor sample_diff_reads sample_diff_written]
  by simp

text \<open>The sample volume: its first block reads as the kept one, its second as the live one.\<close>

theorem read_block_cases_witness:
  "fst (Snapshot_read_block cursor_ops 5
     \<lparr>snapshot_reader = cursor_new sample_diff_volume,
      state = \<lparr>snapshot_volume_size = of_nat (length sample_diff_volume),
               block_map = group [sample_descriptor], bitmap = []\<rparr>\<rparr>) = Ok (replicate BLOCK_SIZE 2)"
proof -
  let ?s = "\<lparr>snapshot_reader = cursor_new sample_diff_volume,
      state = \<lparr>snapshot_volume_size = of_nat (length sample_diff_volume),
               block_map = group [sample_descriptor], bitmap = []\<rparr>\<rparr>"
  have r: "reads cursor_invar cursor_data sample_diff_volume (snapshot_reader ?s)"
    using sample_diff_reads by simp
  have base: "(0 :: u64) = of_nat (unat (5 :: u64) div BLOCK_SIZE * BLOCK_SIZE)"
    by (simp add: vss_consts)
  have "block_map (state ?s) 0 = Some [sample_descriptor]"
    by (simp add: group_def sample_descriptor_def)
  moreover have "filter is_patch [sample_descriptor] = []" "filter is_plain [sample_descriptor] = [sample_descriptor]"
    by (simp_all add: is_patch_def is_plain_def sample_descriptor_def flag_bits)
  moreover have "block_or_zeros sample_diff_volume (store_offset sample_descriptor) = replicate BLOCK_SIZE 2"
    using length_encode_diff_block [of "[sample_descriptor]" sample_diff_header]
    by (simp add: block_or_zeros_def in_volume_def length_sample_diff_volume sample_descriptor_def
        block_at_def sample_diff_volume_def subslice_append_right records_per_block_val vss_consts)
  ultimately show ?thesis
    using read_block_cases [OF volume_reader_cursor r _ base] by simp
qed

end
