(* ===== verification/Vss_Copy_On_Write.thy ===== *)
theory Vss_Copy_On_Write
  imports Vss_Reconstruct_Props
begin

text \<open>
  Why the reconstruction is right. \<open>cow_step\<close> is the abstract writer the on-disk format records:
  before a sub-block of the snapshot is overwritten for the first time, its content is copied to
  a store block, either with its whole block, under a plain descriptor, or by itself, under an
  overlay descriptor whose bitmap selects it. The property of this theory is that after any
  sequence of copies and writes \<open>read_at\<close> still returns the content at the time of the snapshot.
  \<open>cow_write\<close> is the writer that copies whole blocks only. The writer is the operating system's
  and not part of the program: it is the specification the program is proved against, as the
  format documentation describes it.
\<close>

definition overwrite :: "bytes \<Rightarrow> nat \<Rightarrow> bytes \<Rightarrow> bytes" where
  "overwrite v p b = take p v @ b @ drop (p + length b) v"

definition vblock :: "bytes \<Rightarrow> nat \<Rightarrow> bytes" where
  "vblock v n = subslice v (n * BLOCK_SIZE) BLOCK_SIZE"

definition has_block :: "bytes \<Rightarrow> nat \<Rightarrow> bool" where
  "has_block v n \<longleftrightarrow> n * BLOCK_SIZE + BLOCK_SIZE \<le> length v"

definition block_offset :: "nat \<Rightarrow> u64" where
  "block_offset n = of_nat (n * BLOCK_SIZE)"

text \<open>A descriptor that contributes data, and whether the descriptors of block \<open>n\<close> hold a copy of
  its sub-block \<open>j\<close>.\<close>

definition in_use :: "BlockDescriptor \<Rightarrow> bool" where
  "in_use d \<longleftrightarrow> is_plain d \<or> is_patch d"

definition patched :: "BlockDescriptor list \<Rightarrow> nat \<Rightarrow> nat \<Rightarrow> bool" where
  "patched ds n j \<longleftrightarrow>
     (\<exists>d \<in> set ds. is_patch d \<and> original_offset d = block_offset n \<and> bit (allocation_bitmap d) j)"

definition copied_whole :: "BlockDescriptor list \<Rightarrow> nat \<Rightarrow> bool" where
  "copied_whole ds n \<longleftrightarrow> (\<exists>d \<in> set ds. is_plain d \<and> original_offset d = block_offset n)"

definition saved :: "BlockDescriptor list \<Rightarrow> nat \<Rightarrow> nat \<Rightarrow> bool" where
  "saved ds n j \<longleftrightarrow> copied_whole ds n \<or> patched ds n j"

definition store_blocks :: "BlockDescriptor list \<Rightarrow> u64 set" where
  "store_blocks ds = store_offset ` {d \<in> set ds. in_use d}"

text \<open>\<open>U\<close> is the set of the block numbers the snapshot protects; the store lies outside it.\<close>

inductive cow_step ::
    "nat set \<Rightarrow> bytes \<times> BlockDescriptor list \<Rightarrow> bytes \<times> BlockDescriptor list \<Rightarrow> bool" for U where
  copy_block: "n \<in> U \<Longrightarrow> has_block v n \<Longrightarrow> \<not> copied_whole ds n \<Longrightarrow>
    s \<notin> U \<Longrightarrow> has_block v s \<Longrightarrow> block_offset s \<notin> store_blocks ds \<Longrightarrow>
    is_plain d \<Longrightarrow> original_offset d = block_offset n \<Longrightarrow> store_offset d = block_offset s \<Longrightarrow>
    cow_step U (v, ds) (overwrite v (s * BLOCK_SIZE) (vblock v n), ds @ [d])"
| copy_sub_blocks: "n \<in> U \<Longrightarrow> has_block v n \<Longrightarrow> length c = BLOCK_SIZE \<Longrightarrow>
    \<forall>j. bit (allocation_bitmap d) j \<longrightarrow> \<not> saved ds n j \<Longrightarrow>
    \<forall>i < BLOCK_SIZE. bit (allocation_bitmap d) (i div SUB_BLOCK_SIZE) \<longrightarrow> c ! i = vblock v n ! i \<Longrightarrow>
    s \<notin> U \<Longrightarrow> has_block v s \<Longrightarrow> block_offset s \<notin> store_blocks ds \<Longrightarrow>
    is_patch d \<Longrightarrow> original_offset d = block_offset n \<Longrightarrow> store_offset d = block_offset s \<Longrightarrow>
    cow_step U (v, ds) (overwrite v (s * BLOCK_SIZE) c, ds @ [d])"
| other_record: "\<not> in_use d \<Longrightarrow> cow_step U (v, ds) (v, ds @ [d])"
| protected_write: "n \<in> U \<Longrightarrow> has_block v n \<Longrightarrow> length b = BLOCK_SIZE \<Longrightarrow>
    \<forall>i < BLOCK_SIZE. b ! i \<noteq> vblock v n ! i \<longrightarrow> saved ds n (i div SUB_BLOCK_SIZE) \<Longrightarrow>
    cow_step U (v, ds) (overwrite v (n * BLOCK_SIZE) b, ds)"
| free_write: "n \<notin> U \<Longrightarrow> has_block v n \<Longrightarrow> length b = BLOCK_SIZE \<Longrightarrow>
    block_offset n \<notin> store_blocks ds \<Longrightarrow>
    cow_step U (v, ds) (overwrite v (n * BLOCK_SIZE) b, ds)"

section \<open>Blocks and writes\<close>

lemma length_overwrite [simp]:
  "has_block v n \<Longrightarrow> length b = BLOCK_SIZE \<Longrightarrow> length (overwrite v (n * BLOCK_SIZE) b) = length v"
  by (simp add: overwrite_def has_block_def)

lemma has_block_overwrite [simp]:
  "has_block v n \<Longrightarrow> length b = BLOCK_SIZE \<Longrightarrow>
   has_block (overwrite v (n * BLOCK_SIZE) b) m = has_block v m"
  by (simp add: has_block_def overwrite_def)

lemma length_vblock [simp]: "has_block v n \<Longrightarrow> length (vblock v n) = BLOCK_SIZE"
  by (simp add: vblock_def has_block_def)

lemma vblock_overwrite:
  assumes "has_block v n" and "length b = BLOCK_SIZE" and "has_block v m"
  shows "vblock (overwrite v (n * BLOCK_SIZE) b) m = (if m = n then b else vblock v m)"
proof (cases m n rule: linorder_cases)
  case less
  then have "Suc m * BLOCK_SIZE \<le> n * BLOCK_SIZE" by (intro mult_le_mono1) simp
  with less assms show ?thesis
    by (simp add: vblock_def overwrite_def has_block_def subslice_append_left)
      (simp add: subslice_def take_drop min_absorb1)
next
  case equal
  with assms show ?thesis
    by (simp add: vblock_def overwrite_def has_block_def subslice_append_right subslice_append_left)
next
  case greater
  then have "Suc n * BLOCK_SIZE \<le> m * BLOCK_SIZE" by (intro mult_le_mono1) simp
  with greater assms show ?thesis
    by (simp add: vblock_def overwrite_def has_block_def subslice_append_right)
      (simp add: subslice_def)
qed

lemma unat_block_offset:
  assumes "has_block v n" and "length v < 2 ^ 64"
  shows "unat (block_offset n) = n * BLOCK_SIZE"
proof -
  have "n * BLOCK_SIZE < 2 ^ 64"
    using assms unfolding has_block_def by linarith
  then show ?thesis by (simp add: block_offset_def unat_of_nat del: of_nat_mult)
qed

lemma block_offset_inj:
  assumes "has_block v n" and "has_block v m" and "length v < 2 ^ 64"
    and "block_offset n = block_offset m"
  shows "n = m"
proof -
  have "n * BLOCK_SIZE = m * BLOCK_SIZE"
    using unat_block_offset [OF assms(1,3)] unat_block_offset [OF assms(2,3)]
    unfolding assms(4) by (rule trans [OF sym])
  then show ?thesis by (simp add: BLOCK_SIZE_def)
qed

lemma block_or_zeros_vblock:
  assumes "has_block v n" and "length v < 2 ^ 64"
  shows "block_or_zeros v (block_offset n) = vblock v n"
  using assms unat_block_offset [OF assms]
  by (simp add: block_or_zeros_def in_volume_def block_at_def vblock_def has_block_def)

section \<open>The invariant of the writer\<close>

lemma has_block_length: "length v = length v0 \<Longrightarrow> has_block v n = has_block v0 n"
  by (simp add: has_block_def)

lemma saved_append [simp]:
  "copied_whole (ds @ [d]) n \<longleftrightarrow> copied_whole ds n \<or> is_plain d \<and> original_offset d = block_offset n"
  "patched (ds @ [d]) n j \<longleftrightarrow>
     patched ds n j \<or> is_patch d \<and> original_offset d = block_offset n \<and> bit (allocation_bitmap d) j"
  by (auto simp: copied_whole_def patched_def)

text \<open>What the store block of a descriptor holds: the sub-blocks an overlay selects, and of a plain
  one those that no overlay of its block overrides.\<close>

definition gives_sub_block :: "BlockDescriptor list \<Rightarrow> nat \<Rightarrow> BlockDescriptor \<Rightarrow> nat \<Rightarrow> bool" where
  "gives_sub_block ds n d j \<longleftrightarrow>
     is_patch d \<and> bit (allocation_bitmap d) j \<or> is_plain d \<and> \<not> patched ds n j"

definition kept ::
    "nat set \<Rightarrow> bytes \<Rightarrow> bytes \<Rightarrow> BlockDescriptor list \<Rightarrow> BlockDescriptor \<Rightarrow> bool" where
  "kept U v0 v ds d \<longleftrightarrow>
     (\<exists>n s. n \<in> U \<and> has_block v0 n \<and> s \<notin> U \<and> has_block v0 s \<and>
        original_offset d = block_offset n \<and> store_offset d = block_offset s \<and>
        (\<forall>i < BLOCK_SIZE. gives_sub_block ds n d (i div SUB_BLOCK_SIZE) \<longrightarrow>
           vblock v s ! i = vblock v0 n ! i))"

definition cow_invariant :: "nat set \<Rightarrow> bytes \<Rightarrow> bytes \<times> BlockDescriptor list \<Rightarrow> bool" where
  "cow_invariant U v0 w \<longleftrightarrow>
     (case w of (v, ds) \<Rightarrow>
        length v = length v0 \<and>
        (\<forall>d \<in> set ds. in_use d \<longrightarrow> kept U v0 v ds d) \<and>
        (\<forall>n \<in> U. has_block v0 n \<longrightarrow> (\<forall>i < BLOCK_SIZE. \<not> saved ds n (i div SUB_BLOCK_SIZE) \<longrightarrow>
           vblock v n ! i = vblock v0 n ! i)))"

text \<open>A write that does not touch the store block of a descriptor leaves what it kept, and so do
  descriptors appended.\<close>

lemma kept_overwrite:
  assumes "kept U v0 v ds d" and "length v = length v0"
    and "has_block v n" and "length b = BLOCK_SIZE"
    and "n \<in> U \<or> store_offset d \<noteq> block_offset n"
  shows "kept U v0 (overwrite v (n * BLOCK_SIZE) b) ds d"
proof -
  from assms(1) obtain m s where d: "m \<in> U" "has_block v0 m" "s \<notin> U" "has_block v0 s"
    "original_offset d = block_offset m" "store_offset d = block_offset s"
    "\<forall>i < BLOCK_SIZE. gives_sub_block ds m d (i div SUB_BLOCK_SIZE) \<longrightarrow> vblock v s ! i = vblock v0 m ! i"
    by (auto simp: kept_def)
  have "s \<noteq> n" using assms(5) d by auto
  then have "vblock (overwrite v (n * BLOCK_SIZE) b) s = vblock v s"
    using d assms(3,4) by (simp add: vblock_overwrite has_block_length [OF assms(2)])
  with d show ?thesis
    unfolding kept_def by (intro exI [of _ m] exI [of _ s]) simp
qed

lemma store_blocksD: "e \<in> set ds \<Longrightarrow> in_use e \<Longrightarrow> p \<notin> store_blocks ds \<Longrightarrow> store_offset e \<noteq> p"
  by (auto simp: store_blocks_def)

lemma kept_append: "kept U v0 v ds d \<Longrightarrow> kept U v0 v (ds @ [e]) d"
  unfolding kept_def gives_sub_block_def by auto


lemma cow_live:
  assumes "cow_invariant U v0 (v, ds)" and "n \<in> U" and "has_block v n" and "i < BLOCK_SIZE"
    and "\<not> saved ds n (i div SUB_BLOCK_SIZE)"
  shows "vblock v n ! i = vblock v0 n ! i"
proof -
  have "length v = length v0" using assms(1) by (simp add: cow_invariant_def)
  then have "has_block v0 n" using assms(3) by (simp add: has_block_def)
  with assms show ?thesis by (simp add: cow_invariant_def)
qed

text \<open>Copying into a fresh store block under the descriptor \<open>d\<close>.\<close>

lemma cow_copy_invariant:
  assumes inv: "cow_invariant U v0 (v, ds)" and n: "n \<in> U" "has_block v n"
    and s: "s \<notin> U" "has_block v s" "block_offset s \<notin> store_blocks ds"
    and d: "original_offset d = block_offset n" "store_offset d = block_offset s"
    and c: "length c = BLOCK_SIZE" "\<forall>i < BLOCK_SIZE. gives_sub_block (ds @ [d]) n d (i div SUB_BLOCK_SIZE) \<longrightarrow>
      c ! i = vblock v0 n ! i"
  shows "cow_invariant U v0 (overwrite v (s * BLOCK_SIZE) c, ds @ [d])"
proof -
  let ?v = "overwrite v (s * BLOCK_SIZE) c"
  have len: "length v = length v0" and kept: "\<And>e. e \<in> set ds \<Longrightarrow> in_use e \<Longrightarrow> kept U v0 v ds e"
    and live: "\<And>m i. m \<in> U \<Longrightarrow> has_block v0 m \<Longrightarrow> i < BLOCK_SIZE \<Longrightarrow>
      \<not> saved ds m (i div SUB_BLOCK_SIZE) \<Longrightarrow> vblock v m ! i = vblock v0 m ! i"
    using inv by (auto simp: cow_invariant_def)
  note hb = has_block_length [OF len]
  have "kept U v0 ?v (ds @ [d]) e" if "e \<in> set ds" "in_use e" for e
    by (intro kept_append kept_overwrite [OF kept [OF that] len s(2) c(1)])
      (use store_blocksD [OF that s(3)] in blast)
  moreover have "kept U v0 ?v (ds @ [d]) d"
    using n s c d unfolding kept_def
    by (intro exI [of _ n] exI [of _ s]) (simp add: vblock_overwrite hb)
  moreover have "vblock ?v m ! i = vblock v0 m ! i"
    if "m \<in> U" "has_block v0 m" "i < BLOCK_SIZE" "\<not> saved (ds @ [d]) m (i div SUB_BLOCK_SIZE)" for m i
    using live [of m i] that s c by (auto simp: saved_def vblock_overwrite hb)
  ultimately show ?thesis
    using len s(2) c(1) by (auto simp: cow_invariant_def)
qed

text \<open>A write that needs no copy: of what is saved, or outside the protected blocks.\<close>

lemma cow_overwrite_invariant:
  assumes inv: "cow_invariant U v0 (v, ds)" and n: "has_block v n" "length b = BLOCK_SIZE"
    and ok: "n \<in> U \<and> (\<forall>i < BLOCK_SIZE. b ! i \<noteq> vblock v n ! i \<longrightarrow> saved ds n (i div SUB_BLOCK_SIZE)) \<or>
         n \<notin> U \<and> block_offset n \<notin> store_blocks ds"
  shows "cow_invariant U v0 (overwrite v (n * BLOCK_SIZE) b, ds)"
proof -
  have len: "length v = length v0" and kept: "\<And>e. e \<in> set ds \<Longrightarrow> in_use e \<Longrightarrow> kept U v0 v ds e"
    and live: "\<And>m i. m \<in> U \<Longrightarrow> has_block v0 m \<Longrightarrow> i < BLOCK_SIZE \<Longrightarrow>
      \<not> saved ds m (i div SUB_BLOCK_SIZE) \<Longrightarrow> vblock v m ! i = vblock v0 m ! i"
    using inv by (auto simp: cow_invariant_def)
  note hb = has_block_length [OF len]
  have "kept U v0 (overwrite v (n * BLOCK_SIZE) b) ds e" if "e \<in> set ds" "in_use e" for e
    by (rule kept_overwrite [OF kept [OF that] len n])
      (use store_blocksD [OF that] ok in blast)
  moreover have "vblock (overwrite v (n * BLOCK_SIZE) b) m ! i = vblock v0 m ! i"
    if "m \<in> U" "has_block v0 m" "i < BLOCK_SIZE" "\<not> saved ds m (i div SUB_BLOCK_SIZE)" for m i
    using live [OF that] that ok n by (auto simp: vblock_overwrite hb)
  ultimately show ?thesis
    using len n by (auto simp: cow_invariant_def)
qed

lemma cow_step_invariant:
  assumes "cow_step U w w'" and "cow_invariant U v0 w"
  shows "cow_invariant U v0 w'"
  using assms(1)
proof cases
  case (copy_block n v ds s d)
  then have inv: "cow_invariant U v0 (v, ds)" and "\<not> is_patch d"
    using assms(2) by (simp_all add: is_plain_def is_patch_def)
  have "vblock v n ! i = vblock v0 n ! i"
    if "i < BLOCK_SIZE" "gives_sub_block (ds @ [d]) n d (i div SUB_BLOCK_SIZE)" for i
  proof (rule cow_live [OF inv copy_block(3,4) that(1)])
    show "\<not> saved ds n (i div SUB_BLOCK_SIZE)"
      using that(2) \<open>\<not> is_patch d\<close> copy_block(5) by (simp add: gives_sub_block_def saved_def)
  qed
  then show ?thesis
    unfolding copy_block(2) using copy_block(4)
    by (intro cow_copy_invariant [OF inv copy_block(3,4,6,7,8,10,11)]) simp_all
next
  case (copy_sub_blocks n v c d ds s)
  then have inv: "cow_invariant U v0 (v, ds)" and "\<not> is_plain d"
    using assms(2) by (simp_all add: is_plain_def is_patch_def)
  have "c ! i = vblock v0 n ! i"
    if "i < BLOCK_SIZE" "gives_sub_block (ds @ [d]) n d (i div SUB_BLOCK_SIZE)" for i
  proof -
    have bit: "bit (allocation_bitmap d) (i div SUB_BLOCK_SIZE)"
      using that(2) \<open>\<not> is_plain d\<close> by (simp add: gives_sub_block_def)
    with copy_sub_blocks(6) have "\<not> saved ds n (i div SUB_BLOCK_SIZE)" by blast
    from cow_live [OF inv copy_sub_blocks(3,4) that(1) this] bit that(1) copy_sub_blocks(7)
    show ?thesis by simp
  qed
  then show ?thesis
    unfolding copy_sub_blocks(2)
    by (intro cow_copy_invariant [OF inv copy_sub_blocks(3,4,8,9,10,12,13,5)]) simp
next
  case (other_record d v ds)
  then have "\<not> is_plain d" "\<not> is_patch d" by (simp_all add: in_use_def)
  with other_record assms(2) show ?thesis
    by (auto simp: cow_invariant_def saved_def intro: kept_append)
next
  case (protected_write n v b ds)
  with assms(2) show ?thesis by (auto intro: cow_overwrite_invariant)
next
  case (free_write n v b ds)
  with assms(2) show ?thesis by (auto intro: cow_overwrite_invariant)
qed

lemma cow_steps_invariant:
  assumes "(cow_step U)\<^sup>*\<^sup>* (v0, []) w"
  shows "cow_invariant U v0 w"
  using assms
proof induction
  case base
  then show ?case by (simp add: cow_invariant_def)
next
  case (step w w')
  then show ?case using cow_step_invariant by blast
qed

section \<open>The snapshot is the volume at its time\<close>

lemma kept_byte:
  assumes inv: "cow_invariant U v0 (v, ds)" and "length v0 < 2 ^ 64"
    and d: "d \<in> set ds" "in_use d" "original_offset d = block_offset n"
    and n: "has_block v0 n" and i: "i < BLOCK_SIZE" "gives_sub_block ds n d (i div SUB_BLOCK_SIZE)"
  shows "in_volume v (store_offset d) \<and> block_at v (store_offset d) ! i = vblock v0 n ! i"
proof -
  have len: "length v = length v0" and "kept U v0 v ds d"
    using inv d by (auto simp: cow_invariant_def)
  then obtain m s where m: "has_block v0 m" "original_offset d = block_offset m" and
    s: "has_block v0 s" "store_offset d = block_offset s" and
    copy: "\<forall>i < BLOCK_SIZE. gives_sub_block ds m d (i div SUB_BLOCK_SIZE) \<longrightarrow> vblock v s ! i = vblock v0 m ! i"
    by (auto simp: kept_def)
  have "m = n" using block_offset_inj [OF m(1) n assms(2)] m(2) d(3) by simp
  moreover have "unat (block_offset s) = s * BLOCK_SIZE" by (rule unat_block_offset [OF s(1) assms(2)])
  ultimately show ?thesis
    using s copy i len by (simp add: in_volume_def block_at_def has_block_def vblock_def)
qed

lemma cow_snapshot_byte:
  assumes inv: "cow_invariant U v0 (v, ds)" and fits: "length v0 < 2 ^ 64"
    and map: "block_map st = group ds" and n: "n \<in> U" "has_block v0 n"
    and alloc: "\<not> is_unallocated st (of_nat n)" and i: "i < BLOCK_SIZE"
  shows "snapshot_byte v st (n * BLOCK_SIZE + i) = vblock v0 n ! i"
proof -
  let ?j = "i div SUB_BLOCK_SIZE"
  define es where "es = filter (\<lambda>d. original_offset d = block_offset n) ds"
  have es: "set es = {d \<in> set ds. original_offset d = block_offset n}" by (simp add: es_def)
  have len: "length v = length v0" using inv by (simp add: cow_invariant_def)
  have live: "block_or_zeros v (block_offset n) ! i = vblock v0 n ! i" if "\<not> saved ds n ?j"
    using cow_live [OF inv n(1) _ i that] block_or_zeros_vblock [of v n] n(2) fits len
    by (simp add: has_block_length [OF len])
  have byte: "mapped_byte v es (block_offset n) i = vblock v0 n ! i"
  proof (cases "filter (patches_byte v i) es" rule: rev_cases)
    case (snoc os d)
    then have "d \<in> set (filter (patches_byte v i) es)" by simp
    then have d: "d \<in> set ds" "original_offset d = block_offset n" "is_patch d" "bit (allocation_bitmap d) ?j"
      by (auto simp: es patches_byte_def)
    then have "block_at v (store_offset d) ! i = vblock v0 n ! i"
      using kept_byte [OF inv fits d(1) _ d(2) n(2) i] by (simp add: in_use_def gives_sub_block_def)
    moreover obtain e es' where es': "os @ [d] = e # es'" by (cases os) auto
    moreover have "last (e # es') = d" unfolding es' [symmetric] by simp
    ultimately show ?thesis using snoc by (simp add: mapped_byte_def)
  next
    case Nil
    have none: "\<not> patched ds n ?j"
    proof
      assume "patched ds n ?j"
      then obtain d where d: "d \<in> set es" "is_patch d" "bit (allocation_bitmap d) ?j"
        by (auto simp: patched_def es)
      then have "patches_byte v i d"
        using kept_byte [OF inv fits _ _ _ n(2) i, of d]
        by (simp add: es patches_byte_def in_use_def gives_sub_block_def)
      with Nil d show False by (auto simp: filter_empty_conv)
    qed
    show ?thesis
    proof (cases "filter is_plain es" rule: rev_cases)
      case Nil': Nil
      then have "\<not> copied_whole ds n" by (auto simp: copied_whole_def filter_empty_conv es)
      with none live Nil Nil' show ?thesis by (simp add: mapped_byte_def base_source_def saved_def)
    next
      case (snoc ps d)
      then have "d \<in> set (filter is_plain es)" by simp
      then have d: "d \<in> set ds" "original_offset d = block_offset n" "is_plain d" by (auto simp: es)
      then have "block_or_zeros v (store_offset d) ! i = vblock v0 n ! i"
        using kept_byte [OF inv fits d(1) _ d(2) n(2) i] none
        by (simp add: in_use_def gives_sub_block_def block_or_zeros_def)
      moreover obtain e es' where es': "ps @ [d] = e # es'" by (cases ps) auto
      moreover have "last (e # es') = d" unfolding es' [symmetric] by simp
      ultimately show ?thesis using Nil snoc by (simp add: mapped_byte_def base_source_def)
    qed
  qed
  have pos: "(n * BLOCK_SIZE + i) div BLOCK_SIZE = n" "(n * BLOCK_SIZE + i) mod BLOCK_SIZE = i"
    using i by simp_all
  have base: "of_nat (n * BLOCK_SIZE) = block_offset n" by (simp only: block_offset_def)
  show ?thesis
  proof (cases es)
    case Nil
    then have "\<not> saved ds n ?j"
      using es by (auto simp: saved_def copied_whole_def patched_def)
    with live alloc Nil map show ?thesis
      unfolding snapshot_byte_def Let_def pos base by (simp add: group_def flip: es_def)
  next
    case (Cons e es')
    with byte map show ?thesis
      unfolding snapshot_byte_def Let_def pos base by (simp add: group_def flip: es_def)
  qed
qed

lemma cow_invariant_range:
  assumes inv: "cow_invariant U v0 (v, ds)" and "length v0 < 2 ^ 64"
    and "block_map st = group ds" and "\<forall>n \<in> U. \<not> is_unallocated st (of_nat n)"
    and "\<forall>p. off \<le> p \<longrightarrow> p < off + n \<longrightarrow> p div BLOCK_SIZE \<in> U \<and> has_block v0 (p div BLOCK_SIZE)"
    and "off + n \<le> length v0"
  shows "map (\<lambda>j. snapshot_byte v st (off + j)) [0..<n] = subslice v0 off n"
proof -
  have byte: "snapshot_byte v st p = v0 ! p" if "off \<le> p" "p < off + n" for p
  proof -
    let ?n = "p div BLOCK_SIZE" and ?i = "p mod BLOCK_SIZE"
    have i: "?i < BLOCK_SIZE" by (simp add: vss_consts)
    have n: "?n \<in> U" "has_block v0 ?n" using assms(5) that by auto
    have "snapshot_byte v st (?n * BLOCK_SIZE + ?i) = vblock v0 ?n ! ?i"
      using cow_snapshot_byte [OF inv assms(2,3) n _ i] assms(4) n by simp
    then show ?thesis
      using n(2) i by (simp add: vblock_def has_block_def)
  qed
  show ?thesis by (rule nth_equalityI) (use assms(6) byte in auto)
qed

lemmas cow_snapshot_range = cow_invariant_range [OF cow_steps_invariant]

section \<open>The writer that copies whole blocks\<close>

inductive cow_write ::
    "nat set \<Rightarrow> bytes \<times> BlockDescriptor list \<Rightarrow> bytes \<times> BlockDescriptor list \<Rightarrow> bool" for U where
  first_write: "n \<in> U \<Longrightarrow> has_block v n \<Longrightarrow> length b = BLOCK_SIZE \<Longrightarrow>
    block_offset n \<notin> original_offset ` set ds \<Longrightarrow>
    s \<notin> U \<Longrightarrow> has_block v s \<Longrightarrow> block_offset s \<notin> store_offset ` set ds \<Longrightarrow>
    is_plain d \<Longrightarrow> original_offset d = block_offset n \<Longrightarrow> store_offset d = block_offset s \<Longrightarrow>
    cow_write U (v, ds)
      (overwrite (overwrite v (s * BLOCK_SIZE) (vblock v n)) (n * BLOCK_SIZE) b, ds @ [d])"
| later_write: "n \<in> U \<Longrightarrow> has_block v n \<Longrightarrow> length b = BLOCK_SIZE \<Longrightarrow>
    block_offset n \<in> original_offset ` set ds \<Longrightarrow>
    cow_write U (v, ds) (overwrite v (n * BLOCK_SIZE) b, ds)"
| other_write: "n \<notin> U \<Longrightarrow> has_block v n \<Longrightarrow> length b = BLOCK_SIZE \<Longrightarrow>
    block_offset n \<notin> store_offset ` set ds \<Longrightarrow>
    cow_write U (v, ds) (overwrite v (n * BLOCK_SIZE) b, ds)"

lemma cow_write_steps:
  assumes "cow_write U (v, ds) w" and "\<forall>d \<in> set ds. is_plain d"
  shows "(cow_step U)\<^sup>*\<^sup>* (v, ds) w \<and> (\<forall>d \<in> set (snd w). is_plain d)"
  using assms(1)
proof cases
  case (first_write n b s d)
  have "cow_step U (v, ds) (overwrite v (s * BLOCK_SIZE) (vblock v n), ds @ [d])"
    by (rule copy_block) (use first_write in \<open>auto simp: copied_whole_def store_blocks_def intro: rev_image_eqI\<close>)
  moreover have "cow_step U (overwrite v (s * BLOCK_SIZE) (vblock v n), ds @ [d]) w"
    unfolding first_write(1)
    by (rule protected_write) (use first_write in \<open>auto simp: saved_def\<close>)
  ultimately show ?thesis using first_write assms(2) by auto
next
  case (later_write n b)
  then have "copied_whole ds n" using assms(2) by (auto simp: copied_whole_def)
  then have "cow_step U (v, ds) w"
    unfolding later_write(1) using later_write by (intro protected_write) (simp_all add: saved_def)
  then show ?thesis using later_write assms(2) by auto
next
  case (other_write n b)
  then have "cow_step U (v, ds) w"
    unfolding other_write(1) by (intro free_write) (auto simp: store_blocks_def)
  then show ?thesis using other_write assms(2) by auto
qed

lemma cow_writes_steps:
  assumes "(cow_write U)\<^sup>*\<^sup>* (v0, []) w"
  shows "(cow_step U)\<^sup>*\<^sup>* (v0, []) w \<and> (\<forall>d \<in> set (snd w). is_plain d)"
  using assms
proof induction
  case (step w w')
  with cow_write_steps [of U "fst w" "snd w" w'] show ?case by auto
qed simp

section \<open>The properties\<close>

text \<open>C3: a snapshot does not change. Take a volume, then copy and write in any order, whole blocks
  or single sub-blocks, such that each sub-block of a protected block is copied under a plain or
  an overlay descriptor before it first changes, and copied once. If the block map holds the
  descriptors in the order they were appended, reading any range of protected blocks through the
  snapshot returns the bytes the volume had at the start.\<close>
theorem snapshot_survives_cow_steps:
  assumes "volume_reader ops invar contents position" and "reads invar contents v (snapshot_reader s)"
    and "snapshot_volume_size (state s) = of_nat (length v)"
    and "(cow_step U)\<^sup>*\<^sup>* (v0, []) (v, ds)" and "length v0 < 2 ^ 64"
    and "block_map (state s) = group ds"
    and "\<forall>n \<in> U. \<not> is_unallocated (state s) (of_nat n)"
    and "\<forall>p. unat off \<le> p \<longrightarrow> p < unat off + length buf \<longrightarrow>
           p div BLOCK_SIZE \<in> U \<and> has_block v0 (p div BLOCK_SIZE)"
    and "length buf \<le> isize_max" and "unat off + length buf \<le> length v0"
  shows "\<exists>s'. Snapshot_read_at ops off buf s = (Ok (), (subslice v0 (unat off) (length buf), s'))"
  using read_at_volume [OF assms(1-3,9), of off] assms(5,10)
    cow_snapshot_range [OF assms(4-8,10)] by (auto simp: Snapshot_read_at_def)

text \<open>The same for the writer that copies whole blocks only, each first write to a protected
  block preceded by the copy of the block.\<close>
theorem snapshot_survives_writes:
  assumes "volume_reader ops invar contents position" and "reads invar contents v (snapshot_reader s)"
    and "snapshot_volume_size (state s) = of_nat (length v)"
    and "(cow_write U)\<^sup>*\<^sup>* (v0, []) (v, ds)" and "length v0 < 2 ^ 64"
    and "block_map (state s) = group ds"
    and "\<forall>n \<in> U. \<not> is_unallocated (state s) (of_nat n)"
    and "\<forall>p. unat off \<le> p \<longrightarrow> p < unat off + length buf \<longrightarrow>
           p div BLOCK_SIZE \<in> U \<and> has_block v0 (p div BLOCK_SIZE)"
    and "length buf \<le> isize_max" and "unat off + length buf \<le> length v0"
  shows "\<exists>s'. Snapshot_read_at ops off buf s = (Ok (), (subslice v0 (unat off) (length buf), s'))"
  using read_at_volume [OF assms(1-3,9), of off] assms(5,10)
    cow_snapshot_range [OF conjunct1 [OF cow_writes_steps [OF assms(4)]] assms(5-8,10)]
  by (auto simp: Snapshot_read_at_def)

definition sample_before :: bytes where
  "sample_before = replicate BLOCK_SIZE 2 @ replicate (2 * BLOCK_SIZE) 0"

lemma sample_writes: "(cow_write {0})\<^sup>*\<^sup>* (sample_before, []) (sample_diff_volume, [sample_descriptor])"
proof -
  let ?v1 = "replicate BLOCK_SIZE 1 @ replicate BLOCK_SIZE 0 @ replicate BLOCK_SIZE 2 :: bytes"
  have v1: "overwrite (overwrite sample_before (2 * BLOCK_SIZE) (vblock sample_before 0))
      (0 * BLOCK_SIZE) (replicate BLOCK_SIZE 1) = ?v1"
    by (simp add: overwrite_def sample_before_def vblock_def subslice_append_left)
  have "cow_write {0} (sample_before, [])
      (overwrite (overwrite sample_before (2 * BLOCK_SIZE) (vblock sample_before 0))
        (0 * BLOCK_SIZE) (replicate BLOCK_SIZE 1), [] @ [sample_descriptor])"
    by (rule first_write)
      (simp_all add: has_block_def sample_before_def sample_descriptor_def block_offset_def
        is_plain_def flag_bits vss_consts)
  moreover have "cow_write {0} (?v1, [sample_descriptor])
      (overwrite ?v1 (1 * BLOCK_SIZE) (encode_diff_block sample_diff_header [sample_descriptor]),
       [sample_descriptor])"
    by (rule other_write)
      (simp_all add: has_block_def length_encode_diff_block records_per_block_val
        sample_descriptor_def block_offset_def vss_consts)
  moreover have "overwrite ?v1 (1 * BLOCK_SIZE) (encode_diff_block sample_diff_header [sample_descriptor]) =
      sample_diff_volume"
    by (simp add: overwrite_def sample_diff_volume_def length_encode_diff_block records_per_block_val)
  ultimately show ?thesis
    unfolding v1 by (auto intro: rtranclp.rtrancl_into_rtrancl)
qed

theorem snapshot_survives_writes_witness:
  "\<exists>s'. Snapshot_read_at cursor_ops 5 [0, 0, 0]
     \<lparr>snapshot_reader = cursor_new sample_diff_volume,
      state = \<lparr>snapshot_volume_size = of_nat (length sample_diff_volume),
               block_map = group [sample_descriptor], bitmap = []\<rparr>\<rparr> = (Ok (), ([2, 2, 2], s'))"
proof -
  let ?s = "\<lparr>snapshot_reader = cursor_new sample_diff_volume,
      state = \<lparr>snapshot_volume_size = of_nat (length sample_diff_volume),
               block_map = group [sample_descriptor], bitmap = []\<rparr>\<rparr>"
  have r: "reads cursor_invar cursor_data sample_diff_volume (snapshot_reader ?s)"
    using sample_diff_reads by simp
  have "subslice sample_before 5 3 = [2, 2, 2]"
    by (simp add: sample_before_def subslice_append_left vss_consts numeral_3_eq_3)
  moreover have "\<exists>s'. Snapshot_read_at cursor_ops 5 [0, 0, 0] ?s =
      (Ok (), (subslice sample_before (unat (5 :: u64)) (length [0 :: u8, 0, 0]), s'))"
    by (rule snapshot_survives_writes [OF volume_reader_cursor r _ sample_writes])
      (simp_all add: sample_before_def is_unallocated_def vec_get_def has_block_def vss_consts)
  ultimately show ?thesis by (simp add: numeral_3_eq_3)
qed

text \<open>A first sub-block copied under an overlay descriptor and then overwritten.\<close>

definition overlay_descriptor :: BlockDescriptor where
  "overlay_descriptor = \<lparr>original_offset = 0, relative_store_offset = 0, store_offset = 0x8000,
     flags = BlockDescriptorFlags 2, allocation_bitmap = 1\<rparr>"

definition overlay_copy :: bytes where
  "overlay_copy = replicate 512 2 @ replicate (BLOCK_SIZE - 512) 9"

definition sample_overlaid :: bytes where
  "sample_overlaid = replicate 512 1 @ replicate (BLOCK_SIZE - 512) 2 @ replicate BLOCK_SIZE 0 @ overlay_copy"

lemma overlay_steps: "(cow_step {0})\<^sup>*\<^sup>* (sample_before, []) (sample_overlaid, [overlay_descriptor])"
proof -
  let ?v1 = "replicate BLOCK_SIZE 2 @ replicate BLOCK_SIZE 0 @ overlay_copy"
  let ?b = "replicate 512 1 @ replicate (BLOCK_SIZE - 512) 2 :: bytes"
  have len: "length overlay_copy = BLOCK_SIZE" by (simp add: overlay_copy_def vss_consts)
  have old: "vblock (replicate BLOCK_SIZE 2 @ x) 0 = replicate BLOCK_SIZE 2" for x
    by (simp add: vblock_def subslice_append_left)
  have before: "vblock sample_before 0 = replicate BLOCK_SIZE 2"
    by (simp only: sample_before_def old)
  have "cow_step {0} (sample_before, [])
      (overwrite sample_before (2 * BLOCK_SIZE) overlay_copy, [] @ [overlay_descriptor])"
  proof (rule copy_sub_blocks [of 0])
    show "\<forall>i < BLOCK_SIZE. bit (allocation_bitmap overlay_descriptor) (i div SUB_BLOCK_SIZE) \<longrightarrow>
        overlay_copy ! i = vblock sample_before 0 ! i"
      by (auto simp: overlay_descriptor_def overlay_copy_def before bit_1_iff
          nth_append div_eq_0_iff vss_consts)
  qed (simp_all add: has_block_def sample_before_def overlay_descriptor_def block_offset_def len
      is_patch_def flag_bits saved_def copied_whole_def patched_def store_blocks_def vss_consts)
  moreover have "overwrite sample_before (2 * BLOCK_SIZE) overlay_copy = ?v1"
    by (simp add: overwrite_def sample_before_def len)
  moreover have "cow_step {0} (?v1, [overlay_descriptor])
      (overwrite ?v1 (0 * BLOCK_SIZE) ?b, [overlay_descriptor])"
  proof (rule protected_write)
    show "\<forall>i < BLOCK_SIZE. ?b ! i \<noteq> vblock ?v1 0 ! i \<longrightarrow> saved [overlay_descriptor] 0 (i div SUB_BLOCK_SIZE)"
      unfolding old
      by (auto simp: nth_append saved_def patched_def overlay_descriptor_def block_offset_def
          is_patch_def flag_bits bit_1_iff div_eq_0_iff vss_consts)
  qed (simp_all add: has_block_def len vss_consts)
  moreover have "overwrite ?v1 (0 * BLOCK_SIZE) ?b = sample_overlaid"
    by (simp add: overwrite_def sample_overlaid_def vss_consts)
  ultimately show ?thesis by (auto intro: rtranclp.rtrancl_into_rtrancl)
qed

theorem snapshot_survives_cow_steps_witness:
  "\<exists>s'. Snapshot_read_at cursor_ops 511 [0, 0]
     \<lparr>snapshot_reader = cursor_new sample_overlaid,
      state = \<lparr>snapshot_volume_size = 0xC000, block_map = group [overlay_descriptor], bitmap = []\<rparr>\<rparr> =
     (Ok (), ([2, 2], s')) \<and> sample_overlaid ! 511 = 1"
proof -
  let ?s = "\<lparr>snapshot_reader = cursor_new sample_overlaid,
      state = \<lparr>snapshot_volume_size = 0xC000, block_map = group [overlay_descriptor], bitmap = []\<rparr>\<rparr>"
  have len: "length sample_overlaid = 3 * BLOCK_SIZE"
    by (simp add: sample_overlaid_def overlay_copy_def vss_consts)
  have r: "reads cursor_invar cursor_data sample_overlaid (snapshot_reader ?s)"
    using len by (simp add: cursor_reads vss_consts)
  have "subslice sample_before 511 (Suc (Suc 0)) = [2, 2]"
    by (simp add: sample_before_def subslice_append_left vss_consts)
  moreover have "\<exists>s'. Snapshot_read_at cursor_ops 511 [0, 0] ?s =
      (Ok (), (subslice sample_before (unat (511 :: u64)) (length [0 :: u8, 0]), s'))"
    by (rule snapshot_survives_cow_steps [OF volume_reader_cursor r _ overlay_steps])
      (simp_all add: sample_before_def is_unallocated_def vec_get_def has_block_def len vss_consts)
  moreover have "sample_overlaid ! 511 = 1" by (simp add: sample_overlaid_def nth_append)
  ultimately show ?thesis by simp
qed

end
