(* ===== verification/Vss_Layers.thy ===== *)
theory Vss_Layers
  imports Vss_Copy_On_Write
begin

text \<open>
  A volume with several shadow copies. \<open>history\<close> is how such a volume comes about: snapshots are
  taken one after the other, and a sub-block that is about to change is copied to the store of
  the newest snapshot only. \<open>documented_byte\<close> is the algorithm of \<open>docs/RESEARCH.md\<close> for the
  snapshot \<open>N\<close>: start with the current volume and apply the stores from the newest one back to
  \<open>N\<close>. The code applies the store \<open>N\<close> alone. The properties say what each of the two returns in
  every history: the documented algorithm the snapshot; the code the snapshot if \<open>N\<close> is the
  newest, and otherwise the live bytes wherever \<open>N\<close> itself saved nothing.
\<close>

section \<open>Applying a store\<close>

definition entries_of :: "(u64 \<rightharpoonup> BlockDescriptor list) \<Rightarrow> nat \<Rightarrow> BlockDescriptor list" where
  "entries_of m p = (case m (of_nat (p div BLOCK_SIZE * BLOCK_SIZE)) of None \<Rightarrow> [] | Some ds \<Rightarrow> ds)"

text \<open>The byte at \<open>p\<close> once a store is applied to a state of the volume that has \<open>u\<close> there.\<close>

definition store_byte :: "bytes \<Rightarrow> (u64 \<rightharpoonup> BlockDescriptor list) \<Rightarrow> nat \<Rightarrow> u8 \<Rightarrow> u8" where
  "store_byte v m p u =
     (let i = p mod BLOCK_SIZE; ds = entries_of m p in
      case filter (patches_byte v i) ds of
        [] \<Rightarrow> (case filter is_plain ds of
                 [] \<Rightarrow> u
               | ps \<Rightarrow> block_or_zeros v (store_offset (last ps)) ! i)
      | os \<Rightarrow> block_at v (store_offset (last os)) ! i)"

definition live_byte :: "bytes \<Rightarrow> nat \<Rightarrow> u8" where
  "live_byte v p = block_or_zeros v (of_nat (p div BLOCK_SIZE * BLOCK_SIZE)) ! (p mod BLOCK_SIZE)"

text \<open>The stores are given from the newest back to the one whose snapshot is read.\<close>

definition documented_byte :: "bytes \<Rightarrow> (u64 \<rightharpoonup> BlockDescriptor list) list \<Rightarrow> nat \<Rightarrow> u8" where
  "documented_byte v ms p = fold (\<lambda>m. store_byte v m p) ms (live_byte v p)"

definition covers :: "bytes \<Rightarrow> (u64 \<rightharpoonup> BlockDescriptor list) \<Rightarrow> nat \<Rightarrow> bool" where
  "covers v m p \<longleftrightarrow> list_ex (\<lambda>d. patches_byte v (p mod BLOCK_SIZE) d \<or> is_plain d) (entries_of m p)"

lemma store_byte_uncovered:
  assumes "\<not> covers v m p"
  shows "store_byte v m p u = u"
proof -
  have "filter (patches_byte v (p mod BLOCK_SIZE)) (entries_of m p) = []"
    and "filter is_plain (entries_of m p) = []"
    using assms by (auto simp: covers_def list_ex_iff filter_empty_conv)
  then show ?thesis by (simp add: store_byte_def Let_def)
qed

lemma store_byte_covered:
  assumes "covers v m p"
  shows "store_byte v m p u = store_byte v m p u'"
proof (cases "filter (patches_byte v (p mod BLOCK_SIZE)) (entries_of m p)")
  case Nil
  with assms have "filter is_plain (entries_of m p) \<noteq> []"
    by (auto simp: covers_def list_ex_iff filter_empty_conv)
  with Nil show ?thesis by (auto simp: store_byte_def Let_def split: list.split)
qed (simp add: store_byte_def Let_def)

text \<open>What the code reads is the store applied to the live volume, but for the bitmap.\<close>

lemma snapshot_byte_store:
  assumes "\<not> is_unallocated st (of_nat (p div BLOCK_SIZE))"
  shows "snapshot_byte v st p = store_byte v (block_map st) p (live_byte v p)"
  using assms
  by (auto simp: snapshot_byte_def store_byte_def entries_of_def live_byte_def mapped_byte_def
      base_source_def Let_def split: option.split list.split)

lemma vblock_nth: "has_block v (p div BLOCK_SIZE) \<Longrightarrow> vblock v (p div BLOCK_SIZE) ! (p mod BLOCK_SIZE) = v ! p"
  by (simp add: vblock_def has_block_def vss_consts)

lemma live_byte_nth:
  assumes "has_block v (p div BLOCK_SIZE)" and "length v < 2 ^ 64"
  shows "live_byte v p = v ! p"
proof -
  have "live_byte v p = block_or_zeros v (block_offset (p div BLOCK_SIZE)) ! (p mod BLOCK_SIZE)"
    by (simp add: live_byte_def block_offset_def)
  also have "\<dots> = vblock v (p div BLOCK_SIZE) ! (p mod BLOCK_SIZE)"
    by (simp only: block_or_zeros_vblock [OF assms])
  also have "\<dots> = v ! p"
    by (rule vblock_nth [OF assms(1)])
  finally show ?thesis .
qed

lemma entries_group:
  "entries_of (group ds) p = filter (\<lambda>d. original_offset d = block_offset (p div BLOCK_SIZE)) ds"
  by (simp add: entries_of_def group_def block_offset_def split: list.split)

lemma last_filter: "filter P xs = y # ys \<Longrightarrow> last (y # ys) \<in> set xs \<and> P (last (y # ys))"
  by (metis last_in_set list.discI mem_Collect_eq set_filter)

text \<open>Only the blocks the descriptors of a store name matter.\<close>

lemma store_byte_frame:
  assumes "length v = length c" and same: "\<forall>q \<in> store_blocks ds. block_at v q = block_at c q"
  shows "store_byte v (group ds) p u = store_byte c (group ds) p u"
    and "covers v (group ds) p = covers c (group ds) p"
proof -
  let ?es = "entries_of (group ds) p"
  have iv: "in_volume v q = in_volume c q" for q using assms(1) by (simp add: in_volume_def)
  then have patches: "patches_byte v i = patches_byte c i" for i by (auto simp: patches_byte_def)
  have used: "block_at v (store_offset d) = block_at c (store_offset d)" if "d \<in> set ?es" "in_use d" for d
    using same that by (auto simp: entries_group store_blocks_def)
  then have base: "block_or_zeros v (store_offset d) = block_or_zeros c (store_offset d)"
    if "d \<in> set ?es" "is_plain d" for d
    using that iv by (simp add: block_or_zeros_def in_use_def)
  show "store_byte v (group ds) p u = store_byte c (group ds) p u"
    unfolding store_byte_def Let_def patches
    by (auto simp: used base in_use_def patches_byte_def dest!: last_filter split: list.split)
  show "covers v (group ds) p = covers c (group ds) p"
    by (simp add: covers_def patches)
qed

text \<open>A store holds what its snapshot had, relative to the state \<open>c\<close> in which its writes ended.\<close>

lemma epoch_byte:
  assumes inv: "cow_invariant U v0 (c, ds)" and len: "length v = length c" and fits: "length v0 < 2 ^ 64"
    and same: "\<forall>q \<in> store_blocks ds. block_at v q = block_at c q"
    and n: "p div BLOCK_SIZE \<in> U" "has_block v0 (p div BLOCK_SIZE)"
  shows "store_byte v (group ds) p (c ! p) = v0 ! p"
proof -
  let ?n = "p div BLOCK_SIZE" and ?i = "p mod BLOCK_SIZE"
  let ?st = "\<lparr>snapshot_volume_size = 0, block_map = group ds, bitmap = []\<rparr>"
  have i: "?i < BLOCK_SIZE" by (simp add: vss_consts)
  have len0: "length c = length v0" using inv by (simp add: cow_invariant_def)
  then have c: "live_byte c p = c ! p" using n fits by (simp add: live_byte_nth has_block_length [OF len0])
  have alloc: "\<not> is_unallocated ?st q" for q by (simp add: is_unallocated_def vec_get_def)
  have "store_byte c (group ds) p (c ! p) = snapshot_byte c ?st (?n * BLOCK_SIZE + ?i)"
    using snapshot_byte_store [OF alloc, of c p] c by simp
  also have "\<dots> = vblock v0 ?n ! ?i"
    by (rule cow_snapshot_byte [OF inv fits _ n alloc i]) simp
  also have "\<dots> = v0 ! p"
    by (rule vblock_nth [OF n(2)])
  finally show ?thesis unfolding store_byte_frame [OF len same] .
qed

lemma covers_saved:
  assumes inv: "cow_invariant U v0 (c, ds)" and len: "length v = length c" and fits: "length v0 < 2 ^ 64"
    and same: "\<forall>q \<in> store_blocks ds. block_at v q = block_at c q"
    and n: "has_block v0 (p div BLOCK_SIZE)"
  shows "covers v (group ds) p \<longleftrightarrow> saved ds (p div BLOCK_SIZE) (p mod BLOCK_SIZE div SUB_BLOCK_SIZE)"
proof -
  let ?i = "p mod BLOCK_SIZE"
  have i: "?i < BLOCK_SIZE" by (simp add: vss_consts)
  have "in_volume c (store_offset d)" if "d \<in> set ds" "is_patch d"
    "original_offset d = block_offset (p div BLOCK_SIZE)" "bit (allocation_bitmap d) (?i div SUB_BLOCK_SIZE)" for d
    using kept_byte [OF inv fits that(1) _ that(3) n i] that by (simp add: in_use_def gives_sub_block_def)
  then have "covers c (group ds) p \<longleftrightarrow> saved ds (p div BLOCK_SIZE) (?i div SUB_BLOCK_SIZE)"
    by (auto simp: covers_def list_ex_iff entries_group patches_byte_def saved_def copied_whole_def patched_def)
  then show ?thesis unfolding store_byte_frame(2) [OF len same] .
qed

section \<open>Several snapshots\<close>

text \<open>The volume, and for each snapshot, the newest first, what the volume was when it was taken and
  the descriptors of its store. A copy goes to the newest store; no write touches the blocks
  that the stores of older snapshots hold.\<close>

inductive history :: "nat set \<Rightarrow> bytes \<Rightarrow> (bytes \<times> BlockDescriptor list) list \<Rightarrow> bool" for U where
  no_snapshot: "history U v []"
| take_snapshot: "history U v hs \<Longrightarrow> history U v ((v, []) # hs)"
| copy_or_write: "history U v ((v0, ds) # hs) \<Longrightarrow> cow_step U (v, ds) (v', ds') \<Longrightarrow>
    \<forall>h \<in> set hs. \<forall>q \<in> store_blocks (snd h). block_at v' q = block_at v q \<Longrightarrow>
    history U v' ((v0, ds') # hs)"

text \<open>The invariant: each store keeps its snapshot relative to the next newer one, \<open>c\<close>.\<close>

fun layered :: "nat set \<Rightarrow> bytes \<Rightarrow> bytes \<Rightarrow> (bytes \<times> BlockDescriptor list) list \<Rightarrow> bool" where
  "layered U v c [] \<longleftrightarrow> True"
| "layered U v c ((v0, ds) # hs) \<longleftrightarrow>
     cow_invariant U v0 (c, ds) \<and> (\<forall>q \<in> store_blocks ds. block_at v q = block_at c q) \<and>
     layered U v v0 hs"

lemma layered_frame:
  "layered U v c hs \<Longrightarrow> \<forall>h \<in> set hs. \<forall>q \<in> store_blocks (snd h). block_at v' q = block_at v q \<Longrightarrow>
   layered U v' c hs"
  by (induction hs arbitrary: c) auto

lemma history_layered: "history U v hs \<Longrightarrow> layered U v v hs"
proof (induction rule: history.induct)
  case (take_snapshot v hs)
  then show ?case by (simp add: cow_invariant_def store_blocks_def)
next
  case (copy_or_write v v0 ds hs v' ds')
  then show ?case using cow_step_invariant layered_frame by auto
qed simp

text \<open>The newest snapshot is kept as if it were the only one.\<close>

lemma history_newest_invariant: "history U v ((v0, ds) # hs) \<Longrightarrow> cow_invariant U v0 (v, ds)"
  using history_layered [of U v "(v0, ds) # hs"] by simp

lemma layered_length: "layered U v c hs \<Longrightarrow> h \<in> set hs \<Longrightarrow> length (fst h) = length c"
proof (induction hs arbitrary: c)
  case (Cons a hs)
  obtain v0 ds where a: "a = (v0, ds)" by (cases a)
  with Cons have "length v0 = length c" by (simp add: cow_invariant_def)
  with Cons a show ?case by auto
qed simp

text \<open>The documented algorithm passes from each snapshot to the next older one.\<close>

lemma layered_byte:
  assumes "length v < 2 ^ 64" and "p div BLOCK_SIZE \<in> U" and "has_block v (p div BLOCK_SIZE)"
  shows "layered U v c (newer @ (v0, ds) # older) \<Longrightarrow> length c = length v \<Longrightarrow>
    fold (\<lambda>m. store_byte v m p) (map (\<lambda>h. group (snd h)) (newer @ [(v0, ds)])) (c ! p) = v0 ! p"
proof (induction newer arbitrary: c)
  case Nil
  then have inv: "cow_invariant U v0 (c, ds)" "length v = length c"
      "\<forall>q \<in> store_blocks ds. block_at v q = block_at c q" by simp_all
  then have len: "length v0 = length v" by (simp add: cow_invariant_def)
  show ?case
    using epoch_byte [OF inv(1,2) _ inv(3) assms(2)] assms(1,3) len
    by (simp add: has_block_length [OF len])
next
  case (Cons h newer)
  obtain v1 es where h: "h = (v1, es)" by (cases h)
  with Cons.prems have inv: "cow_invariant U v1 (c, es)" "length v = length c"
      "\<forall>q \<in> store_blocks es. block_at v q = block_at c q"
    and rest: "layered U v v1 (newer @ (v0, ds) # older)" by simp_all
  then have len: "length v1 = length v" by (simp add: cow_invariant_def)
  have "store_byte v (group es) p (c ! p) = v1 ! p"
    using epoch_byte [OF inv(1,2) _ inv(3) assms(2)] assms(1,3) len
    by (simp add: has_block_length [OF len])
  with Cons.IH [OF rest len] h show ?case by simp
qed

lemma layered_store:
  assumes "layered U v c (newer @ (v0, ds) # older)" and "length c = length v"
  obtains c' where "cow_invariant U v0 (c', ds)" and "length v = length c'"
    and "\<forall>q \<in> store_blocks ds. block_at v q = block_at c' q" and "newer = [] \<Longrightarrow> c' = c"
  using assms
proof (induction newer arbitrary: c thesis)
  case (Cons h newer)
  obtain v1 es where h: "h = (v1, es)" by (cases h)
  from Cons.prems(2,3) h have "layered U v v1 (newer @ (v0, ds) # older)" "length v1 = length v"
    by (simp_all add: cow_invariant_def)
  from Cons.IH [OF _ this] Cons.prems(1) show ?case by blast
qed simp

text \<open>The part of a history that a read through one of its snapshots is about.\<close>

definition within :: "nat set \<Rightarrow> bytes \<Rightarrow> nat \<Rightarrow> nat \<Rightarrow> bool" where
  "within U v off n \<longleftrightarrow> off + n \<le> length v \<and>
     (\<forall>p. off \<le> p \<longrightarrow> p < off + n \<longrightarrow> p div BLOCK_SIZE \<in> U \<and> has_block v (p div BLOCK_SIZE))"

definition own_byte :: "bytes \<Rightarrow> bytes \<times> BlockDescriptor list \<Rightarrow> nat \<Rightarrow> u8" where
  "own_byte v h p =
     (if saved (snd h) (p div BLOCK_SIZE) (p mod BLOCK_SIZE div SUB_BLOCK_SIZE) then fst h ! p else v ! p)"

lemma history_snapshot_byte:
  assumes "history U v (newer @ (v0, ds) # older)" and fits: "length v < 2 ^ 64"
    and st: "block_map st = group ds" "\<forall>n \<in> U. \<not> is_unallocated st (of_nat n)"
    and n: "p div BLOCK_SIZE \<in> U" "has_block v (p div BLOCK_SIZE)"
  shows "snapshot_byte v st p = own_byte v (v0, ds) p"
proof -
  obtain c where inv: "cow_invariant U v0 (c, ds)" "length v = length c"
      "\<forall>q \<in> store_blocks ds. block_at v q = block_at c q"
    using layered_store [OF history_layered [OF assms(1)] refl] by metis
  then have len: "length v0 = length v" by (simp add: cow_invariant_def)
  note old = epoch_byte [OF inv(1,2) _ inv(3) n(1)] covers_saved [OF inv(1,2) _ inv(3)]
  have "snapshot_byte v st p = store_byte v (group ds) p (v ! p)"
    using snapshot_byte_store [of st p v] st n fits by (simp add: live_byte_nth)
  also have "\<dots> = own_byte v (v0, ds) p"
  proof (cases "covers v (group ds) p")
    case True
    then have "store_byte v (group ds) p (v ! p) = v0 ! p"
      using store_byte_covered [OF True, of "v ! p" "c ! p"] old(1) n(2) fits
      by (simp add: len has_block_length [OF len])
    with True old(2) n(2) fits show ?thesis
      by (simp add: own_byte_def len has_block_length [OF len])
  next
    case False
    with old(2) n(2) fits show ?thesis
      by (simp add: own_byte_def store_byte_uncovered len has_block_length [OF len])
  qed
  finally show ?thesis .
qed

lemma history_newest:
  assumes "history U v ((v0, ds) # older)" and "p div BLOCK_SIZE \<in> U" and "has_block v (p div BLOCK_SIZE)"
  shows "own_byte v (v0, ds) p = v0 ! p"
proof -
  note inv = history_newest_invariant [OF assms(1)]
  have i: "p mod BLOCK_SIZE < BLOCK_SIZE" by (simp add: vss_consts)
  have len: "length v0 = length v" using inv by (simp add: cow_invariant_def)
  note nth = vblock_nth [OF assms(3)] vblock_nth [of v0 p, unfolded has_block_length [OF len], OF assms(3)]
  show ?thesis
  proof (cases "saved ds (p div BLOCK_SIZE) (p mod BLOCK_SIZE div SUB_BLOCK_SIZE)")
    case False
    from cow_live [OF inv assms(2,3) i this] show ?thesis
      unfolding nth by (simp add: own_byte_def False)
  qed (simp add: own_byte_def)
qed

lemma history_documented:
  assumes "history U v (newer @ (v0, ds) # older)" and "length v < 2 ^ 64"
    and "p div BLOCK_SIZE \<in> U" and "has_block v (p div BLOCK_SIZE)"
  shows "documented_byte v (map (\<lambda>h. group (snd h)) (newer @ [(v0, ds)])) p = v0 ! p"
  using layered_byte [OF assms(2-4) history_layered [OF assms(1)] refl] assms(2,4)
  by (simp add: documented_byte_def live_byte_nth)

text \<open>Copies and writes after the last snapshot, where no older store holds anything.\<close>

lemma history_steps:
  assumes "(cow_step U)\<^sup>*\<^sup>* (v, ds) w" and "history U v ((v0, ds) # hs)"
    and "\<forall>h \<in> set hs. store_blocks (snd h) = {}"
  shows "history U (fst w) ((v0, snd w) # hs)"
  using assms(1)
proof induction
  case (step w w')
  from copy_or_write [OF step.IH, of "fst w'" "snd w'"] step.hyps(2) assms(3) show ?case by simp
qed (use assms(2) in simp)

lemma history_of_steps:
  assumes "(cow_step U)\<^sup>*\<^sup>* (v0, []) w"
  shows "history U (fst w) [(v0, snd w)]"
  by (rule history_steps [OF assms]) (auto intro: history.intros)

section \<open>The properties\<close>

text \<open>C5: what a read through the snapshot of any store of a volume with several snapshots returns:
  at each position the byte at the time of the snapshot if the store itself saved that
  sub-block, and otherwise the byte the volume has now, whatever the newer stores saved.\<close>
theorem older_snapshot_reads:
  assumes "volume_reader ops invar contents position" and "reads invar contents v (snapshot_reader s)"
    and "snapshot_volume_size (state s) = of_nat (length v)"
    and "history U v (newer @ (v0, ds) # older)" and "length v < 2 ^ 64"
    and "block_map (state s) = group ds" and "\<forall>n \<in> U. \<not> is_unallocated (state s) (of_nat n)"
    and "within U v (unat off) (length buf)" and "length buf \<le> isize_max"
  shows "\<exists>s'. Snapshot_read_at ops off buf s =
    (Ok (), (map (\<lambda>p. if saved ds (p div BLOCK_SIZE) (p mod BLOCK_SIZE div SUB_BLOCK_SIZE)
                     then v0 ! p else v ! p) [unat off..<unat off + length buf], s'))"
proof -
  have "map (\<lambda>j. snapshot_byte v (state s) (unat off + j)) [0..<length buf] =
      map (own_byte v (v0, ds)) [unat off..<unat off + length buf]"
    using assms(8) history_snapshot_byte [OF assms(4-7)]
    by (intro nth_equalityI) (auto simp: within_def)
  with read_at_volume [OF assms(1-3,9), of off] assms(5,8) show ?thesis
    by (auto simp: Snapshot_read_at_def within_def own_byte_def)
qed

text \<open>Two snapshots of the same volume, and then the first block copied to the newer store and
  overwritten: the older store saved nothing.\<close>

definition two_snapshots :: "(bytes \<times> BlockDescriptor list) list" where
  "two_snapshots = [(sample_before, [sample_descriptor]), (sample_before, [])]"

lemma two_snapshots: "history {0} sample_diff_volume two_snapshots"
proof -
  have "history {0} sample_before ((sample_before, []) # [(sample_before, [])])"
    by (intro history.intros)
  from history_steps [OF conjunct1 [OF cow_writes_steps [OF sample_writes]] this] show ?thesis
    by (simp add: two_snapshots_def store_blocks_def)
qed

definition older_snapshot :: "cursor Snapshot" where
  "older_snapshot = \<lparr>snapshot_reader = cursor_new sample_diff_volume,
     state = \<lparr>snapshot_volume_size = of_nat (length sample_diff_volume), block_map = group [],
              bitmap = []\<rparr>\<rparr>"

lemma older_snapshot_ok:
  "reads cursor_invar cursor_data sample_diff_volume (snapshot_reader older_snapshot)"
  "snapshot_volume_size (state older_snapshot) = of_nat (length sample_diff_volume)"
  "length sample_diff_volume < 2 ^ 64" "block_map (state older_snapshot) = group []"
  "\<forall>n \<in> {0}. \<not> is_unallocated (state older_snapshot) (of_nat n)"
  "within {0} sample_diff_volume 5 2"
  using sample_diff_reads
  by (simp_all add: older_snapshot_def is_unallocated_def vec_get_def within_def has_block_def
      sample_diff_volume_def length_encode_diff_block records_per_block_val vss_consts)

lemma older_snapshot_bytes: "sample_diff_volume ! 5 = 1" "sample_diff_volume ! 6 = 1"
  "sample_before ! 5 = 2" "sample_before ! 6 = 2"
  by (simp_all add: sample_diff_volume_def sample_before_def nth_append vss_consts)

lemma two_zeros: "unat (5 :: u64) = 5" "length [0 :: u8, 0] = 2" "5 + 2 = (7 :: nat)" "[5..<7] = [5, 6]"
  "{5..<7} = {5, 6 :: nat}" "2 \<le> isize_max"
  by (auto simp: upt_rec isize_max_val)

theorem older_snapshot_reads_witness:
  "\<exists>s'. Snapshot_read_at cursor_ops 5 [0, 0] older_snapshot = (Ok (), ([1, 1], s'))"
proof -
  have "history {0} sample_diff_volume
      ([(sample_before, [sample_descriptor])] @ (sample_before, []) # [])"
    using two_snapshots by (simp add: two_snapshots_def)
  from older_snapshot_reads [OF volume_reader_cursor older_snapshot_ok(1,2) this older_snapshot_ok(3-5),
      of 5 "[0, 0]", unfolded two_zeros] older_snapshot_ok(6) show ?thesis
    by (simp add: saved_def copied_whole_def patched_def older_snapshot_bytes two_zeros)
qed

text \<open>C4: the documented algorithm, which applies the stores from the newest back to the one read,
  gives the bytes the volume had when the snapshot was taken, in every history. The code agrees
  with it on a range exactly if each byte of it that the store did not save is still on the
  volume as it was; through the newest store it always does.\<close>
theorem agrees_with_documented_iff:
  assumes "volume_reader ops invar contents position" and "reads invar contents v (snapshot_reader s)"
    and "snapshot_volume_size (state s) = of_nat (length v)"
    and "history U v (newer @ (v0, ds) # older)" and "length v < 2 ^ 64"
    and "block_map (state s) = group ds" and "\<forall>n \<in> U. \<not> is_unallocated (state s) (of_nat n)"
    and "within U v (unat off) (length buf)" and "length buf \<le> isize_max"
  shows "map (documented_byte v (map (\<lambda>h. group (snd h)) (newer @ [(v0, ds)])))
      [unat off..<unat off + length buf] = subslice v0 (unat off) (length buf) \<and>
    (\<exists>out s'. Snapshot_read_at ops off buf s = (Ok (), (out, s')) \<and>
       (newer = [] \<longrightarrow> out = subslice v0 (unat off) (length buf)) \<and>
       (out = subslice v0 (unat off) (length buf) \<longleftrightarrow>
          (\<forall>p \<in> {unat off..<unat off + length buf}.
             saved ds (p div BLOCK_SIZE) (p mod BLOCK_SIZE div SUB_BLOCK_SIZE) \<or> v ! p = v0 ! p)))"
proof -
  let ?range = "[unat off..<unat off + length buf]"
  have "length v0 = length v"
    using layered_length [OF history_layered [OF assms(4)], of "(v0, ds)"] by simp
  then have "unat off + length buf \<le> length v0" using assms(8) by (simp add: within_def)
  then have v0: "subslice v0 (unat off) (length buf) = map ((!) v0) ?range"
    by (intro nth_equalityI) simp_all
  have n: "p div BLOCK_SIZE \<in> U \<and> has_block v (p div BLOCK_SIZE)" if "p \<in> set ?range" for p
    using that assms(8) by (simp add: within_def)
  have "map (\<lambda>j. snapshot_byte v (state s) (unat off + j)) [0..<length buf] = map (own_byte v (v0, ds)) ?range"
    using n history_snapshot_byte [OF assms(4-7)] by (intro nth_equalityI) simp_all
  then obtain s' where read: "Snapshot_read_at ops off buf s = (Ok (), (map (own_byte v (v0, ds)) ?range, s'))"
    using read_at_volume [OF assms(1-3,9), of off] assms(5,8)
    by (auto simp: Snapshot_read_at_def within_def)
  have newest: "map (own_byte v (v0, ds)) ?range = map ((!) v0) ?range" if "newer = []"
    using history_newest [of U v v0 ds older] assms(4) n that by simp
  have "map (own_byte v (v0, ds)) ?range = map ((!) v0) ?range \<longleftrightarrow>
      (\<forall>p \<in> set ?range. saved ds (p div BLOCK_SIZE) (p mod BLOCK_SIZE div SUB_BLOCK_SIZE) \<or> v ! p = v0 ! p)"
    unfolding map_eq_conv own_byte_def by auto
  moreover have "map (documented_byte v (map (\<lambda>h. group (snd h)) (newer @ [(v0, ds)]))) ?range = map ((!) v0) ?range"
    using history_documented [OF assms(4,5)] n by simp
  ultimately show ?thesis
    using read newest unfolding v0 set_upt by blast
qed

theorem agrees_with_documented_iff_witness:
  "map (documented_byte sample_diff_volume [group [sample_descriptor], group []]) [5..<7] = [2, 2] \<and>
   (\<exists>out s'. Snapshot_read_at cursor_ops 5 [0, 0] older_snapshot = (Ok (), (out, s')) \<and> out \<noteq> [2, 2])"
proof -
  have "history {0} sample_diff_volume
      ([(sample_before, [sample_descriptor])] @ (sample_before, []) # [])"
    using two_snapshots by (simp add: two_snapshots_def)
  note agrees = agrees_with_documented_iff [OF volume_reader_cursor older_snapshot_ok(1,2) this
      older_snapshot_ok(3-5), of 5 "[0, 0]", unfolded two_zeros]
  have "subslice sample_before 5 2 = [2, 2]"
    by (simp add: sample_before_def subslice_append_left vss_consts numeral_2_eq_2)
  with agrees older_snapshot_ok(6) two_zeros(6) show ?thesis
    by (auto simp: older_snapshot_bytes saved_def copied_whole_def patched_def two_zeros)
qed

end
