(* ===== verification/Vsc_Forensic.thy ===== *)
theory Vsc_Forensic
  imports Vss_Volume_Props
begin

text \<open>
  \<open>forensic/src/lib.rs\<close>: the audit of a volume's stores and the findings made of it. The types
  and the trait of \<open>forensicnomicon::report\<close> are third-party: its severities and categories are
  the parameters \<open>vocabulary\<close>, its structures are records of the fields the sources set, and
  its \<open>Finding\<close>, the trait's default \<open>to_finding\<close> and the push on its timestamps are the
  parameters \<open>report_ops\<close>. So are \<open>uuid\<close>, which renders a GUID, and \<open>jiff\<close>, which renders a
  count of nanoseconds since 1970 if it can.
\<close>

section \<open>Kinds and their attributes\<close>

definition ANALYZER :: rstring where
  "ANALYZER = ascii ''vsc-forensic''"

definition FILETIME_EPOCH_DIFF :: u64 where
  "FILETIME_EPOCH_DIFF = 116444736000000000"

text \<open>The fields in the order of the source: \<open>store_id, sequence, volume_size, creation_time\<close>;
  \<open>previous, next\<close>; \<open>store_id, attribute_flags\<close>.\<close>

datatype AnomalyKind =
    NoShadowCopies
  | StorePresent rstring u64 u64 u64
  | SequenceGap u64 u64
  | StoreNonPersistent rstring u32

record ('sev, 'cat) vocabulary =
  sev_info :: 'sev
  sev_low :: 'sev
  sev_medium :: 'sev
  cat_history :: 'cat
  cat_residue :: 'cat
  cat_provenance :: 'cat

fun kind_severity :: "('sev, 'cat) vocabulary \<Rightarrow> AnomalyKind \<Rightarrow> 'sev" where
  "kind_severity voc (StorePresent _ _ _ _) = sev_info voc"
| "kind_severity voc NoShadowCopies = sev_low voc"
| "kind_severity voc (StoreNonPersistent _ _) = sev_low voc"
| "kind_severity voc (SequenceGap _ _) = sev_medium voc"

fun kind_code :: "AnomalyKind \<Rightarrow> rstring" where
  "kind_code NoShadowCopies = ascii ''VSC-NO-SHADOW-COPIES''"
| "kind_code (StorePresent _ _ _ _) = ascii ''VSC-STORE-PRESENT''"
| "kind_code (SequenceGap _ _) = ascii ''VSC-SEQUENCE-GAP''"
| "kind_code (StoreNonPersistent _ _) = ascii ''VSC-STORE-NON-PERSISTENT''"

fun kind_category :: "('sev, 'cat) vocabulary \<Rightarrow> AnomalyKind \<Rightarrow> 'cat" where
  "kind_category voc NoShadowCopies = cat_history voc"
| "kind_category voc (StorePresent _ _ _ _) = cat_history voc"
| "kind_category voc (SequenceGap _ _) = cat_residue voc"
| "kind_category voc (StoreNonPersistent _ _) = cat_provenance voc"

text \<open>8212 is the em dash.\<close>

fun kind_note :: "AnomalyKind \<Rightarrow> rstring" where
  "kind_note NoShadowCopies =
     ascii ''the volume carries a VSS volume header but the catalog enumerated zero shadow-copy stores; consistent with shadow-copy deletion (MITRE T1490) or a volume that never had snapshots '' @
     [8212] @ ascii '' not a determination of deletion''"
| "kind_note (StorePresent sid sq vsize _) =
     ascii ''shadow copy '' @ sid @ ascii '' is present (catalog sequence '' @ decimal sq @
     ascii '', shadow volume size '' @ decimal vsize @ ascii '' bytes)''"
| "kind_note (SequenceGap prev nxt) =
     ascii ''catalog sequence numbers are non-contiguous ('' @ decimal prev @ ascii '' -> '' @
     decimal nxt @ ascii ''); consistent with a deleted intermediate shadow copy''"
| "kind_note (StoreNonPersistent sid fl) =
     ascii ''shadow copy '' @ sid @ ascii '' attribute flags 0x'' @ hex08 fl @
     ascii '' lack the persistent bit; a non-persistent shadow copy does not survive a reboot''"

fun kind_mitre :: "AnomalyKind \<Rightarrow> rstring list" where
  "kind_mitre NoShadowCopies = [ascii ''T1490'']"
| "kind_mitre (SequenceGap _ _) = [ascii ''T1490'']"
| "kind_mitre (StorePresent _ _ _ _) = []"
| "kind_mitre (StoreNonPersistent _ _) = []"

section \<open>Evidence, subjects and timestamps\<close>

text \<open>The label and the location are always \<open>None\<close>; their types are parameters.\<close>

record 'label SubjectRef =
  scheme :: rstring
  subject_kind :: rstring
  subject_id :: rstring
  label :: "'label option"

record 'loc Evidence =
  evidence_field :: rstring
  evidence_value :: rstring
  evidence_location :: "'loc option"

record 'loc Timestamp =
  ts_value :: rstring
  ts_kind :: rstring
  ts_location :: "'loc option"

record Source =
  analyzer :: rstring
  scope :: rstring
  source_version :: "rstring option"

definition evidence :: "rstring \<Rightarrow> rstring \<Rightarrow> 'loc Evidence" where
  "evidence fld val = \<lparr>evidence_field = fld, evidence_value = val, evidence_location = None\<rparr>"

definition shadow_copy_subject :: "rstring \<Rightarrow> 'label SubjectRef" where
  "shadow_copy_subject sid = \<lparr>scheme = ascii ''vss'', subject_kind = ascii ''shadow_copy'',
     subject_id = sid, label = None\<rparr>"

fun kind_subjects :: "AnomalyKind \<Rightarrow> 'label SubjectRef list" where
  "kind_subjects (StorePresent sid _ _ _) = [shadow_copy_subject sid]"
| "kind_subjects (StoreNonPersistent sid _) = [shadow_copy_subject sid]"
| "kind_subjects NoShadowCopies = []"
| "kind_subjects (SequenceGap _ _) = []"

fun kind_evidence :: "AnomalyKind \<Rightarrow> 'loc Evidence list" where
  "kind_evidence NoShadowCopies = []"
| "kind_evidence (StorePresent sid sq vsize ctime) =
     [evidence (ascii ''store_id'') sid, evidence (ascii ''sequence'') (decimal sq),
      evidence (ascii ''volume_size'') (decimal vsize),
      evidence (ascii ''creation_time_filetime'') (decimal ctime)]"
| "kind_evidence (SequenceGap prev nxt) =
     [evidence (ascii ''previous_sequence'') (decimal prev),
      evidence (ascii ''next_sequence'') (decimal nxt)]"
| "kind_evidence (StoreNonPersistent sid fl) =
     [evidence (ascii ''store_id'') sid,
      evidence (ascii ''attribute_flags'') (ascii ''0x'' @ hex08 fl)]"

text \<open>The difference of the two \<open>u64\<close> cannot wrap behind its guard; the product is an \<open>i128\<close>.\<close>

definition filetime_to_rfc3339 :: "(int \<Rightarrow> rstring option) \<Rightarrow> u64 \<Rightarrow> rstring option" where
  "filetime_to_rfc3339 jiff ft =
     (if ft = 0 \<or> ft < FILETIME_EPOCH_DIFF then None
      else let unix_nanos = uint (ft - FILETIME_EPOCH_DIFF) * 100 in jiff unix_nanos)"

fun kind_timestamps :: "(int \<Rightarrow> rstring option) \<Rightarrow> AnomalyKind \<Rightarrow> 'loc Timestamp list" where
  "kind_timestamps jiff (StorePresent _ _ _ ctime) =
     (case filetime_to_rfc3339 jiff ctime of
        Some v \<Rightarrow> [\<lparr>ts_value = v, ts_kind = ascii ''created'', ts_location = None\<rparr>]
      | None \<Rightarrow> [])"
| "kind_timestamps jiff NoShadowCopies = []"
| "kind_timestamps jiff (SequenceGap _ _) = []"
| "kind_timestamps jiff (StoreNonPersistent _ _) = []"

section \<open>Anomalies and findings\<close>

record 'sev Anomaly =
  anomaly_severity :: 'sev
  anomaly_code :: rstring
  anomaly_kind :: AnomalyKind
  anomaly_note :: rstring

definition Anomaly_new :: "('sev, 'cat) vocabulary \<Rightarrow> AnomalyKind \<Rightarrow> 'sev Anomaly" where
  "Anomaly_new voc k =
     \<lparr>anomaly_severity = kind_severity voc k, anomaly_code = kind_code k, anomaly_kind = k,
      anomaly_note = kind_note k\<rparr>"

text \<open>What the implementation of \<open>Observation\<close> answers to the methods of the trait.\<close>

record ('sev, 'cat, 'label, 'loc) observation =
  obs_severity :: "'sev option"
  obs_code :: rstring
  obs_note :: rstring
  obs_category :: 'cat
  obs_subjects :: "'label SubjectRef list"
  obs_evidence :: "'loc Evidence list"
  obs_mitre :: "rstring list"

definition observation_of ::
    "('sev, 'cat) vocabulary \<Rightarrow> 'sev Anomaly \<Rightarrow> ('sev, 'cat, 'label, 'loc) observation" where
  "observation_of voc a =
     \<lparr>obs_severity = Some (anomaly_severity a), obs_code = anomaly_code a, obs_note = anomaly_note a,
      obs_category = kind_category voc (anomaly_kind a),
      obs_subjects = kind_subjects (anomaly_kind a), obs_evidence = kind_evidence (anomaly_kind a),
      obs_mitre = kind_mitre (anomaly_kind a)\<rparr>"

record ('sev, 'cat, 'label, 'loc, 'finding) report_ops =
  default_to_finding :: "('sev, 'cat, 'label, 'loc) observation \<Rightarrow> Source \<Rightarrow> 'finding"
  push_timestamp :: "'loc Timestamp \<Rightarrow> 'finding \<Rightarrow> 'finding"

definition to_finding ::
    "('sev, 'cat) vocabulary \<Rightarrow> (int \<Rightarrow> rstring option) \<Rightarrow>
     ('sev, 'cat, 'label, 'loc, 'finding) report_ops \<Rightarrow> 'sev Anomaly \<Rightarrow> Source \<Rightarrow> 'finding" where
  "to_finding voc jiff rep a src =
     fold (push_timestamp rep) (kind_timestamps jiff (anomaly_kind a))
       (default_to_finding rep (observation_of voc a) src)"

section \<open>The audit\<close>

definition store_present :: "(bytes \<Rightarrow> rstring) \<Rightarrow> StoreDescriptor \<Rightarrow> AnomalyKind" where
  "store_present uuid d =
     StorePresent (store_id_string uuid d) (sequence d) (volume_size d) (creation_time d)"

text \<open>The gap loop over \<open>sequences.iter().zip(sequences.iter().skip(1))\<close>.\<close>

fun push_gaps ::
    "('sev, 'cat) vocabulary \<Rightarrow> (u64 \<times> u64) list \<Rightarrow> 'sev Anomaly list \<Rightarrow> 'sev Anomaly list" where
  "push_gaps voc [] out = out"
| "push_gaps voc ((prev, nxt) # ps) out =
     push_gaps voc ps
       (if saturating_add prev 1 < nxt then out @ [Anomaly_new voc (SequenceGap prev nxt)] else out)"

text \<open>The loop over \<open>descriptors.iter().enumerate()\<close>, from index \<open>i\<close> on; \<open>None\<close> is a panic.\<close>

fun push_non_persistent ::
    "('sev, 'cat) vocabulary \<Rightarrow> (bytes \<Rightarrow> rstring) \<Rightarrow> 'r read_seek_ops \<Rightarrow> usize \<Rightarrow>
     StoreDescriptor list \<Rightarrow> 'sev Anomaly list \<Rightarrow> 'r VssVolume \<Rightarrow>
     'sev Anomaly list option \<times> 'r VssVolume" where
  "push_non_persistent voc uuid ops i [] out vol = (Some out, vol)"
| "push_non_persistent voc uuid ops i (d # ds) out vol =
     (case store_info ops i vol of
        (Ok info, vol') \<Rightarrow>
          push_non_persistent voc uuid ops (i + 1) ds
            (if \<not> is_persistent (attributes info)
             then out @ [Anomaly_new voc (StoreNonPersistent (store_id_string uuid d)
                           (attribute_bits (attributes info)))]
             else out) vol'
      | (Err _, vol') \<Rightarrow> push_non_persistent voc uuid ops (i + 1) ds out vol'
      | (Panic, vol') \<Rightarrow> (None, vol'))"

definition audit ::
    "('sev, 'cat) vocabulary \<Rightarrow> (bytes \<Rightarrow> rstring) \<Rightarrow> 'r read_seek_ops \<Rightarrow> 'r VssVolume \<Rightarrow>
     'sev Anomaly list option \<times> 'r VssVolume" where
  "audit voc uuid ops vol =
     (let descriptors = VssVolume_stores vol in
      if VssVolume_has_vss_header vol \<and> descriptors = [] then (Some [Anomaly_new voc NoShadowCopies], vol)
      else
        let out = map (\<lambda>d. Anomaly_new voc (store_present uuid d)) descriptors;
            sequences = sort (map sequence descriptors);
            out = push_gaps voc (zip sequences (drop 1 sequences)) out
        in push_non_persistent voc uuid ops 0 descriptors out vol)"

definition audit_findings ::
    "('sev, 'cat) vocabulary \<Rightarrow> (bytes \<Rightarrow> rstring) \<Rightarrow> (int \<Rightarrow> rstring option) \<Rightarrow>
     ('sev, 'cat, 'label, 'loc, 'finding) report_ops \<Rightarrow> rstring \<Rightarrow>
     'r read_seek_ops \<Rightarrow> 'r VssVolume \<Rightarrow> rstring \<Rightarrow> 'finding list option \<times> 'r VssVolume" where
  "audit_findings voc uuid jiff rep pkg_version ops vol scp =
     (let source = \<lparr>analyzer = ANALYZER, scope = scp, source_version = Some pkg_version\<rparr>
      in case audit voc uuid ops vol of
           (None, vol') \<Rightarrow> (None, vol')
         | (Some as, vol') \<Rightarrow> (Some (map (\<lambda>a. to_finding voc jiff rep a source) as), vol'))"

end
