(* ===== verification/Vsc_Forensic_Props.thy ===== *)
theory Vsc_Forensic_Props
  imports Vsc_Forensic
begin

text \<open>
  The properties of the audit: it never panics, reports exactly the anomalies of the stores
  (\<open>audit_spec\<close>), each with the severity, code and note of its kind, its sequence gaps are the
  holes in the set of sequence numbers, and its findings carry the evidence and the timestamps of
  what they report.
\<close>

section \<open>The loops of the audit\<close>

lemma push_gaps_append:
  "push_gaps voc ps out = out @ map (\<lambda>(p, n). Anomaly_new voc (SequenceGap p n))
     (filter (\<lambda>(p, n). saturating_add p 1 < n) ps)"
  by (induction voc ps out rule: push_gaps.induct) simp_all

lemma gap_check: "saturating_add p 1 < n \<longleftrightarrow> unat p + 1 < unat n"
  unfolding word_less_nat_alt unat_saturating_add min_def
  using unat_lt64 [of n] by (simp del: unat_lt64)

text \<open>The kinds the last loop adds: non-persistent stores, over any reader.\<close>

definition non_persistent_kind :: "(bytes \<Rightarrow> rstring) \<Rightarrow> StoreDescriptor list \<Rightarrow> AnomalyKind \<Rightarrow> bool" where
  "non_persistent_kind uuid ds k \<longleftrightarrow>
     (\<exists>d \<in> set ds. \<exists>fl. k = StoreNonPersistent (store_id_string uuid d) fl \<and>
        \<not> is_persistent (AttributeFlags fl))"

lemma store_info_not_panic: "read_seek ops \<Longrightarrow> fst (store_info ops i vol) \<noteq> Panic"
  unfolding store_info_def StoreBlockHeader_parse_ok StoreInfo_parse_ok Let_def
  by (intro panic_free) simp_all

lemma push_non_persistent_any:
  assumes "read_seek ops"
  shows "\<exists>ks r'. push_non_persistent voc uuid ops i ds out vol =
    (Some (out @ map (Anomaly_new voc) ks), vol\<lparr>reader := r'\<rparr>) \<and> list_all (non_persistent_kind uuid ds) ks"
proof (induction ds arbitrary: i out vol)
  case Nil
  show ?case
    by (rule exI [of _ "[]"], rule exI [of _ "reader vol"]) simp
next
  case (Cons d ds)
  obtain res vol1 where si: "store_info ops i vol = (res, vol1)" by (cases "store_info ops i vol")
  have res: "res \<noteq> Panic" using store_info_not_panic [OF assms, of i vol] si by simp
  obtain r1 where vol1: "vol1 = vol\<lparr>reader := r1\<rparr>" using store_info_frame [of ops i vol] si by auto
  define ks1 where "ks1 = (case res of
      Ok info \<Rightarrow> if \<not> is_persistent (attributes info)
        then [StoreNonPersistent (store_id_string uuid d) (attribute_bits (attributes info))] else []
    | _ \<Rightarrow> [])"
  have step: "push_non_persistent voc uuid ops i (d # ds) out vol =
      push_non_persistent voc uuid ops (i + 1) ds (out @ map (Anomaly_new voc) ks1) vol1"
    using res si by (cases res) (simp_all add: ks1_def)
  have ks1: "list_all (non_persistent_kind uuid (d # ds)) ks1"
    by (cases res) (auto simp: ks1_def non_persistent_kind_def)
  obtain ks r' where ks: "push_non_persistent voc uuid ops (i + 1) ds (out @ map (Anomaly_new voc) ks1) vol1 =
      (Some ((out @ map (Anomaly_new voc) ks1) @ map (Anomaly_new voc) ks), vol1\<lparr>reader := r'\<rparr>)"
    and all: "list_all (non_persistent_kind uuid ds) ks"
    using Cons.IH by blast
  have "list_all (non_persistent_kind uuid (d # ds)) (ks1 @ ks)"
    using ks1 all by (auto simp: list_all_iff non_persistent_kind_def)
  moreover have "push_non_persistent voc uuid ops i (d # ds) out vol =
      (Some (out @ map (Anomaly_new voc) (ks1 @ ks)), vol\<lparr>reader := r'\<rparr>)"
    unfolding step ks by (simp add: vol1)
  ultimately show ?case by blast
qed

text \<open>Over a volume the specification of \<open>store_info\<close> decides what the last loop adds.\<close>

definition non_persistent_spec ::
    "(bytes \<Rightarrow> rstring) \<Rightarrow> bytes \<Rightarrow> StoreDescriptor list \<Rightarrow> nat \<Rightarrow> AnomalyKind list" where
  "non_persistent_spec uuid v ds i =
     (case store_info_spec v ds i of
        Ok info \<Rightarrow> if is_persistent (attributes info) then []
          else [StoreNonPersistent (store_id_string uuid (ds ! i)) (attribute_bits (attributes info))]
      | _ \<Rightarrow> [])"

lemma push_non_persistent_over:
  assumes vr: "volume_reader ops invar contents position"
  shows "reads invar contents v (reader vol) \<Longrightarrow> total_size vol = of_nat (length v) \<Longrightarrow>
    ds = drop i (stores vol) \<Longrightarrow> i \<le> length (stores vol) \<Longrightarrow>
    fst (push_non_persistent voc uuid ops i ds out vol) = Some (out @ map (Anomaly_new voc)
      (concat (map (non_persistent_spec uuid v (stores vol)) [i..<length (stores vol)])))"
proof (induction ds arbitrary: i out vol)
  case (Cons d ds)
  then have i: "i < length (stores vol)" and d: "d = stores vol ! i" and ds: "ds = drop (Suc i) (stores vol)"
    by (auto simp: Cons_nth_drop_Suc [symmetric] dest: sym intro: ccontr)
      (metis Cons_nth_drop_Suc drop_all linorder_not_le list.distinct(1) list.inject)+
  obtain r' where si: "store_info ops i vol = (store_info_spec v (stores vol) i, vol\<lparr>reader := r'\<rparr>)"
    and r': "reads invar contents v r'"
    using store_info_over [OF vr Cons.prems(1,2), of i] by blast
  have np: "store_info_spec v (stores vol) i \<noteq> Panic"
    using store_info_not_panic [of ops i vol] volume_reader.axioms(1) [OF vr] si by simp
  have step: "push_non_persistent voc uuid ops i (d # ds) out vol =
      push_non_persistent voc uuid ops (Suc i) ds
        (out @ map (Anomaly_new voc) (non_persistent_spec uuid v (stores vol) i)) (vol\<lparr>reader := r'\<rparr>)"
    using np si d by (cases "store_info_spec v (stores vol) i") (simp_all add: non_persistent_spec_def)
  have "[i..<length (stores vol)] = i # [Suc i..<length (stores vol)]"
    using i by (rule upt_conv_Cons)
  then show ?case
    unfolding step
    using Cons.IH [of "vol\<lparr>reader := r'\<rparr>" "Suc i"] r' Cons.prems(2) ds i by simp
qed simp

section \<open>The audit as a list of kinds\<close>

definition gap_kinds :: "StoreDescriptor list \<Rightarrow> AnomalyKind list" where
  "gap_kinds ds =
     (let sq = sort (map sequence ds)
      in map (\<lambda>(p, n). SequenceGap p n) (filter (\<lambda>(p, n). unat p + 1 < unat n) (zip sq (drop 1 sq))))"

definition audit_spec ::
    "(bytes \<Rightarrow> rstring) \<Rightarrow> bytes \<Rightarrow> bool \<Rightarrow> StoreDescriptor list \<Rightarrow> AnomalyKind list" where
  "audit_spec uuid v has_header ds =
     (if has_header \<and> ds = [] then [NoShadowCopies]
      else map (store_present uuid) ds @ gap_kinds ds @
           concat (map (non_persistent_spec uuid v ds) [0..<length ds]))"

lemma audit_unfold:
  assumes "\<not> (has_vss_header vol \<and> stores vol = [])"
  shows "audit voc uuid ops vol = push_non_persistent voc uuid ops 0 (stores vol)
    (map (Anomaly_new voc) (map (store_present uuid) (stores vol) @ gap_kinds (stores vol))) vol"
proof -
  have "push_gaps voc ps out = out @ map (Anomaly_new voc)
      (map (\<lambda>(p, n). SequenceGap p n) (filter (\<lambda>(p, n). unat p + 1 < unat n) ps))" for ps out
    by (simp add: push_gaps_append gap_check split_def comp_def)
  then show ?thesis
    using assms by (auto simp: audit_def Let_def gap_kinds_def comp_def)
qed

lemma audit_any:
  assumes "read_seek ops"
  shows "\<exists>ks r'. audit voc uuid ops vol = (Some (map (Anomaly_new voc)
      (if has_vss_header vol \<and> stores vol = [] then [NoShadowCopies]
       else map (store_present uuid) (stores vol) @ gap_kinds (stores vol) @ ks)), vol\<lparr>reader := r'\<rparr>) \<and>
    list_all (non_persistent_kind uuid (stores vol)) ks"
proof (cases "has_vss_header vol \<and> stores vol = []")
  case True
  then show ?thesis
    by (intro exI [of _ "[]"] exI [of _ "reader vol"]) (simp add: audit_def)
next
  case False
  then show ?thesis
    unfolding audit_unfold [OF False]
    using push_non_persistent_any [OF assms, of voc uuid 0 "stores vol"
        "map (Anomaly_new voc) (map (store_present uuid) (stores vol) @ gap_kinds (stores vol))" vol]
    by (simp add: False)
qed

lemma audit_kinds:
  assumes "read_seek ops" and "fst (audit voc uuid ops vol) = Some as"
  obtains ks where "map anomaly_kind as =
      (if has_vss_header vol \<and> stores vol = [] then [NoShadowCopies]
       else map (store_present uuid) (stores vol) @ gap_kinds (stores vol) @ ks)"
    and "list_all (non_persistent_kind uuid (stores vol)) ks"
proof -
  have "map anomaly_kind (map (Anomaly_new voc) xs) = xs" for xs
    by (simp add: comp_def Anomaly_new_def)
  with that audit_any [OF assms(1), of voc uuid vol] assms(2) show ?thesis by force
qed

section \<open>Gaps\<close>

text \<open>Neighbours in a sorted list are the pairs with nothing between them.\<close>

lemma sorted_neighbours:
  assumes "sorted xs" and "p < n"
  shows "(p, n) \<in> set (zip xs (drop 1 xs)) \<longleftrightarrow>
    p \<in> set xs \<and> n \<in> set xs \<and> (\<forall>x \<in> set xs. x \<le> p \<or> n \<le> (x :: 'a :: linorder))"
  using assms
proof (induction xs)
  case (Cons x xs)
  show ?case
  proof (cases xs)
    case Nil
    with Cons.prems show ?thesis by auto
  next
    case (Cons y ys)
    have sx: "x \<le> y" "sorted (y # ys)" "\<forall>z \<in> set ys. y \<le> z"
      using Cons.prems Cons by auto
    have zip: "zip (x # xs) (drop 1 (x # xs)) = (x, y) # zip xs (drop 1 xs)"
      using Cons by simp
    have ih: "(p, n) \<in> set (zip xs (drop 1 xs)) \<longleftrightarrow>
        p \<in> set xs \<and> n \<in> set xs \<and> (\<forall>x \<in> set xs. x \<le> p \<or> n \<le> x)"
      using Cons.IH Cons.prems by simp
    show ?thesis
      unfolding zip using ih sx Cons \<open>p < n\<close>
      by (auto simp: order_antisym_conv)
  qed
qed simp

lemma gap_kinds_iff:
  "SequenceGap p n \<in> set (gap_kinds ds) \<longleftrightarrow>
     unat p + 1 < unat n \<and> p \<in> sequence ` set ds \<and> n \<in> sequence ` set ds \<and>
     (\<forall>d \<in> set ds. sequence d \<le> p \<or> n \<le> sequence d)"
proof -
  let ?sq = "sort (map sequence ds)"
  have "SequenceGap p n \<in> set (gap_kinds ds) \<longleftrightarrow>
      unat p + 1 < unat n \<and> (p, n) \<in> set (zip ?sq (drop 1 ?sq))"
    by (auto simp: gap_kinds_def Let_def)
  also have "\<dots> \<longleftrightarrow> unat p + 1 < unat n \<and> p \<in> set ?sq \<and> n \<in> set ?sq \<and>
      (\<forall>x \<in> set ?sq. x \<le> p \<or> n \<le> x)"
  proof (cases "unat p + 1 < unat n")
    case True
    then have "p < n" by (simp add: word_less_nat_alt)
    with True show ?thesis using sorted_neighbours [of ?sq p n] by simp
  qed simp
  finally show ?thesis by auto
qed

lemma gap_kinds_hole:
  "(\<exists>p n. SequenceGap p n \<in> set (gap_kinds ds)) \<longleftrightarrow>
   (\<exists>y. (\<exists>d \<in> set ds. unat (sequence d) < y) \<and> (\<exists>d \<in> set ds. y < unat (sequence d)) \<and>
        (\<forall>d \<in> set ds. unat (sequence d) \<noteq> y))"
proof
  assume "\<exists>p n. SequenceGap p n \<in> set (gap_kinds ds)"
  then obtain p n where g: "unat p + 1 < unat n" "p \<in> sequence ` set ds" "n \<in> sequence ` set ds"
    "\<forall>d \<in> set ds. sequence d \<le> p \<or> n \<le> sequence d"
    unfolding gap_kinds_iff by blast
  have lo: "\<exists>d \<in> set ds. unat (sequence d) < unat p + 1" using g(2) by auto
  have hi: "\<exists>d \<in> set ds. unat p + 1 < unat (sequence d)" using g(1,3) by blast
  have "unat (sequence d) \<noteq> unat p + 1" if "d \<in> set ds" for d
  proof -
    have "unat (sequence d) \<le> unat p \<or> unat n \<le> unat (sequence d)"
      using g(4) that by (simp add: word_le_nat_alt)
    with g(1) show ?thesis by linarith
  qed
  with lo hi show "\<exists>y. (\<exists>d \<in> set ds. unat (sequence d) < y) \<and> (\<exists>d \<in> set ds. y < unat (sequence d)) \<and>
        (\<forall>d \<in> set ds. unat (sequence d) \<noteq> y)"
    by blast
next
  assume "\<exists>y. (\<exists>d \<in> set ds. unat (sequence d) < y) \<and> (\<exists>d \<in> set ds. y < unat (sequence d)) \<and>
        (\<forall>d \<in> set ds. unat (sequence d) \<noteq> y)"
  then obtain y where y: "\<exists>d \<in> set ds. unat (sequence d) < y" "\<exists>d \<in> set ds. y < unat (sequence d)"
    "\<forall>d \<in> set ds. unat (sequence d) \<noteq> y" by blast
  let ?L = "{s \<in> sequence ` set ds. unat s < y}" and ?H = "{s \<in> sequence ` set ds. y < unat s}"
  have L: "Max ?L \<in> ?L" by (rule Max_in) (use y(1) in auto)
  have H: "Min ?H \<in> ?H" by (rule Min_in) (use y(2) in auto)
  have "sequence d \<le> Max ?L \<or> Min ?H \<le> sequence d" if "d \<in> set ds" for d
  proof (cases "unat (sequence d) < y")
    case True
    with that have "sequence d \<le> Max ?L" by (intro Max_ge) auto
    then show ?thesis ..
  next
    case False
    then have "y < unat (sequence d)" using y(3) that by force
    with that have "Min ?H \<le> sequence d" by (intro Min_le) auto
    then show ?thesis ..
  qed
  moreover have "unat (Max ?L) + 1 < unat (Min ?H)" using L H by auto
  ultimately show "\<exists>p n. SequenceGap p n \<in> set (gap_kinds ds)"
    unfolding gap_kinds_iff using L H by blast
qed

section \<open>Numbers as text\<close>

text \<open>Reading digits back, so that the text of a number determines it.\<close>

definition undigit :: "nat \<Rightarrow> nat" where
  "undigit c = (if c < 58 then c - 48 else c - 87)"

definition number_value :: "nat \<Rightarrow> rstring \<Rightarrow> nat" where
  "number_value b ds = foldl (\<lambda>a c. a * b + undigit c) 0 ds"

lemma undigit_digit: "d < 16 \<Longrightarrow> undigit (digit_char d) = d"
  by (simp add: undigit_def digit_char_def)

lemma number_value_digits:
  assumes "2 \<le> b" and "b \<le> 16"
  shows "number_value b (digits_in b n) = n"
proof (induction n rule: less_induct)
  case (less n)
  show ?case
  proof (cases "n < b")
    case True
    then show ?thesis
      using assms by (subst digits_in.simps) (simp add: number_value_def undigit_digit)
  next
    case False
    then have "n div b < n" using assms by (intro div_less_dividend) auto
    moreover have "n mod b < 16"
      using assms mod_less_divisor [of b n] by linarith
    moreover have "digits_in b n = digits_in b (n div b) @ [digit_char (n mod b)]"
      using False assms by (subst digits_in.simps) simp
    ultimately show ?thesis
      using less.IH [of "n div b"] by (simp add: number_value_def undigit_digit)
  qed
qed

lemma decimal_inj: "decimal a = decimal b \<longleftrightarrow> a = b"
proof
  assume "decimal a = decimal b"
  then have "number_value 10 (decimal a) = number_value 10 (decimal b)" by simp
  then have "unat a = unat b"
    by (simp add: decimal_def number_value_digits)
  then show "a = b" by (rule unsigned_word_eqI)
qed simp

lemma number_value_zeros: "number_value b (replicate k 48 @ ds) = number_value b ds"
  by (induction k) (simp_all add: number_value_def undigit_def)

lemma hex08_inj: "hex08 a = hex08 b \<longleftrightarrow> a = b"
proof
  have val: "number_value 16 (hex08 x) = unat x" for x
    by (simp add: hex08_def Let_def number_value_zeros number_value_digits)
  assume "hex08 a = hex08 b"
  then have "unat a = unat b" using val [of a] val [of b] by simp
  then show "a = b" by (rule unsigned_word_eqI)
qed simp

section \<open>Properties\<close>

definition sample_vocabulary :: "(nat, nat) vocabulary" where
  "sample_vocabulary = \<lparr>sev_info = 0, sev_low = 1, sev_medium = 2,
     cat_history = 0, cat_residue = 1, cat_provenance = 2\<rparr>"

definition stores_with :: "u64 list \<Rightarrow> StoreDescriptor list" where
  "stores_with sqs = map (\<lambda>sq. \<lparr>store_id = replicate 16 0, volume_size = 0, sequence = sq,
     snapshot_flags = 0, creation_time = 0, store_header_offset = None,
     store_bitmap_offset = None\<rparr>) sqs"

definition sample_audited :: "u64 list \<Rightarrow> cursor VssVolume" where
  "sample_audited sqs = \<lparr>reader = cursor_new [], total_size = 0, has_vss_header = True,
     catalog_offset = 0x4000, stores = stores_with sqs\<rparr>"

lemma audit_some:
  assumes "read_seek ops"
  shows "\<exists>as. fst (audit voc uuid ops vol) = Some as"
  using audit_any [OF assms, of voc uuid vol] by auto




lemma audit_over:
  assumes "volume_reader ops invar contents position"
    and "reads invar contents v (reader vol)" and "total_size vol = of_nat (length v)"
  shows "fst (audit voc uuid ops vol) =
    Some (map (Anomaly_new voc) (audit_spec uuid v (has_vss_header vol) (stores vol)))"
proof (cases "has_vss_header vol \<and> stores vol = []")
  case True
  then show ?thesis by (simp add: audit_def audit_spec_def)
next
  case False
  then show ?thesis
    unfolding audit_unfold [OF False]
    using push_non_persistent_over [OF assms, where ds = "stores vol" and i = 0 and voc = voc and uuid = uuid]
    by (auto simp: audit_spec_def)
qed

text \<open>C13: over a volume, the audit reports exactly the anomalies of the specification, in its
  order: one presence per store in catalog order, the sequence gaps in ascending order, and for
  each store whose information can be read and lacks the persistent bit, that it is
  non-persistent; or the single absence, for a volume with a VSS header and no stores.\<close>
theorem audit_refines_spec:
  assumes "volume_reader ops invar contents position"
    and "reads invar contents v (reader vol)" and "total_size vol = of_nat (length v)"
  shows "fst (audit voc uuid ops vol) =
    Some (map (Anomaly_new voc) (audit_spec uuid v (has_vss_header vol) (stores vol)))"
  by (rule audit_over [OF assms])

theorem audit_refines_spec_witness:
  "fst (audit sample_vocabulary (\<lambda>_. [65]) cursor_ops (sample_audited [7, 3])) =
     Some (map (Anomaly_new sample_vocabulary)
       [StorePresent [65] 7 0 0, StorePresent [65] 3 0 0, SequenceGap 3 7])"
proof -
  have r: "reads cursor_invar cursor_data [] (reader (sample_audited [7, 3]))"
    by (simp add: sample_audited_def cursor_reads)
  have size: "total_size (sample_audited [7, 3]) = of_nat (length ([] :: bytes))"
    by (simp add: sample_audited_def)
  have "sort [7, 3 :: u64] = [3, 7]" by simp
  moreover have "non_persistent_spec (\<lambda>_. [65]) [] (stores_with [7, 3]) i = []" if "i < 2" for i
    using that by (cases i) (auto simp: non_persistent_spec_def store_info_spec_def stores_with_def)
  ultimately have "audit_spec (\<lambda>_. [65]) [] True (stores_with [7, 3]) =
      [StorePresent [65] 7 0 0, StorePresent [65] 3 0 0, SequenceGap 3 7]"
    by (simp add: audit_spec_def gap_kinds_def stores_with_def store_present_def
        store_id_string_def format_guid_def)
  with audit_refines_spec [OF volume_reader_cursor r size, of sample_vocabulary "\<lambda>_. [65]"]
  show ?thesis by (simp add: sample_audited_def)
qed

text \<open>The absence of shadow copies is reported exactly when the volume has a VSS header and no
  store was enumerated, and then it is the only anomaly.\<close>
theorem no_shadow_copies_iff:
  assumes "read_seek ops" and "fst (audit voc uuid ops vol) = Some as"
  shows "(NoShadowCopies \<in> anomaly_kind ` set as \<longleftrightarrow> has_vss_header vol \<and> stores vol = []) \<and>
    (NoShadowCopies \<in> anomaly_kind ` set as \<longrightarrow> length as = 1)"
proof -
  obtain ks where as: "map anomaly_kind as =
      (if has_vss_header vol \<and> stores vol = [] then [NoShadowCopies]
       else map (store_present uuid) (stores vol) @ gap_kinds (stores vol) @ ks)"
    and ks: "list_all (non_persistent_kind uuid (stores vol)) ks"
    by (rule audit_kinds [OF assms])
  have set: "anomaly_kind ` set as = set (map anomaly_kind as)" by simp
  have len: "length as = length (map anomaly_kind as)" by simp
  have "NoShadowCopies \<notin> set ks"
    using ks by (auto simp: list_all_iff non_persistent_kind_def)
  moreover have "NoShadowCopies \<notin> set (gap_kinds ds)" for ds
    by (auto simp: gap_kinds_def Let_def)
  ultimately show ?thesis
    unfolding set len as by (auto simp: store_present_def)
qed

theorem no_shadow_copies_iff_witness:
  "\<exists>as. fst (audit sample_vocabulary (\<lambda>_. []) cursor_ops (sample_audited [])) = Some as \<and>
     NoShadowCopies \<in> anomaly_kind ` set as"
proof -
  obtain as where as: "fst (audit sample_vocabulary (\<lambda>_. []) cursor_ops (sample_audited [])) = Some as"
    using audit_some [OF read_seek_cursor] by blast
  with no_shadow_copies_iff [OF read_seek_cursor as] show ?thesis
    by (simp add: sample_audited_def stores_with_def)
qed

text \<open>C31: a sequence gap \<open>(p, n)\<close> is reported exactly when \<open>p\<close> and \<open>n\<close> are sequence numbers of
  stores, at least two apart, and no store has a sequence number between them.\<close>
theorem sequence_gap_iff:
  assumes "read_seek ops" and "fst (audit voc uuid ops vol) = Some as"
  shows "SequenceGap p n \<in> anomaly_kind ` set as \<longleftrightarrow>
    unat p + 1 < unat n \<and> p \<in> sequence ` set (stores vol) \<and> n \<in> sequence ` set (stores vol) \<and>
    (\<forall>d \<in> set (stores vol). sequence d \<le> p \<or> n \<le> sequence d)"
proof -
  obtain ks where as: "map anomaly_kind as =
      (if has_vss_header vol \<and> stores vol = [] then [NoShadowCopies]
       else map (store_present uuid) (stores vol) @ gap_kinds (stores vol) @ ks)"
    and ks: "list_all (non_persistent_kind uuid (stores vol)) ks"
    by (rule audit_kinds [OF assms])
  have set: "anomaly_kind ` set as = set (map anomaly_kind as)" by simp
  have "SequenceGap p n \<notin> set ks"
    using ks by (auto simp: list_all_iff non_persistent_kind_def)
  then have "SequenceGap p n \<in> anomaly_kind ` set as \<longleftrightarrow> SequenceGap p n \<in> set (gap_kinds (stores vol))"
    unfolding set as by (auto simp: store_present_def gap_kinds_def)
  then show ?thesis unfolding gap_kinds_iff .
qed

theorem sequence_gap_iff_witness:
  "\<exists>as. fst (audit sample_vocabulary (\<lambda>_. []) cursor_ops (sample_audited [1, 5, 2])) = Some as \<and>
     SequenceGap 2 5 \<in> anomaly_kind ` set as \<and> SequenceGap 1 5 \<notin> anomaly_kind ` set as"
proof -
  obtain as where as: "fst (audit sample_vocabulary (\<lambda>_. []) cursor_ops (sample_audited [1, 5, 2])) = Some as"
    using audit_some [OF read_seek_cursor] by blast
  with sequence_gap_iff [OF read_seek_cursor as, of 2 5] sequence_gap_iff [OF read_seek_cursor as, of 1 5]
  show ?thesis by (simp add: sample_audited_def stores_with_def word_le_nat_alt)
qed

text \<open>Some gap is reported exactly when the sequence numbers have a hole: a number between the
  least and the greatest that no store has. A contiguous run, with repetitions or not, in any
  order, reports none.\<close>
theorem gaps_are_holes:
  assumes "read_seek ops" and "fst (audit voc uuid ops vol) = Some as"
  shows "(\<exists>p n. SequenceGap p n \<in> anomaly_kind ` set as) \<longleftrightarrow>
    (\<exists>y. (\<exists>d \<in> set (stores vol). unat (sequence d) < y) \<and>
         (\<exists>d \<in> set (stores vol). y < unat (sequence d)) \<and>
         (\<forall>d \<in> set (stores vol). unat (sequence d) \<noteq> y))"
proof -
  obtain ks where as: "map anomaly_kind as =
      (if has_vss_header vol \<and> stores vol = [] then [NoShadowCopies]
       else map (store_present uuid) (stores vol) @ gap_kinds (stores vol) @ ks)"
    and ks: "list_all (non_persistent_kind uuid (stores vol)) ks"
    by (rule audit_kinds [OF assms])
  have set: "anomaly_kind ` set as = set (map anomaly_kind as)" by simp
  have "SequenceGap p n \<in> anomaly_kind ` set as \<longleftrightarrow> SequenceGap p n \<in> set (gap_kinds (stores vol))" for p n
    unfolding set as using ks
    by (auto simp: store_present_def gap_kinds_def list_all_iff non_persistent_kind_def)
  then show ?thesis unfolding gap_kinds_hole [symmetric] by simp
qed

theorem gaps_are_holes_witness:
  "\<exists>as. fst (audit sample_vocabulary (\<lambda>_. []) cursor_ops (sample_audited [3, 2, 2])) = Some as \<and>
     (\<forall>p n. SequenceGap p n \<notin> anomaly_kind ` set as)"
proof -
  obtain as where as: "fst (audit sample_vocabulary (\<lambda>_. []) cursor_ops (sample_audited [3, 2, 2])) = Some as"
    using audit_some [OF read_seek_cursor] by blast
  with gaps_are_holes [OF read_seek_cursor as] show ?thesis
    by (auto simp: sample_audited_def stores_with_def)
qed

text \<open>The creation time of a store, counted from 1970.\<close>

lemma filetime_counted:
  "filetime_to_rfc3339 jiff ft =
     (if unat ft < 116444736000000000 then None
      else jiff ((int (unat ft) - 116444736000000000) * 100))"
proof (cases "unat ft < 116444736000000000")
  case True
  then show ?thesis
    by (simp add: filetime_to_rfc3339_def FILETIME_EPOCH_DIFF_def word_less_nat_alt)
next
  case False
  then have le: "116444736000000000 \<le> ft" by (simp add: word_le_nat_alt)
  have "uint (ft - 116444736000000000) = uint ft - 116444736000000000"
    using uint_minus_simple_alt [of "116444736000000000" ft] le by simp
  with False show ?thesis
    by (auto simp: filetime_to_rfc3339_def FILETIME_EPOCH_DIFF_def word_less_nat_alt Let_def)
qed

text \<open>C33: the creation time of a finding is exact: a FILETIME before 1970 gives none, and any other
  is rendered from its count of nanoseconds since then, with no wrap-around and no loss.\<close>
theorem filetime_exact:
  "filetime_to_rfc3339 jiff ft =
     (if unat ft < 116444736000000000 then None
      else jiff ((int (unat ft) - 116444736000000000) * 100))"
  by (rule filetime_counted)

text \<open>A finding loses nothing but the note: its code and its evidence determine the anomaly it
  reports, to the last digit of every number.\<close>
theorem evidence_determines_kind:
  assumes "kind_code k = kind_code k'"
    and "kind_evidence k = (kind_evidence k' :: 'loc Evidence list)"
  shows "k = k'"
proof -
  have code: "ascii s = ascii t \<longleftrightarrow> s = t" for s t
    by (simp add: ascii_def inj_map_eq_map inj_of_char)
  show ?thesis
    using assms
    by (cases k; cases k') (simp_all add: code evidence_def decimal_inj hex08_inj)
qed

theorem evidence_determines_kind_witness:
  "kind_evidence (SequenceGap 1 12) \<noteq> (kind_evidence (SequenceGap 11 2) :: unit Evidence list)"
  using evidence_determines_kind [where 'loc = unit, of "SequenceGap 1 12" "SequenceGap 11 2"] by auto

text \<open>C32: \<open>audit_findings\<close> gives one finding per anomaly of the audit, in order, and leaves the
  volume as the audit does, over every reader. If the report library keeps with a finding the
  observation and the source it starts from (\<open>base\<close>), starts it without timestamps and appends
  what is pushed (\<open>ts\<close>), then every finding carries the analyzer's source, the severity, code,
  category, subjects, evidence and technique of its kind with the values of its anomaly, and the
  anomaly's note; and its timestamps are the creation time of a present store, counted in
  nanoseconds from 1970, where it is not before 1970 and can be rendered, and none otherwise.\<close>
theorem findings_mirror_audit:
  assumes "read_seek ops"
    and "\<And>ob src. base (default_to_finding rep ob src) = (ob, src)"
    and "\<And>t f. base (push_timestamp rep t f) = base f"
    and "\<And>ob src. ts (default_to_finding rep ob src) = []"
    and "\<And>t f. ts (push_timestamp rep t f) = ts f @ [t]"
  shows "\<exists>as fs vol'. audit voc uuid ops vol = (Some as, vol') \<and>
    audit_findings voc uuid jiff rep ver ops vol scp = (Some fs, vol') \<and>
    (let source = \<lparr>analyzer = ascii ''vsc-forensic'', scope = scp, source_version = Some ver\<rparr>
     in list_all2 (\<lambda>a f. case anomaly_kind a of
         NoShadowCopies \<Rightarrow> base f = (\<lparr>obs_severity = Some (sev_low voc), obs_code = ascii ''VSC-NO-SHADOW-COPIES'',
           obs_note = anomaly_note a, obs_category = cat_history voc,
           obs_subjects = [],
           obs_evidence = [],
           obs_mitre = [ascii ''T1490'']\<rparr>, source) \<and>
           ts f = []
       | StorePresent sid sq vsize ctime \<Rightarrow> base f = (\<lparr>obs_severity = Some (sev_info voc), obs_code = ascii ''VSC-STORE-PRESENT'',
           obs_note = anomaly_note a, obs_category = cat_history voc,
           obs_subjects = [\<lparr>scheme = ascii ''vss'', subject_kind = ascii ''shadow_copy'', subject_id = sid, label = None\<rparr>],
           obs_evidence = [\<lparr>evidence_field = ascii ''store_id'', evidence_value = sid, evidence_location = None\<rparr>,
             \<lparr>evidence_field = ascii ''sequence'', evidence_value = decimal sq, evidence_location = None\<rparr>,
             \<lparr>evidence_field = ascii ''volume_size'', evidence_value = decimal vsize, evidence_location = None\<rparr>,
             \<lparr>evidence_field = ascii ''creation_time_filetime'', evidence_value = decimal ctime, evidence_location = None\<rparr>],
           obs_mitre = []\<rparr>, source) \<and>
           ts f = (if unat ctime < 116444736000000000 then []
             else case jiff ((int (unat ctime) - 116444736000000000) * 100) of
                 None \<Rightarrow> []
               | Some t \<Rightarrow> [\<lparr>ts_value = t, ts_kind = ascii ''created'', ts_location = None\<rparr>])
       | SequenceGap p n \<Rightarrow> base f = (\<lparr>obs_severity = Some (sev_medium voc), obs_code = ascii ''VSC-SEQUENCE-GAP'',
           obs_note = anomaly_note a, obs_category = cat_residue voc,
           obs_subjects = [],
           obs_evidence = [\<lparr>evidence_field = ascii ''previous_sequence'', evidence_value = decimal p, evidence_location = None\<rparr>,
             \<lparr>evidence_field = ascii ''next_sequence'', evidence_value = decimal n, evidence_location = None\<rparr>],
           obs_mitre = [ascii ''T1490'']\<rparr>, source) \<and>
           ts f = []
       | StoreNonPersistent sid fl \<Rightarrow> base f = (\<lparr>obs_severity = Some (sev_low voc), obs_code = ascii ''VSC-STORE-NON-PERSISTENT'',
           obs_note = anomaly_note a, obs_category = cat_provenance voc,
           obs_subjects = [\<lparr>scheme = ascii ''vss'', subject_kind = ascii ''shadow_copy'', subject_id = sid, label = None\<rparr>],
           obs_evidence = [\<lparr>evidence_field = ascii ''store_id'', evidence_value = sid, evidence_location = None\<rparr>,
             \<lparr>evidence_field = ascii ''attribute_flags'', evidence_value = ascii ''0x'' @ hex08 fl, evidence_location = None\<rparr>],
           obs_mitre = []\<rparr>, source) \<and>
           ts f = []) as fs)"
    (is "\<exists>as fs vol'. ?audit as vol' \<and> ?findings fs vol' \<and> (let source = ?src in list_all2 (?mirrors source) as fs)")
proof -
  have push: "ts (fold (push_timestamp rep) tss f) = ts f @ tss"
    "base (fold (push_timestamp rep) tss f) = base f" for tss f
    by (induction tss arbitrary: f) (simp_all add: assms(3,5))
  have finding: "base (to_finding voc jiff rep a src) = (observation_of voc a, src)"
    "ts (to_finding voc jiff rep a src) = kind_timestamps jiff (anomaly_kind a)" for a src
    by (simp_all add: to_finding_def push assms(2,4))
  obtain ks r' where audit: "audit voc uuid ops vol = (Some (map (Anomaly_new voc) ks), vol\<lparr>reader := r'\<rparr>)"
    using audit_any [OF assms(1), of voc uuid vol] by blast
  let ?fs = "map (\<lambda>k. to_finding voc jiff rep (Anomaly_new voc k) ?src) ks"
  have "audit_findings voc uuid jiff rep ver ops vol scp = (Some ?fs, vol\<lparr>reader := r'\<rparr>)"
    by (simp add: audit_findings_def audit ANALYZER_def comp_def)
  moreover have "list_all2 (?mirrors ?src) (map (Anomaly_new voc) ks) ?fs"
    by (auto simp: list_all2_conv_all_nth Let_def finding observation_of_def Anomaly_new_def
        shadow_copy_subject_def evidence_def filetime_counted split: AnomalyKind.split option.split)
  ultimately show ?thesis using audit by (simp only: Let_def) blast
qed

text \<open>A finding that is what it starts from, with the list of its timestamps.\<close>

definition sample_report ::
    "(nat, nat, unit, unit, ((nat, nat, unit, unit) observation \<times> Source) \<times> unit Timestamp list) report_ops" where
  "sample_report = \<lparr>default_to_finding = (\<lambda>ob src. ((ob, src), [])),
     push_timestamp = (\<lambda>t f. (fst f, snd f @ [t]))\<rparr>"

theorem findings_mirror_audit_witness:
  "\<exists>f fs. fst (audit_findings sample_vocabulary (\<lambda>b. [unat (hd b)]) (\<lambda>n. Some [nat n]) sample_report []
       cursor_ops ((sample_audited [])\<lparr>stores := [sample_store]\<rparr>) []) = Some (f # fs) \<and>
     obs_code (fst (fst f)) = ascii ''VSC-STORE-PRESENT'' \<and>
     snd f = [\<lparr>ts_value = [1355526400000000000], ts_kind = ascii ''created'', ts_location = None\<rparr>]"
proof -
  let ?vol = "(sample_audited [])\<lparr>stores := [sample_store]\<rparr>"
  let ?uuid = "\<lambda>b :: bytes. [unat (hd b)]"
  have base: "\<And>ob src. fst (default_to_finding sample_report ob src) = (ob, src)"
    "\<And>t f. fst (push_timestamp sample_report t f) = fst f"
    and ts: "\<And>ob src. snd (default_to_finding sample_report ob src) = []"
    "\<And>t f. snd (push_timestamp sample_report t f) = snd f @ [t]"
    by (simp_all add: sample_report_def)
  have r: "reads cursor_invar cursor_data [] (reader ?vol)"
    by (simp add: sample_audited_def cursor_reads)
  have "audit_spec ?uuid [] True [sample_store] = [StorePresent [7] 1 32768 130000000000000000]"
    by (simp add: audit_spec_def gap_kinds_def store_present_def store_id_string_def format_guid_def
        sample_store_def non_persistent_spec_def store_info_spec_def)
  then have "fst (audit sample_vocabulary ?uuid cursor_ops ?vol) =
      Some [Anomaly_new sample_vocabulary (StorePresent [7] 1 32768 130000000000000000)]"
    using audit_over [OF volume_reader_cursor r, of sample_vocabulary ?uuid]
    by (simp add: sample_audited_def)
  with findings_mirror_audit [OF read_seek_cursor base ts, of sample_vocabulary ?uuid ?vol
      "\<lambda>n. Some [nat n]" "[]" "[]"]
  show ?thesis
    by (auto simp: list_all2_Cons1 Anomaly_new_def Let_def)
qed

end
