(* ===== verification/Vss_Format_Props.thy ===== *)
theory Vss_Format_Props
  imports Vss_Block Vss_Catalog Vss_Store
begin

unbundle bit_operations_syntax

text \<open>
  The properties of the format layer: the bounds-checked readers, the UTF-16 decoder, and the
  parsers of the records against their on-disk layouts.
\<close>

section \<open>The readers\<close>

text \<open>C37: the readers, for every buffer and offset: the little-endian value of the bytes at the
  offset if they all lie in the buffer, zero if they do not, and a panic exactly when the end of
  the field is more than \<open>usize::MAX\<close>.\<close>
theorem reads_exact:
  "le_u16 b off = (if usize_max < off + 2 then None
     else Some (if off + 2 \<le> length b then of_nat (le_nat (take 2 (drop off b))) else 0)) \<and>
   le_u32 b off = (if usize_max < off + 4 then None
     else Some (if off + 4 \<le> length b then of_nat (le_nat (take 4 (drop off b))) else 0)) \<and>
   le_u64 b off = (if usize_max < off + 8 then None
     else Some (if off + 8 \<le> length b then of_nat (le_nat (take 8 (drop off b))) else 0)) \<and>
   read_guid b off = (if usize_max < off + 16 then None
     else Some (if off + 16 \<le> length b then take 16 (drop off b) else replicate 16 0))"
proof -
  have field: "from_le_bytes (field b off n) =
      (if off + n \<le> length b then of_nat (le_nat (take n (drop off b))) else 0)" for n
    by (simp add: field_def subslice_def) (simp add: from_le_bytes_def)
  have "le_u16 b off = None" if "usize_max < off + 2" using that by (simp add: le_u16_def usize_add_def)
  moreover have "le_u32 b off = None" if "usize_max < off + 4" using that by (simp add: le_u32_def usize_add_def)
  moreover have "le_u64 b off = None" if "usize_max < off + 8" using that by (simp add: le_u64_def usize_add_def)
  moreover have "read_guid b off = None" if "usize_max < off + 16" using that by (simp add: read_guid_def usize_add_def)
  moreover note le_u16_field [of off b] le_u32_field [of off b] le_u64_field [of off b] read_guid_field [of off b]
  ultimately show ?thesis
    unfolding field not_less [symmetric] by (simp add: field_def subslice_def)
qed

section \<open>UTF-16\<close>

text \<open>A string of Unicode scalar values written as UTF-16LE is read back, supplementary planes
  included, and a stray byte at the end makes no difference.\<close>
theorem utf16_roundtrip:
  assumes "\<forall>c \<in> set s. is_scalar c"
  shows "utf16le_string (utf16le_bytes s) = s \<and> utf16le_string (utf16le_bytes s @ [x]) = s"
proof
  show eq: "utf16le_string (utf16le_bytes s) = s" by (rule utf16le_roundtrip [OF assms])
  have "length (utf16le_bytes s) = 2 * length (encode_utf16 s)"
    by (simp add: utf16le_bytes_def length_concat comp_def sum_list_triv)
  then have "chunks_exact2 (utf16le_bytes s @ [x]) = chunks_exact2 (utf16le_bytes s)"
    by (intro chunks_exact2_odd) simp
  then show "utf16le_string (utf16le_bytes s @ [x]) = s"
    using eq by (simp add: utf16le_string_def)
qed

theorem utf16_roundtrip_witness:
  "utf16le_string (utf16le_bytes [0x48, 0x1F600, 0xFFFD]) = [0x48, 0x1F600, 0xFFFD]"
  using utf16_roundtrip [of "[0x48, 0x1F600, 0xFFFD]" 0] by (simp add: is_scalar_def)

text \<open>Decoding any bytes gives a well-formed Rust string: every element is a Unicode scalar
  value (an unpaired surrogate became U+FFFD), and there is at most one for every two bytes.\<close>
lemma utf16_always_scalar:
  "list_all is_scalar (utf16le_string b) \<and> 2 * length (utf16le_string b) \<le> length b"
proof
  show "list_all is_scalar (utf16le_string b)"
    by (auto simp: utf16le_string_def list_all_iff is_scalar_def [of 65533]
        dest: decode_utf16_scalar split: option.split)
  have "length (utf16le_string b) \<le> length b div 2"
    using length_decode_utf16 [of "map from_le_bytes (chunks_exact2 b)"]
    by (simp add: utf16le_string_def length_chunks_exact2)
  then show "2 * length (utf16le_string b) \<le> length b" by linarith
qed

section \<open>Records\<close>

text \<open>The parsers of the diff-area records are the exact inverses of the layouts: a record laid
  out parses to itself whatever follows it, and every 32 bytes are the layout of the descriptor
  they parse to, every 24 bytes that of the range; no byte is ignored and none is changed.\<close>
theorem diff_records_exact:
  "BlockDescriptor_parse (encode_descriptor d @ rest) = Some d \<and>
   StoreBlockRange_parse (encode_range g @ rest) = Some g \<and>
   (length b = 32 \<longrightarrow> map_option encode_descriptor (BlockDescriptor_parse b) = Some b) \<and>
   (length b = 24 \<longrightarrow> map_option encode_range (StoreBlockRange_parse b) = Some b)"
  using descriptor.parse_encode [of d rest] range.parse_encode [of g rest]
    descriptor.encode_parse [of b] range.encode_parse [of b] by auto

theorem diff_records_exact_witness:
  "map_option encode_descriptor (BlockDescriptor_parse (replicate 32 7)) = Some (replicate 32 7)"
  using diff_records_exact [where b = "replicate 32 7"] by simp

text \<open>The volume header, the catalog entries and the store block header parse back from their
  layouts, whatever bytes follow, for every entry a catalog can hold.\<close>
theorem headers_roundtrip:
  assumes "valid_volume_header h" and "valid_entry e"
  shows "VolumeHeader_parse (encode_volume_header h @ rest) = Some h \<and>
    parse_catalog_entry (encode_entry e @ rest) = Some e \<and>
    StoreBlockHeader_parse (encode_store_header s @ rest) = Some s"
  using volume_header.parse_encode [OF assms(1)] catalog_entry.parse_encode [OF assms(2)]
    store_header.parse_encode [of s] by simp

theorem headers_roundtrip_witness:
  "parse_catalog_entry (encode_entry (StorePointer (replicate 16 9) 0x8000 0xC000) @ [1, 2]) =
     Some (StorePointer (replicate 16 9) 0x8000 0xC000)"
proof -
  have "valid_volume_header \<lparr>has_vss_identifier = True, version = 1, record_type = 1, current_offset = 0,
      header_catalog_offset = 0, maximum_size = 0, volume_identifier = replicate 16 0,
      storage_volume_identifier = replicate 16 0\<rparr>"
    by (simp add: valid_volume_header_def)
  moreover have "valid_entry (StorePointer (replicate 16 9) 0x8000 0xC000)" by simp
  ultimately show ?thesis using headers_roundtrip by blast
qed

text \<open>An entry is a store only with type 0x02 and a pointer only with type 0x03; type 0 is an
  empty slot and any other type is ignored; a buffer too short for the type is an empty slot.\<close>
lemma entry_types:
  "\<exists>e. parse_catalog_entry buf = Some e \<and>
     (let t = le_nat (take 8 buf) in
      ((\<exists>d. e = Snapshot d) \<longleftrightarrow> 8 \<le> length buf \<and> t = 2) \<and>
      ((\<exists>sid h b. e = StorePointer sid h b) \<longleftrightarrow> 8 \<le> length buf \<and> t = 3) \<and>
      (e = Empty \<longleftrightarrow> length buf < 8 \<or> t = 0))"
proof (cases "8 \<le> length buf")
  case True
  let ?t = "from_le_bytes (field buf 0 8) :: u64"
  have "le_nat (take 8 buf) < 2 ^ 64"
    using le_nat_bound [of "take 8 buf"] True by simp
  then have t: "unat ?t = le_nat (take 8 buf)"
    using True by (simp add: field_def subslice_def from_le_bytes_def unat_of_nat)
  have "?t = 2 \<longleftrightarrow> unat ?t = 2" "?t = 3 \<longleftrightarrow> unat ?t = 3" "?t = 0 \<longleftrightarrow> unat ?t = 0"
    by (simp_all add: word_unat_eq_iff)
  with True show ?thesis
    unfolding parse_catalog_entry_fields Let_def t by auto
next
  case False
  then show ?thesis
    by (simp add: parse_catalog_entry_fields field_def Let_def)
qed

text \<open>The store information parses from any bytes without a panic: its machine names are
  well-formed strings whose bytes both lie in the buffer, so a name whose stated size leaves it
  is empty, and the identifiers are 16 bytes each.\<close>
lemma store_info_total:
  "\<exists>i. StoreInfo_parse buf = Some i \<and>
     length (shadow_copy_id i) = 16 \<and> length (shadow_copy_set_id i) = 16 \<and>
     list_all is_scalar (operating_machine i) \<and> list_all is_scalar (service_machine i) \<and>
     2 * (length (operating_machine i) + length (service_machine i)) \<le> length buf"
proof -
  have bound: "2 * length (utf16le_string (subslice buf s n)) \<le> n" for s n
  proof -
    have "length (utf16le_string b) \<le> length b div 2" for b
      using length_decode_utf16 [of "map from_le_bytes (chunks_exact2 b)"]
      by (simp add: utf16le_string_def length_chunks_exact2)
    from this [of "subslice buf s n"] show ?thesis by simp
  qed
  have scalar: "list_all is_scalar (utf16le_string b)" for b
    by (auto simp: utf16le_string_def list_all_iff is_scalar_def [of 65533]
        dest: decode_utf16_scalar split: option.split)
  let ?op = "unat (from_le_bytes (field buf 64 2) :: u16)"
  let ?svc = "unat (from_le_bytes (field buf (66 + ?op) 2) :: u16)"
  show ?thesis
    unfolding StoreInfo_parse_fields Let_def
    using bound [of 66 ?op] bound [of "68 + ?op" ?svc] by (auto simp: scalar)
qed

text \<open>The flag tests of the records are tests of single bits: for a descriptor bits 0, 1 and 2,
  for the attributes of a store bits 0, 2 and 17.\<close>
lemma flag_tests_are_bits:
  "is_forwarder f = bit (bits f) 0 \<and> is_overlay f = bit (bits f) 1 \<and> is_not_used f = bit (bits f) 2 \<and>
   is_persistent a = bit (attribute_bits a) 0 \<and> is_client_accessible a = bit (attribute_bits a) 2 \<and>
   is_differential a = bit (attribute_bits a) 17"
  by (simp add: flag_bits is_persistent_def is_client_accessible_def is_differential_def
      attr_contains_def PERSISTENT_def CLIENT_ACCESSIBLE_def DIFFERENTIAL_def
      bit_iff_and_push_bit_not_eq_0 push_bit_eq_mult)

end
