(* ===== verification/Vss_Fuzz.thy ===== *)
theory Vss_Fuzz
  imports Vss_Reconstruct_Props
begin

text \<open>
  \<open>core/fuzz/fuzz_targets\<close>: the three fuzz targets, over \<open>Cursor<Vec<u8>>\<close>. What they assert by
  running, that no input panics, is proved here for every input. \<open>None\<close> is a panic.
\<close>

section \<open>\<open>fuzz_catalog.rs\<close>\<close>

fun fuzz_store_infos :: "usize list \<Rightarrow> cursor VssVolume \<Rightarrow> cursor VssVolume option" where
  "fuzz_store_infos [] vol = Some vol"
| "fuzz_store_infos (i # is) vol =
     (case store_info cursor_ops i vol of
        (Panic, _) \<Rightarrow> None
      | (_, vol') \<Rightarrow> fuzz_store_infos is vol')"

definition fuzz_catalog :: "bytes \<Rightarrow> unit option" where
  "fuzz_catalog data =
     (case open_volume cursor_ops (cursor_new data) of
        Panic \<Rightarrow> None
      | Err _ \<Rightarrow> Some ()
      | Ok vol \<Rightarrow> do {
          let _ = VssVolume_has_vss_header vol;
          let _ = VssVolume_catalog_offset vol;
          let _ = VssVolume_volume_size vol;
          let count = store_count vol;
          vol \<leftarrow> fuzz_store_infos [0..<count] vol;
          (case fst (store_info cursor_ops count vol) of Panic \<Rightarrow> None | _ \<Rightarrow> Some ())
        })"

section \<open>\<open>fuzz_store.rs\<close>\<close>

definition fuzz_store :: "(bytes \<Rightarrow> rstring) \<Rightarrow> bytes \<Rightarrow> unit option" where
  "fuzz_store uuid data = do {
     info \<leftarrow> StoreInfo_parse data;
     let _ = shadow_copy_id_string uuid info;
     let _ = shadow_copy_set_id_string uuid info;
     let _ = is_persistent (attributes info);
     _ \<leftarrow> StoreBlockHeader_parse data;
     _ \<leftarrow> BlockDescriptor_parse data;
     _ \<leftarrow> StoreBlockRange_parse data;
     Some ()
   }"

section \<open>\<open>fuzz_reconstruct.rs\<close>\<close>

definition fuzz_block :: "u64 \<Rightarrow> cursor Snapshot \<Rightarrow> cursor Snapshot option" where
  "fuzz_block off snap =
     (case Snapshot_read_block cursor_ops off snap of (Panic, _) \<Rightarrow> None | (_, snap') \<Rightarrow> Some snap')"

text \<open>A read into \<open>&mut buf[..n]\<close>.\<close>

definition fuzz_read :: "u64 \<Rightarrow> usize \<Rightarrow> bytes \<times> cursor Snapshot \<Rightarrow> (bytes \<times> cursor Snapshot) option" where
  "fuzz_read off n s = do {
     part \<leftarrow> slice_get (fst s) 0 n;
     (case Snapshot_read_at cursor_ops off part (snd s) of
        (Panic, _) \<Rightarrow> None
      | (_, (part', snap')) \<Rightarrow> Some (part' @ drop n (fst s), snap'))
   }"

definition fuzz_reconstruct :: "bytes \<Rightarrow> unit option" where
  "fuzz_reconstruct data =
     (case open_volume cursor_ops (cursor_new data) of
        Panic \<Rightarrow> None
      | Err _ \<Rightarrow> Some ()
      | Ok vol \<Rightarrow>
          (case fst (snapshot cursor_ops 0 vol) of
             Panic \<Rightarrow> None
           | Err _ \<Rightarrow> Some ()
           | Ok snap \<Rightarrow> do {
               snap \<leftarrow> fuzz_block 0 snap;
               snap \<leftarrow> fuzz_block (16384 + 123) snap;
               snap \<leftarrow> fuzz_block u64_max snap;
               s \<leftarrow> fuzz_read 0 40000 (replicate 40000 0, snap);
               s \<leftarrow> fuzz_read (16384 - 7) 64 s;
               s \<leftarrow> fuzz_read (u64_max - 10) 32 s;
               Some ()
             }))"

section \<open>Properties\<close>

lemma store_info_not_panic_cursor: "fst (store_info cursor_ops i vol) \<noteq> Panic"
  unfolding store_info_def StoreBlockHeader_parse_ok StoreInfo_parse_ok Let_def
  using read_seek_cursor by (intro panic_free) simp_all

lemma fuzz_store_infos_ok:
  "\<exists>r. fuzz_store_infos is vol = Some (vol\<lparr>reader := r\<rparr>)"
proof (induction "is" arbitrary: vol)
  case Nil
  show ?case by (rule exI [of _ "reader vol"]) simp
next
  case (Cons i "is")
  obtain res vol' where si: "store_info cursor_ops i vol = (res, vol')"
    by (cases "store_info cursor_ops i vol")
  have "res \<noteq> Panic" using store_info_not_panic_cursor [of i vol] si by simp
  moreover obtain r where "vol' = vol\<lparr>reader := r\<rparr>"
    using store_info_frame [of cursor_ops i vol] si by auto
  ultimately show ?case using si Cons.IH [of vol'] by (cases res) auto
qed

lemma store_info_past_end:
  "fst (store_info ops (store_count vol) vol) = Err (StoreIndexOutOfRange (store_count vol) (store_count vol))"
  by (simp add: store_info_def vec_get_def store_count_def)

lemma fuzz_catalog_ok: "fuzz_catalog data = Some ()"
proof (cases "open_volume cursor_ops (cursor_new data)")
  case (Ok vol)
  obtain r where "fuzz_store_infos [0..<store_count vol] vol = Some (vol\<lparr>reader := r\<rparr>)"
    using fuzz_store_infos_ok by blast
  with Ok store_info_past_end [of cursor_ops "vol\<lparr>reader := r\<rparr>"] show ?thesis
    by (simp add: fuzz_catalog_def store_count_def)
next
  case Panic
  then show ?thesis using open_volume_not_panic [OF read_seek_cursor] by blast
qed (simp add: fuzz_catalog_def)

lemma fuzz_store_ok: "fuzz_store uuid data = Some ()"
  by (simp add: fuzz_store_def StoreInfo_parse_ok StoreBlockHeader_parse_ok BlockDescriptor_parse_ok
      StoreBlockRange_parse_fields)

lemma fuzz_block_ok: "\<exists>s'. fuzz_block off s = Some s'"
  using read_block_safe [OF read_seek_cursor, of "state s" off "snapshot_reader s"]
  by (cases "read_block cursor_ops (state s) off (snapshot_reader s)";
      cases "fst (read_block cursor_ops (state s) off (snapshot_reader s))")
    (auto simp: fuzz_block_def Snapshot_read_block_def)

lemma fuzz_read_ok:
  assumes "n \<le> length (fst s)" and "n \<le> isize_max"
  shows "\<exists>s'. fuzz_read off n s = Some s' \<and> length (fst s') = length (fst s)"
proof -
  let ?st = "state (snd s)" and ?part = "take n (fst s)" and ?r = "snapshot_reader (snd s)"
  have part: "slice_get (fst s) 0 n = Some ?part" using assms by (simp add: slice_get_def)
  have "length ?part \<le> isize_max" using assms by simp
  from read_at_loop_safe [OF read_seek_cursor this, of ?st 0 off ?r] show ?thesis
    using assms
    by (cases "read_at_loop cursor_ops ?st 0 off ?part ?r";
        cases "fst (read_at_loop cursor_ops ?st 0 off ?part ?r)")
      (auto simp: fuzz_read_def part Snapshot_read_at_def read_at_def)
qed

lemma fuzz_reconstruct_ok: "fuzz_reconstruct data = Some ()"
proof (cases "open_volume cursor_ops (cursor_new data)")
  case (Ok vol)
  show ?thesis
  proof (cases "fst (snapshot cursor_ops 0 vol)")
    case Ok': (Ok snap)
    obtain s1 where s1: "fuzz_block 0 snap = Some s1" using fuzz_block_ok by blast
    obtain s2 where s2: "fuzz_block (16384 + 123) s1 = Some s2" using fuzz_block_ok by blast
    obtain s3 where s3: "fuzz_block u64_max s2 = Some s3" using fuzz_block_ok by blast
    obtain t1 where t1: "fuzz_read 0 40000 (replicate 40000 0, s3) = Some t1" "length (fst t1) = 40000"
      using fuzz_read_ok [of 40000 "(replicate 40000 0, s3)" 0] by (auto simp: isize_max_val)
    obtain t2 where t2: "fuzz_read (16384 - 7) 64 t1 = Some t2" "length (fst t2) = 40000"
      using fuzz_read_ok [of 64 t1 "16384 - 7"] t1 by (auto simp: isize_max_val)
    obtain t3 where t3: "fuzz_read (u64_max - 10) 32 t2 = Some t3"
      using fuzz_read_ok [of 32 t2 "u64_max - 10"] t2 by (auto simp: isize_max_val)
    show ?thesis
      using Ok Ok' s1 s2 s3 t1 t2 t3 by (simp add: fuzz_reconstruct_def)
  next
    case Panic
    have "fst (snapshot cursor_ops 0 vol) \<noteq> Panic"
      unfolding snapshot_def snapshot_state_def Let_def
      by (intro panic_free read_seek_cursor)
    with Panic show ?thesis by blast
  qed (simp add: fuzz_reconstruct_def Ok)
next
  case Panic
  then show ?thesis using open_volume_not_panic [OF read_seek_cursor] by blast
qed (simp add: fuzz_reconstruct_def)

text \<open>C38: the fuzz targets hold for every input: on any bytes the catalog target, the record target
  and the reconstruction target run to their end without a panic, the blocks and ranges at
  \<open>u64::MAX\<close> included.\<close>
theorem fuzz_targets_never_panic:
  "fuzz_catalog data = Some () \<and> fuzz_store uuid data = Some () \<and> fuzz_reconstruct data = Some ()"
  by (simp add: fuzz_catalog_ok fuzz_store_ok fuzz_reconstruct_ok)

end
