(* ===== verification/Vss_Source.thy ===== *)
theory Vss_Source
  imports Vss_Reconstruct_Props
begin

text \<open>
  \<open>core/src/vfs.rs\<close>: an owned snapshot published as an image source, with its reader behind a
  mutex. The traits and types of \<open>forensic_vfs\<close> are third-party: of \<open>VfsError\<close> the model has
  the one variant the sources build, and the contract of \<open>ImageSource\<close> that the sources state
  (at or past the end read 0 bytes, across the end read the available prefix) is the locale
  \<open>image_source\<close>, with the facts a client can rely on proved inside it.
\<close>

section \<open>The contract\<close>

datatype VfsError = VfsIo rstring io_error

text \<open>What a read of the buffer \<open>buf\<close> at \<open>off\<close> gives on the image \<open>img\<close>: the count, and the
  buffer with that many bytes replaced.\<close>

definition answer :: "bytes \<Rightarrow> u64 \<Rightarrow> bytes \<Rightarrow> (VfsError, usize) outcome \<times> bytes" where
  "answer img off buf =
     (let n = min (length buf) (length img - unat off)
      in (Ok n, subslice img (unat off) n @ drop n buf))"

text \<open>
  Threads that share a source. Each has the reads it still has to make and the answers it got; a
  step is one thread's next read, whole, because the read holds the source's lock: which thread
  gets the lock next is left open. \<open>Vss_Locking\<close> takes the lock apart and justifies these steps.
\<close>

type_synonym 's pool =
  "'s \<times> (nat \<Rightarrow> (u64 \<times> bytes) list) \<times> (nat \<Rightarrow> ((VfsError, usize) outcome \<times> bytes) list)"

inductive thread_step ::
    "(u64 \<Rightarrow> bytes \<Rightarrow> 's \<Rightarrow> (VfsError, usize) outcome \<times> (bytes \<times> 's)) \<Rightarrow> 's pool \<Rightarrow> 's pool \<Rightarrow> bool"
  for rd where
  one_read: "pending t = (off, buf) # qs \<Longrightarrow> rd off buf s = (res, (buf', s')) \<Longrightarrow>
    thread_step rd (s, pending, got) (s', pending(t := qs), got(t := got t @ [(res, buf')]))"

inductive_cases thread_stepE: "thread_step rd (s, pending, got) w"

locale image_source =
  fixes len_of :: "'s \<Rightarrow> u64"
    and read_from :: "u64 \<Rightarrow> bytes \<Rightarrow> 's \<Rightarrow> (VfsError, usize) outcome \<times> (bytes \<times> 's)"
    and valid :: "'s \<Rightarrow> bool"
    and image :: "'s \<Rightarrow> bytes"
  assumes len_law: "valid s \<Longrightarrow> unat (len_of s) = length (image s)"
    and read_law: "valid s \<Longrightarrow> length buf \<le> isize_max \<Longrightarrow>
      \<exists>s'. read_from off buf s = (fst (answer (image s) off buf), (snd (answer (image s) off buf), s')) \<and>
           valid s' \<and> image s' = image s"
begin

lemma past_end:
  "valid s \<Longrightarrow> length buf \<le> isize_max \<Longrightarrow> len_of s \<le> off \<Longrightarrow>
   fst (read_from off buf s) = Ok 0 \<and> fst (snd (read_from off buf s)) = buf"
  using read_law [of s buf off] len_law [of s]
  by (auto simp: answer_def Let_def word_le_nat_alt subslice_def)

text \<open>Each thread has the answers to the reads it has made, as if it had made them alone.\<close>

definition answered ::
    "bytes \<Rightarrow> (nat \<Rightarrow> (u64 \<times> bytes) list) \<Rightarrow> 's pool \<Rightarrow> bool" where
  "answered img requests w \<longleftrightarrow> (case w of (s, pending, got) \<Rightarrow>
     valid s \<and> image s = img \<and>
     (\<forall>t. \<exists>made. requests t = made @ pending t \<and> got t = map (\<lambda>q. answer img (fst q) (snd q)) made))"

lemma answered_step:
  assumes "thread_step read_from w w'" and "answered img requests w"
    and small: "\<And>t q. q \<in> set (requests t) \<Longrightarrow> length (snd q) \<le> isize_max"
  shows "answered img requests w'"
proof -
  obtain s pending got where w: "w = (s, pending, got)" by (cases w)
  have s: "valid s" "image s = img"
    and inv: "\<And>t. \<exists>made. requests t = made @ pending t \<and> got t = map (\<lambda>q. answer img (fst q) (snd q)) made"
    using assms(2) unfolding w answered_def by auto
  from assms(1) show ?thesis
    unfolding w
  proof (rule thread_stepE)
    fix t off buf qs res buf' s'
    assume w': "w' = (s', pending(t := qs), got(t := got t @ [(res, buf')]))"
      and pend: "pending t = (off, buf) # qs" and rd: "read_from off buf s = (res, buf', s')"
    obtain made where made: "requests t = made @ pending t"
      "got t = map (\<lambda>q. answer img (fst q) (snd q)) made" using inv by blast
    then have "length buf \<le> isize_max" using small [of "(off, buf)" t] pend by simp
    from read_law [OF s(1) this, of off] rd s(2) have
      "valid s'" "image s' = img" "(res, buf') = answer img off buf" by auto
    moreover have "requests t = (made @ [(off, buf)]) @ qs" using made(1) pend by simp
    moreover have "got t @ [(res, buf')] = map (\<lambda>q. answer img (fst q) (snd q)) (made @ [(off, buf)])"
      using made(2) calculation(3) by simp
    ultimately show ?thesis
      using inv unfolding w' answered_def by (auto simp del: append_assoc)
  qed
qed

lemma answered_steps:
  assumes "(thread_step read_from)\<^sup>*\<^sup>* (s, requests, \<lambda>_. []) w" and "valid s"
    and small: "\<And>t q. q \<in> set (requests t) \<Longrightarrow> length (snd q) \<le> isize_max"
  shows "answered (image s) requests w"
  using assms(1)
proof induction
  case base
  with assms(2) show ?case by (simp add: answered_def)
next
  case (step w w')
  from answered_step [OF step.hyps(2) step.IH small] show ?case .
qed

end

section \<open>State and operations\<close>

record 'r mutex =
  poisoned :: bool
  inner :: 'r

text \<open>\<open>lock().unwrap_or_else(PoisonError::into_inner)\<close>: a poisoned lock is taken all the same.\<close>

definition mutex_lock :: "'r mutex \<Rightarrow> 'r + 'r" where
  "mutex_lock m = (if poisoned m then Inl (inner m) else Inr (inner m))"

definition lock_or_into_inner :: "'r mutex \<Rightarrow> 'r" where
  "lock_or_into_inner m = (case mutex_lock m of Inl r \<Rightarrow> r | Inr r \<Rightarrow> r)"

record 'r VssSnapshotSource =
  source_reader :: "'r mutex"
  source_state :: SnapshotState
  source_volume_size :: u64

definition source_open ::
    "'r read_seek_ops \<Rightarrow> 'r \<Rightarrow> usize \<Rightarrow> (VssError, 'r VssSnapshotSource) outcome" where
  "source_open ops r i =
     (case open_volume ops r of
        Err e \<Rightarrow> Err e
      | Panic \<Rightarrow> Panic
      | Ok vol \<Rightarrow>
          fst (and_then (snapshot_state ops i vol) (\<lambda>st vol.
            let vs = VssVolume_volume_size vol
            in (Ok \<lparr>source_reader = \<lparr>poisoned = False, inner = reader vol\<rparr>,
                    source_state = st, source_volume_size = vs\<rparr>, vol))))"

definition source_len :: "'r VssSnapshotSource \<Rightarrow> u64" where
  "source_len src = source_volume_size src"

definition checked_sub :: "u64 \<Rightarrow> u64 \<Rightarrow> u64 option" where
  "checked_sub a b = (if b \<le> a then Some (a - b) else None)"

text \<open>The lock's guard is dropped at the end of the call, or by an unwinding panic, which poisons
  the mutex.\<close>

definition source_read_at ::
    "'r read_seek_ops \<Rightarrow> u64 \<Rightarrow> bytes \<Rightarrow> 'r VssSnapshotSource \<Rightarrow>
     (VfsError, usize) outcome \<times> (bytes \<times> 'r VssSnapshotSource)" where
  "source_read_at ops off buf src =
     (case checked_sub (source_volume_size src) off of
        None \<Rightarrow> (Ok 0, (buf, src))
      | Some remaining \<Rightarrow>
          let want = min (case usize_try_from remaining of Some n \<Rightarrow> n | None \<Rightarrow> usize_max) (length buf)
          in
          if want = 0 then (Ok 0, (buf, src))
          else
            or_panic (slice_get buf 0 want) (buf, src) (\<lambda>part.
            case read_at ops (source_state src) off part (lock_or_into_inner (source_reader src)) of
              (res, (part', r)) \<Rightarrow>
                let buf' = part' @ drop want buf
                in (case res of
                      Ok _ \<Rightarrow> (Ok want, (buf', src\<lparr>source_reader := (source_reader src)\<lparr>inner := r\<rparr>\<rparr>))
                    | Err e \<Rightarrow> (Err (VfsIo (ascii ''vss snapshot read'') e),
                                (buf', src\<lparr>source_reader := (source_reader src)\<lparr>inner := r\<rparr>\<rparr>))
                    | Panic \<Rightarrow> (Panic, (buf', src\<lparr>source_reader := \<lparr>poisoned = True, inner = r\<rparr>\<rparr>)))))"

lemma lock_or_into_inner [simp]: "lock_or_into_inner m = inner m"
  by (simp add: lock_or_into_inner_def mutex_lock_def)

section \<open>The source meets the contract\<close>

definition source_valid ::
    "('r \<Rightarrow> bool) \<Rightarrow> ('r \<Rightarrow> bytes) \<Rightarrow> 'r VssSnapshotSource \<Rightarrow> bool" where
  "source_valid invar contents src \<longleftrightarrow>
     invar (inner (source_reader src)) \<and>
     source_volume_size src = of_nat (length (contents (inner (source_reader src)))) \<and>
     snapshot_volume_size (source_state src) = source_volume_size src"

definition snapshot_image :: "bytes \<Rightarrow> SnapshotState \<Rightarrow> bytes" where
  "snapshot_image v st = map (snapshot_byte v st) [0..<length v]"

definition source_image :: "('r \<Rightarrow> bytes) \<Rightarrow> 'r VssSnapshotSource \<Rightarrow> bytes" where
  "source_image contents src =
     snapshot_image (contents (inner (source_reader src))) (source_state src)"

lemma length_snapshot_image [simp]: "length (snapshot_image v st) = length v"
  by (simp add: snapshot_image_def)

lemma snapshot_image_range:
  assumes "off + n \<le> length v"
  shows "map (\<lambda>j. snapshot_byte v st (off + j)) [0..<n] = subslice (snapshot_image v st) off n"
  by (rule nth_equalityI) (use assms in \<open>auto simp: snapshot_image_def\<close>)

text \<open>The number of bytes a read transfers, as the code computes it.\<close>

lemma source_want:
  assumes "length v < 2 ^ 64"
  shows "(case checked_sub (of_nat (length v)) off of None \<Rightarrow> 0 | Some remaining \<Rightarrow>
      min (case usize_try_from remaining of Some n \<Rightarrow> n | None \<Rightarrow> usize_max) k) =
    min k (length v - unat off)"
proof -
  have "unat (of_nat (length v) :: u64) = length v" using assms by (simp add: unat_of_nat)
  then show ?thesis
    by (auto simp: checked_sub_def unat_sub word_le_nat_alt min.commute)
qed

lemma min_eq_0 [simp]: "min a b = 0 \<longleftrightarrow> a = 0 \<or> b = (0 :: nat)"
  by (auto simp: min_def)

lemma source_read_at_unfold:
  assumes "want = (case checked_sub (source_volume_size src) off of None \<Rightarrow> 0 | Some remaining \<Rightarrow>
      min (case usize_try_from remaining of Some n \<Rightarrow> n | None \<Rightarrow> usize_max) (length buf))"
  shows "source_read_at ops off buf src =
    (if want = 0 then (Ok 0, (buf, src))
     else case read_at ops (source_state src) off (take want buf) (inner (source_reader src)) of
            (res, (part, r)) \<Rightarrow>
              (case res of
                 Ok _ \<Rightarrow> (Ok want, (part @ drop want buf,
                            src\<lparr>source_reader := (source_reader src)\<lparr>inner := r\<rparr>\<rparr>))
               | Err e \<Rightarrow> (Err (VfsIo (ascii ''vss snapshot read'') e),
                           (part @ drop want buf, src\<lparr>source_reader := (source_reader src)\<lparr>inner := r\<rparr>\<rparr>))
               | Panic \<Rightarrow> (Panic, (part @ drop want buf,
                            src\<lparr>source_reader := \<lparr>poisoned = True, inner = r\<rparr>\<rparr>))))"
proof (cases "checked_sub (source_volume_size src) off")
  case None
  with assms show ?thesis by (simp add: source_read_at_def)
next
  case (Some a)
  with assms have "want = min (unat a) (length buf)" by simp
  with Some show ?thesis
    by (auto simp: source_read_at_def slice_get_def Let_def split: prod.split outcome.split)
qed

lemma source_meets_contract:
  assumes vr: "volume_reader ops invar contents position"
  shows "image_source source_len (source_read_at ops) (source_valid invar contents) (source_image contents)"
proof (unfold_locales, goal_cases)
  case (1 s)
  then have "length (contents (inner (source_reader s))) < 2 ^ 64"
    using volume_reader.fits [OF vr] by (simp add: source_valid_def)
  with 1 show ?case
    by (simp add: source_valid_def source_len_def source_image_def unat_of_nat)
next
  case (2 src buf off)
  let ?v = "contents (inner (source_reader src))"
  have r: "reads invar contents ?v (inner (source_reader src))"
    and size: "source_volume_size src = of_nat (length ?v)"
      "snapshot_volume_size (source_state src) = of_nat (length ?v)"
    using 2(1) by (simp_all add: source_valid_def reads_def)
  note fit = volume_reader.holds_fits [OF vr r]
  let ?n = "min (length buf) (length ?v - unat off)"
  have want: "?n = (case checked_sub (source_volume_size src) off of None \<Rightarrow> 0 | Some remaining \<Rightarrow>
      min (case usize_try_from remaining of Some n \<Rightarrow> n | None \<Rightarrow> usize_max) (length buf))"
    unfolding size(1) source_want [OF fit] by simp
  have ans: "answer (source_image contents src) off buf =
      (Ok ?n, subslice (source_image contents src) (unat off) ?n @ drop ?n buf)"
    by (simp add: answer_def source_image_def Let_def)
  show ?case
  proof (cases "?n = 0")
    case True
    then show ?thesis
      unfolding ans source_read_at_unfold [OF want] using 2(1) by (auto simp: subslice_def)
  next
    case False
    then have le: "unat off + ?n \<le> length ?v" by auto
    have len: "length (take ?n buf) = ?n" by simp
    have small: "?n \<le> isize_max" using 2(2) by linarith
    obtain r' where rd: "read_at ops (source_state src) off (take ?n buf) (inner (source_reader src)) =
        (Ok (), (subslice (source_image contents src) (unat off) ?n, r'))"
      and r': "reads invar contents ?v r'"
      using read_at_volume [OF vr r size(2), of "take ?n buf" off]
        snapshot_image_range [OF le, of "source_state src"] small le fit
      unfolding len by (auto simp: source_image_def)
    show ?thesis
      unfolding ans source_read_at_unfold [OF want] rd
      using False 2(1) r' by (auto simp: source_valid_def source_image_def reads_def)
  qed
qed

text \<open>Every reader over a volume gives an image source.\<close>

sublocale volume_reader \<subseteq> vss_image:
  image_source source_len "source_read_at ops" "source_valid invar contents" "source_image contents"
  by (rule source_meets_contract [OF volume_reader_axioms])

section \<open>Opening\<close>

lemma source_open_over:
  assumes "volume_reader ops invar contents position" and "reads invar contents v r"
  shows "(case snapshot_state_spec v (volume_stores v) i of
      Ok st \<Rightarrow> \<exists>src. source_open ops r i = Ok src \<and> source_state src = st \<and>
                source_valid invar contents src \<and> source_image contents src = snapshot_image v st \<and>
                unat (source_len src) = length v
    | Err e \<Rightarrow> source_open ops r i = Err e
    | Panic \<Rightarrow> False)"
proof -
  from open_volume_over [OF assms] obtain r1 where r1: "reads invar contents v r1" and
    o1: "open_volume ops r = Ok \<lparr>reader = r1, total_size = of_nat (length v),
       has_vss_header = volume_has_header v, catalog_offset = volume_catalog_offset v,
       stores = volume_stores v\<rparr>" (is "_ = Ok ?vol") by blast
  have r1': "reads invar contents v (reader ?vol)" using r1 by simp
  from snapshot_state_over [OF assms(1) r1', of i] obtain r2 where
    st: "snapshot_state ops i ?vol = (snapshot_state_spec v (volume_stores v) i, ?vol\<lparr>reader := r2\<rparr>)"
    and r2: "reads invar contents v r2" by auto
  have size: "snapshot_volume_size s = of_nat (length v)"
    if "snapshot_state_spec v (volume_stores v) i = Ok s" for s
    using that by (auto simp: snapshot_state_spec_def state_of_def split: if_splits option.splits)
  have len: "unat (of_nat (length v) :: u64) = length v"
    using volume_reader.holds_fits [OF assms] by (simp add: unat_of_nat)
  show ?thesis
  proof (cases "snapshot_state_spec v (volume_stores v) i")
    case (Ok s)
    with r2 size [OF Ok] len show ?thesis
      by (auto simp: source_open_def o1 st VssVolume_volume_size_def Let_def source_valid_def
          source_image_def source_len_def reads_def)
  next
    case (Err e)
    then show ?thesis by (simp add: source_open_def o1 st)
  next
    case Panic
    then show ?thesis
      by (simp add: snapshot_state_spec_def split: if_splits option.splits)
  qed
qed

section \<open>Properties\<close>

text \<open>C15: opening snapshot \<open>i\<close> of a volume as an image source fails exactly when there is no such
  store or it has no pointers, with the error of \<open>snapshot_state\<close>; otherwise the source is of
  the length of the volume and its image is the snapshot of the specification.\<close>
theorem source_open_refines_spec:
  assumes "volume_reader ops invar contents position" and "reads invar contents v r"
  shows "(case snapshot_state_spec v (volume_stores v) i of
      Ok st \<Rightarrow> \<exists>src. source_open ops r i = Ok src \<and> source_state src = st \<and>
                source_valid invar contents src \<and> source_image contents src = snapshot_image v st \<and>
                unat (source_len src) = length v
    | Err e \<Rightarrow> source_open ops r i = Err e
    | Panic \<Rightarrow> False)"
  by (rule source_open_over [OF assms])

theorem source_open_refines_spec_witness:
  "source_open cursor_ops (cursor_new []) 3 = Err (StoreIndexOutOfRange 3 0)"
proof -
  have "reads cursor_invar cursor_data [] (cursor_new [])" by (simp add: cursor_reads)
  from source_open_refines_spec [OF volume_reader_cursor this, of 3] show ?thesis
    by (simp add: snapshot_state_spec_def volume_stores_def volume_has_header_def header_of_def)
qed

text \<open>C14: a read of a valid source never fails: it gives the count of bytes between the offset and
  the end of the image, at most the buffer's length and 0 at or past the end, fills that prefix
  of the buffer with the snapshot's bytes and leaves the rest of it as it was. A poisoned lock
  makes no difference.\<close>
theorem source_read_contract:
  assumes "volume_reader ops invar contents position" and "source_valid invar contents src"
    and "length buf \<le> isize_max" and "n = min (length buf) (unat (source_len src) - unat off)"
  shows "\<exists>src'. source_read_at ops off buf (src\<lparr>source_reader := (source_reader src)\<lparr>poisoned := p\<rparr>\<rparr>) =
      (Ok n, (map (\<lambda>j. snapshot_byte (contents (inner (source_reader src))) (source_state src) (unat off + j))
                [0..<n] @ drop n buf, src')) \<and>
    source_valid invar contents src' \<and> source_image contents src' = source_image contents src"
proof -
  let ?v = "contents (inner (source_reader src))"
  let ?src = "src\<lparr>source_reader := (source_reader src)\<lparr>poisoned := p\<rparr>\<rparr>"
  have valid: "source_valid invar contents ?src"
    and img: "source_image contents ?src = source_image contents src"
    using assms(2) by (simp_all add: source_valid_def source_image_def)
  have len: "unat (source_len src) = length ?v"
    using image_source.len_law [OF source_meets_contract [OF assms(1)] assms(2)]
    by (simp add: source_image_def)
  have n: "n = min (length buf) (length (source_image contents src) - unat off)"
    using assms(4) len by (simp add: source_image_def)
  have ans: "answer (source_image contents src) off buf =
      (Ok n, map (\<lambda>j. snapshot_byte ?v (source_state src) (unat off + j)) [0..<n] @ drop n buf)"
  proof (cases "n = 0")
    case True
    then show ?thesis unfolding answer_def Let_def n [symmetric] by (simp add: subslice_def)
  next
    case False
    then have le: "unat off + n \<le> length ?v" using n by (auto simp: source_image_def)
    show ?thesis
      unfolding answer_def Let_def n [symmetric] snapshot_image_range [OF le]
      by (simp add: source_image_def)
  qed
  show ?thesis
    using image_source.read_law [OF source_meets_contract [OF assms(1)]
        valid assms(3), of off]
    unfolding img ans by auto
qed

definition empty_source :: "bytes \<Rightarrow> cursor VssSnapshotSource" where
  "empty_source v = \<lparr>source_reader = \<lparr>poisoned = False, inner = cursor_new v\<rparr>,
     source_state = empty_state (of_nat (length v)), source_volume_size = of_nat (length v)\<rparr>"

lemma empty_source_valid: "length v \<le> isize_max \<Longrightarrow> source_valid cursor_invar cursor_data (empty_source v)"
  by (simp add: source_valid_def empty_source_def empty_state_def)

theorem source_read_contract_witness:
  "\<exists>src'. source_read_at cursor_ops 2 [5, 6, 7]
     ((empty_source [1, 2, 3])\<lparr>source_reader := \<lparr>poisoned = True, inner = cursor_new [1, 2, 3]\<rparr>\<rparr>) =
     (Ok 1, ([0, 6, 7], src'))"
proof -
  have valid: "source_valid cursor_invar cursor_data (empty_source [1, 2, 3])"
    by (rule empty_source_valid) (simp add: isize_max_val)
  have one: "1 = min (length [5, 6, 7 :: u8]) (unat (source_len (empty_source [1, 2, 3])) - unat (2 :: u64))"
    by (simp add: source_len_def empty_source_def)
  have zero: "snapshot_byte [1, 2, 3] (empty_state 3) 2 = 0"
    by (simp add: snapshot_byte_def empty_state_def is_unallocated_def vec_get_def
        block_or_zeros_def in_volume_def vss_consts Let_def)
  have poison: "(empty_source [1, 2, 3])\<lparr>source_reader := (source_reader (empty_source [1, 2, 3]))
      \<lparr>poisoned := True\<rparr>\<rparr> = (empty_source [1, 2, 3])\<lparr>source_reader :=
      \<lparr>poisoned = True, inner = cursor_new [1, 2, 3]\<rparr>\<rparr>"
    by (simp add: empty_source_def)
  have len: "length [5, 6, 7 :: u8] \<le> isize_max" by (simp add: isize_max_val)
  show ?thesis
    using source_read_contract [OF volume_reader_cursor valid len one, of True]
    unfolding poison by (auto simp: empty_source_def zero [unfolded numeral_2_eq_2])
qed

text \<open>Over any reader, whatever it returns, neither opening a source nor reading from it
  panics; a read keeps the buffer's length, and its count is at most that length and never
  reaches past the end of the source.\<close>
theorem source_never_panics:
  assumes "read_seek ops" and "length buf \<le> isize_max"
  shows "source_open ops r i \<noteq> Panic \<and> fst (source_read_at ops off buf src) \<noteq> Panic \<and>
    length (fst (snd (source_read_at ops off buf src))) = length buf \<and>
    (\<forall>n s. source_read_at ops off buf src = (Ok n, s) \<longrightarrow>
       n \<le> length buf \<and> n \<le> unat (source_len src) - unat off)"
proof (intro conjI)
  have "fst (and_then (snapshot_state ops i vol) f) \<noteq> Panic"
    if "\<And>st vol. fst (f st vol) \<noteq> Panic" for vol :: "'a VssVolume" and f :: "SnapshotState \<Rightarrow>
      'a VssVolume \<Rightarrow> (VssError, 'a VssSnapshotSource) outcome \<times> 'a VssVolume"
    unfolding snapshot_state_def Let_def
    by (intro panic_free assms that)
  then show "source_open ops r i \<noteq> Panic"
    using open_volume_not_panic [OF assms(1), of r]
    by (simp add: source_open_def Let_def split: outcome.split)
next
  let ?want = "case checked_sub (source_volume_size src) off of None \<Rightarrow> 0 | Some remaining \<Rightarrow>
      min (case usize_try_from remaining of Some n \<Rightarrow> n | None \<Rightarrow> usize_max) (length buf)"
  obtain res part r' where rd: "read_at ops (source_state src) off (take ?want buf)
      (inner (source_reader src)) = (res, (part, r'))" by (metis prod.collapse)
  have le: "?want \<le> length buf" and le2: "?want \<le> unat (source_len src) - unat off"
    by (auto simp: source_len_def checked_sub_def unat_sub split: option.split)
  have small: "length (take ?want buf) \<le> isize_max" using assms(2) by simp
  from read_at_loop_safe [OF assms(1) small, of "source_state src" 0 off "inner (source_reader src)"]
  have res: "res \<noteq> Panic" and part: "length part = ?want"
    using rd le by (simp_all add: read_at_def)
  have eq: "source_read_at ops off buf src = (if ?want = 0 then (Ok 0, (buf, src)) else
      (case res of Ok _ \<Rightarrow> (Ok ?want, (part @ drop ?want buf, src\<lparr>source_reader := (source_reader src)\<lparr>inner := r'\<rparr>\<rparr>))
       | Err e \<Rightarrow> (Err (VfsIo (ascii ''vss snapshot read'') e),
           (part @ drop ?want buf, src\<lparr>source_reader := (source_reader src)\<lparr>inner := r'\<rparr>\<rparr>))
       | Panic \<Rightarrow> (Panic, (part @ drop ?want buf, src\<lparr>source_reader := \<lparr>poisoned = True, inner = r'\<rparr>\<rparr>))))"
    unfolding source_read_at_unfold [OF refl] rd by simp
  show "fst (source_read_at ops off buf src) \<noteq> Panic"
    unfolding eq using res by (cases res) simp_all
  show "length (fst (snd (source_read_at ops off buf src))) = length buf"
    unfolding eq using part le by (cases res) simp_all
  show "\<forall>n s. source_read_at ops off buf src = (Ok n, s) \<longrightarrow>
       n \<le> length buf \<and> n \<le> unat (source_len src) - unat off"
    unfolding eq using le le2 by (cases res) auto
qed

theorem source_never_panics_witness:
  "fst (source_read_at cursor_ops 0 [1, 2] (empty_source [7])) \<noteq> Panic"
proof -
  have "length [1, 2 :: u8] \<le> isize_max" by (simp add: isize_max_val)
  from source_never_panics [OF read_seek_cursor this] show ?thesis by blast
qed

text \<open>Threads that share a source do not disturb each other. In every interleaving of any
  number of threads' reads, in whatever order the lock admits them, each thread gets for each of
  its reads, in its order, the answer it would get alone.\<close>
theorem threads_do_not_interfere:
  assumes "volume_reader ops invar contents position" and "source_valid invar contents src"
    and "\<And>t q. q \<in> set (requests t) \<Longrightarrow> length (snd q) \<le> isize_max"
    and "(thread_step (source_read_at ops))\<^sup>*\<^sup>* (src, requests, \<lambda>_. []) (src', pending, got)"
  shows "\<exists>made. requests t = made @ pending t \<and>
    got t = map (\<lambda>q. answer (source_image contents src) (fst q) (snd q)) made"
  using image_source.answered_steps [OF source_meets_contract [OF assms(1)] assms(4,2,3)]
  by (simp add: image_source.answered_def [OF source_meets_contract [OF assms(1)]])

theorem threads_do_not_interfere_witness:
  "\<exists>src' got. (thread_step (source_read_at cursor_ops))\<^sup>*\<^sup>*
     (empty_source [4], (\<lambda>_. [])(1 := [(9, [1])]), \<lambda>_. []) (src', \<lambda>_. [], got) \<and> got 1 = [(Ok 0, [1])]"
proof -
  let ?req = "(\<lambda>_. [])(1 := [(9, [1])]) :: nat \<Rightarrow> (u64 \<times> bytes) list"
  have valid: "source_valid cursor_invar cursor_data (empty_source [4])"
    by (rule empty_source_valid) (simp add: isize_max_val)
  have small: "length (snd q) \<le> isize_max" if "q \<in> set (?req t)" for t q
    using that by (auto simp: isize_max_val split: if_splits)
  obtain res buf' src' where rd: "source_read_at cursor_ops 9 [1] (empty_source [4]) = (res, (buf', src'))"
    by (metis prod.collapse)
  have "thread_step (source_read_at cursor_ops) (empty_source [4], ?req, \<lambda>_. [])
      (src', ?req(1 := []), (\<lambda>_. [])(1 := [] @ [(res, buf')]))"
    using one_read [where rd = "source_read_at cursor_ops" and pending = ?req and t = 1 and off = 9
        and buf = "[1]" and qs = "[]" and s = "empty_source [4]" and got = "\<lambda>_. []"] rd by simp
  moreover have "?req(1 := []) = (\<lambda>_. [])" by auto
  ultimately have run: "(thread_step (source_read_at cursor_ops))\<^sup>*\<^sup>*
      (empty_source [4], ?req, \<lambda>_. []) (src', \<lambda>_. [], (\<lambda>_. [])(1 := [(res, buf')]))"
    by auto
  from threads_do_not_interfere [OF volume_reader_cursor valid small run, where t = 1]
  have "[(res, buf')] = [(Ok 0, [1])]"
    by (auto simp: answer_def source_image_def empty_source_def subslice_def)
  with run show ?thesis by force
qed

end
