(* ===== verification/Reader_Simulation.thy ===== *)
theory Reader_Simulation
  imports Vss_Source
begin

text \<open>
  Every operation of the sources is generic over its reader. \<open>follows\<close> says that a computation
  on one reader does what the same computation does on another one, seen through \<open>view\<close>, or
  else fails. The locale \<open>reader_simulation\<close> asks this of the three
  operations of a reader and gives it for every operation of the volume, the snapshot and the
  image source: how a reader behaves is all an operation can tell it by. \<open>live\<close> holds of the
  readers that are related, \<open>down\<close> of the error that a failed computation gives together with the
  reader it leaves, so that an error can be traced to the operation of the reader that gave it.
\<close>

section \<open>Following a computation\<close>

definition follows ::
    "('r \<Rightarrow> 's) \<Rightarrow> ('r \<Rightarrow> bool) \<Rightarrow> ('e \<Rightarrow> 'r \<Rightarrow> bool) \<Rightarrow>
     ('e, 'a) outcome \<times> 'r \<Rightarrow> ('e, 'a) outcome \<times> 's \<Rightarrow> bool" where
  "follows view live down p q \<longleftrightarrow>
     fst p = fst q \<and> view (snd p) = snd q \<and> live (snd p) \<or>
     (\<exists>e. fst p = Err e \<and> down e (snd p))"

lemma followsE:
  assumes "follows view live down p q"
  obtains (same) r where "p = (fst q, r)" and "view r = snd q" and "live r"
  | (down) e r where "p = (Err e, r)" and "down e r"
  using assms by (cases p) (auto simp: follows_def)

named_theorems follow_intros \<open>rules that follow a computation step by step\<close>

lemma follows_return [follow_intros]: "live r \<Longrightarrow> follows view live down (x, r) (x, view r)"
  by (simp add: follows_def)

text \<open>The continuation may know the step it continues.\<close>

lemma follows_then_with:
  assumes "follows view live down p q"
    and "\<And>a r. p = (Ok a, r) \<Longrightarrow> live r \<Longrightarrow> follows view live down (f a r) (g a (view r))"
  shows "follows view live down (and_then p f) (and_then q g)"
  using assms(1)
proof (cases rule: followsE)
  case (same r)
  with assms(2) [of _ r] show ?thesis
    by (cases q; cases "fst q") (auto simp: follows_def)
next
  case (down e r)
  then show ?thesis by (auto simp: follows_def)
qed

lemma follows_then:
  "follows view live down p q \<Longrightarrow>
   (\<And>a r. live r \<Longrightarrow> follows view live down (f a r) (g a (view r))) \<Longrightarrow>
   follows view live down (and_then p f) (and_then q g)"
  by (rule follows_then_with)

lemma follows_or_panic [follow_intros]:
  assumes "live r" and "\<And>a. p = Some a \<Longrightarrow> follows view live down (f a) (g a)"
  shows "follows view live down (or_panic p r f) (or_panic p (view r) g)"
  using assms by (cases p) (auto simp: follows_def)

text \<open>The errors of \<open>down\<close>, wrapped by \<open>h\<close>.\<close>

definition wrapped :: "('e \<Rightarrow> 'f) \<Rightarrow> ('e \<Rightarrow> 'r \<Rightarrow> bool) \<Rightarrow> 'f \<Rightarrow> 'r \<Rightarrow> bool" where
  "wrapped h down x r \<longleftrightarrow> (\<exists>e. x = h e \<and> down e r)"

lemma follows_map_err:
  "follows view live down p q \<Longrightarrow> follows view live (wrapped h down) (map_err h p) (map_err h q)"
  by (erule followsE; cases p; cases q; cases "fst q") (auto simp: follows_def wrapped_def)

lemma wrapped_never [simp]: "\<not> wrapped h (\<lambda>_ _. False) x r"
  by (simp add: wrapped_def)

lemma follows_if [follow_intros]:
  "(c \<Longrightarrow> follows view live down p q) \<Longrightarrow> (\<not> c \<Longrightarrow> follows view live down p' q') \<Longrightarrow>
   follows view live down (if c then p else p') (if c then q else q')"
  by simp

lemma follows_option [follow_intros]:
  "(x = None \<Longrightarrow> follows view live down p q) \<Longrightarrow>
   (\<And>a. x = Some a \<Longrightarrow> follows view live down (f a) (g a)) \<Longrightarrow>
   follows view live down (case x of None \<Rightarrow> p | Some a \<Rightarrow> f a) (case x of None \<Rightarrow> q | Some a \<Rightarrow> g a)"
  by (cases x) simp_all

text \<open>A computation with a buffer next to its reader.\<close>

lemma follows_beside:
  "follows view live down p q \<Longrightarrow>
   follows (apsnd view) (\<lambda>s. live (snd s)) (\<lambda>e s. down e (snd s))
     (apsnd (Pair b) p) (apsnd (Pair b) q)"
  by (auto simp: follows_def)

text \<open>Where nothing goes down, the two computations are the same.\<close>

lemma follows_faultless:
  assumes "follows view live down p q" and "\<And>e r. \<not> down e r"
  shows "fst p = fst q" and "view (snd p) = snd q" and "live (snd p)"
  using assms by (auto simp: follows_def)

section \<open>Related readers\<close>

locale reader_simulation =
  fixes ops :: "'r read_seek_ops" and ops' :: "'s read_seek_ops"
    and view :: "'r \<Rightarrow> 's" and live :: "'r \<Rightarrow> bool"
    and down :: "io_error \<Rightarrow> 'r \<Rightarrow> bool"
  assumes sim_end: "live r \<Longrightarrow>
      follows view live down (lift_io (seek_end ops r)) (lift_io (seek_end ops' (view r)))"
    and sim_start: "live r \<Longrightarrow>
      follows view live down (lift_io (seek_start ops p r)) (lift_io (seek_start ops' p (view r)))"
    and sim_read: "live r \<Longrightarrow>
      follows view live down (lift_io (read_exact ops n r)) (lift_io (read_exact ops' n (view r)))"
begin

abbreviation fol :: "(io_error, 'a) outcome \<times> 'r \<Rightarrow> (io_error, 'a) outcome \<times> 's \<Rightarrow> bool" where
  "fol \<equiv> follows view live down"

abbreviation fol_vss :: "(VssError, 'a) outcome \<times> 'r \<Rightarrow> (VssError, 'a) outcome \<times> 's \<Rightarrow> bool" where
  "fol_vss \<equiv> follows view live (wrapped Io down)"

lemma follows_vss [follow_intros]:
  "live r \<Longrightarrow> fol_vss (from_io (seek_end ops r)) (from_io (seek_end ops' (view r)))"
  "live r \<Longrightarrow> fol_vss (from_io (seek_start ops p r)) (from_io (seek_start ops' p (view r)))"
  "live r \<Longrightarrow> fol_vss (from_io (read_exact ops n r)) (from_io (read_exact ops' n (view r)))"
  unfolding from_io_def by (intro follows_map_err sim_end sim_start sim_read; assumption)+

lemmas follows_io [follow_intros] = sim_start sim_read

end

section \<open>The chain walks\<close>

locale chain_walk_pair =
  here: chain_walk walk cap step accept next_of body +
  there: chain_walk walk' cap step accept next_of body
  for walk :: "'r read_seek_ops \<Rightarrow> u64 \<Rightarrow> 't \<Rightarrow> u64 set \<Rightarrow> u64 \<Rightarrow> usize \<Rightarrow> 'r \<Rightarrow>
      (VssError, 't) outcome \<times> 'r"
    and walk' :: "'s read_seek_ops \<Rightarrow> u64 \<Rightarrow> 't \<Rightarrow> u64 set \<Rightarrow> u64 \<Rightarrow> usize \<Rightarrow> 's \<Rightarrow>
      (VssError, 't) outcome \<times> 's"
    and cap :: usize
    and step :: "bytes \<Rightarrow> 't \<Rightarrow> ('t \<times> u64) option option"
    and accept :: "bytes \<Rightarrow> bool"
    and next_of :: "bytes \<Rightarrow> u64"
    and body :: "bytes \<Rightarrow> 't \<Rightarrow> 't"
begin

lemma walk_follows:
  assumes sim: "reader_simulation ops ops' view live down"
  shows "live r \<Longrightarrow> follows view live (wrapped Io down)
    (walk ops vs st visited next blocks r) (walk' ops' vs st visited next blocks (view r))"
proof (induction "cap - blocks" arbitrary: st visited "next" blocks r rule: less_induct)
  case less
  show ?case
    by (subst here.walk_unfold, subst there.walk_unfold)
      (intro follow_intros follows_then reader_simulation.follows_vss [OF sim] less; 
       auto intro!: follow_intros less split: option.split)
qed

end

interpretation catalog_pair: chain_walk_pair
  walk_catalog_loop walk_catalog_loop MAX_CATALOG_BLOCKS catalog_step accept_catalog next_catalog
  "\<lambda>b. apply_entries (block_entries b)"
  by (intro chain_walk_pair.intro catalog.chain_walk_axioms)

interpretation diff_pair: chain_walk_pair
  build_block_map_loop build_block_map_loop MAX_STORE_BLOCKS diff_step
  accept_diff next_store_block
  "\<lambda>b. fold push_descriptor (block_descriptors b)"
  by (intro chain_walk_pair.intro diff.chain_walk_axioms)

interpretation bitmap_pair: chain_walk_pair
  build_bitmap_loop build_bitmap_loop MAX_STORE_BLOCKS bitmap_step
  accept_bitmap next_store_block
  "\<lambda>b pieces. pieces @ [bitmap_piece b]"
  by (intro chain_walk_pair.intro bitmap_walk.chain_walk_axioms)

section \<open>The operations\<close>

text \<open>A volume seen through \<open>view\<close>, and \<open>open\<close> up to the volume it builds.\<close>

definition view_volume :: "('r \<Rightarrow> 's) \<Rightarrow> 'r VssVolume \<Rightarrow> 's VssVolume" where
  "view_volume view vol =
     \<lparr>reader = view (reader vol), total_size = total_size vol, has_vss_header = has_vss_header vol,
      catalog_offset = catalog_offset vol, stores = stores vol\<rparr>"

definition open_steps ::
    "'r read_seek_ops \<Rightarrow> 'r \<Rightarrow> (VssError, u64 \<times> bool \<times> u64 \<times> StoreDescriptor list) outcome \<times> 'r" where
  "open_steps ops r =
     and_then (from_io (seek_end ops r)) (\<lambda>vs r.
     and_then
       (if VSS_VOLUME_HEADER_OFFSET + of_nat CATALOG_BLOCK_HEADER_LEN \<le> vs then
          and_then (from_io (seek_start ops VSS_VOLUME_HEADER_OFFSET r)) (\<lambda>_ r.
          and_then (from_io (read_exact ops CATALOG_BLOCK_HEADER_LEN r)) (\<lambda>hdr r.
          or_panic (VolumeHeader_parse hdr) r (\<lambda>vh.
          (Ok (has_vss_identifier vh, header_catalog_offset vh), r))))
        else (Ok (False, 0), r)) (\<lambda>(has_header, cat_off) r.
     and_then
       (if has_header \<and> cat_off \<noteq> 0 then walk_catalog ops cat_off vs r else (Ok [], r)) (\<lambda>ds r.
     (Ok (vs, has_header, cat_off, ds), r))))"

lemma view_volume_sel [simp]:
  "reader (view_volume view vol) = view (reader vol)"
  "total_size (view_volume view vol) = total_size vol"
  "has_vss_header (view_volume view vol) = has_vss_header vol"
  "catalog_offset (view_volume view vol) = catalog_offset vol"
  "stores (view_volume view vol) = stores vol"
  by (simp_all add: view_volume_def)

lemma and_then_assoc: "and_then (and_then p f) g = and_then p (\<lambda>a r. and_then (f a r) g)"
  by (cases p; cases "fst p") auto

lemma open_volume_run_steps:
  "open_volume_run ops r = and_then (open_steps ops r) (\<lambda>(vs, hdr, cat, ds) r.
     (Ok \<lparr>reader = r, total_size = vs, has_vss_header = hdr, catalog_offset = cat, stores = ds\<rparr>, r))"
  by (simp add: open_volume_run_def open_steps_def and_then_assoc split_def)

context reader_simulation
begin

lemma follows_walk_catalog [follow_intros]:
  "live r \<Longrightarrow> fol_vss (walk_catalog ops first vs r) (walk_catalog ops' first vs (view r))"
  unfolding walk_catalog_def by (rule catalog_pair.walk_follows [OF reader_simulation_axioms])

lemma follows_build_block_map [follow_intros]:
  "live r \<Longrightarrow> fol_vss (build_block_map ops first vs r) (build_block_map ops' first vs (view r))"
  unfolding build_block_map_def by (rule diff_pair.walk_follows [OF reader_simulation_axioms])

lemma follows_build_bitmap [follow_intros]:
  "live r \<Longrightarrow> fol_vss (build_bitmap ops first vs r) (build_bitmap ops' first vs (view r))"
  unfolding build_bitmap_def Let_def
  by (rule follows_then [OF bitmap_pair.walk_follows [OF reader_simulation_axioms]])
    (auto intro!: follow_intros)

lemma follows_read_block_at [follow_intros]:
  "live r \<Longrightarrow> fol (read_block_at ops off vs r) (read_block_at ops' off vs (view r))"
  unfolding read_block_at_def by (intro follow_intros follows_then)

lemma follows_apply_overlays [follow_intros]:
  "live r \<Longrightarrow> fol (apply_overlays ops vs ds out r) (apply_overlays ops' vs ds out (view r))"
  by (induction ds arbitrary: out r) (auto intro!: follow_intros follows_then)

lemma follows_read_block [follow_intros]:
  "live r \<Longrightarrow> fol (read_block ops st off r) (read_block ops' st off (view r))"
  unfolding read_block_def Let_def by (intro follow_intros follows_then)

text \<open>What \<open>open\<close> and \<open>with_reader\<close> give carries the reader itself.\<close>

lemma follows_open_steps:
  "live r \<Longrightarrow> fol_vss (open_steps ops r) (open_steps ops' (view r))"
  unfolding open_steps_def by (auto intro!: follow_intros follows_then split: prod.split)

lemma follows_open:
  assumes "live r" and "open_volume ops' (view r) = Ok vol'"
  shows "(\<exists>vol. open_volume_run ops r = (Ok vol, reader vol) \<and> view_volume view vol = vol' \<and>
      live (reader vol)) \<or>
    (\<exists>e r'. open_volume_run ops r = (Err (Io e), r') \<and> down e r')"
  using follows_open_steps [OF assms(1)]
proof (cases rule: followsE)
  case (same r1)
  then show ?thesis
    using assms(2) by (cases "open_steps ops' (view r)"; cases "fst (open_steps ops' (view r))")
      (auto simp: open_volume_def open_volume_run_steps view_volume_def split: prod.split_asm)
next
  case (down e r1)
  then show ?thesis by (auto simp: open_volume_run_steps wrapped_def)
qed

lemma follows_with_reader:
  assumes "live (reader vol)" and "\<And>r. live r \<Longrightarrow> follows view live d (f r) (g (view r))"
  shows "follows (view_volume view) (\<lambda>vol. live (reader vol)) (\<lambda>e vol. d e (reader vol))
    (with_reader vol f) (with_reader (view_volume view vol) g)"
  using assms(2) [OF assms(1)]
  by (rule followsE)
    (auto simp: with_reader_def view_volume_def follows_def split: prod.split)

lemma follows_store_info:
  "live (reader vol) \<Longrightarrow>
   follows (view_volume view) (\<lambda>vol. live (reader vol)) (\<lambda>x vol. wrapped Io down x (reader vol))
     (store_info ops i vol) (store_info ops' i (view_volume view vol))"
  unfolding store_info_def view_volume_sel Let_def
  by (intro follow_intros follows_then follows_with_reader)

lemma follows_snapshot_state:
  "live (reader vol) \<Longrightarrow>
   follows (view_volume view) (\<lambda>vol. live (reader vol)) (\<lambda>x vol. wrapped Io down x (reader vol))
     (snapshot_state ops i vol) (snapshot_state ops' i (view_volume view vol))"
  unfolding snapshot_state_def view_volume_sel Let_def
  by (intro follow_intros follows_then follows_with_reader)

lemma follows_read_at_loop:
  "live r \<Longrightarrow>
   follows (apsnd view) (\<lambda>s. live (snd s)) (\<lambda>e s. down e (snd s))
     (read_at_loop ops st written cursor buf r) (read_at_loop ops' st written cursor buf (view r))"
proof -
  have "o1 = ops \<Longrightarrow> live r \<Longrightarrow>
      follows (apsnd view) (\<lambda>s. live (snd s)) (\<lambda>e s. down e (snd s))
       (read_at_loop o1 st written cursor buf r) (read_at_loop ops' st written cursor buf (view r))"
    for o1
  proof (induction o1 st written cursor buf r rule: read_at_loop.induct)
    case (1 o1 st written cursor buf r)
    have view: "(buf, view r) = apsnd view (buf, r)" by simp
    show ?case
      apply (subst read_at_loop.simps, subst read_at_loop.simps [of ops'])
      unfolding Let_def view
      apply (intro follow_intros follows_then_with)
              apply (simp_all add: 1(2,3) follows_beside follows_read_block)[8]
       apply (subst snd_apsnd, rule 1(1) [OF _ refl _ refl]; simp add: 1(2))
      using 1(3) apply simp
      done
  qed
  then show "live r \<Longrightarrow> ?thesis" by simp
qed

end

end
