(* ===== verification/Faulty_Reader.thy ===== *)
theory Faulty_Reader
  imports Reader_Simulation
begin

text \<open>
  Readers that fail: a disk with bad sectors, a network mount that times out. Every operation of
  a \<open>faulty_reader\<close> over a volume does what the operation of a cursor over that volume does, or
  returns an error, and then nothing is known of its position. A \<open>recovering_reader\<close> has a
  number that falls with each such failure, so it fails only so often. A \<open>logging_reader\<close> keeps a
  list of every error it has returned; \<open>logged\<close> makes one of any faulty reader.

  Each operation of the library on a faulty reader gives what it gives over the volume, or fails;
  no failure is taken for data, and none spoils what is called next. On a logging reader the
  operation fails exactly when the reader returned an error, and with that very error. On a
  recovering reader repeating the operation comes to its end.
\<close>

section \<open>The contracts\<close>

text \<open>The step \<open>p\<close> does what \<open>q\<close> does, or fails and leaves a reader over the same volume.\<close>

definition does_or_fails ::
    "('r \<Rightarrow> bool) \<Rightarrow> ('r \<Rightarrow> cursor) \<Rightarrow> (io_error + 'a) \<times> 'r \<Rightarrow> (io_error + 'a) \<times> cursor \<Rightarrow> bool" where
  "does_or_fails invar view p q \<longleftrightarrow>
     invar (snd p) \<and>
     (fst p = fst q \<and> view (snd p) = snd q \<or>
      (\<exists>e. fst p = Inl e) \<and> cursor_data (view (snd p)) = cursor_data (snd q))"

text \<open>The step does not raise \<open>budget\<close>, and lowers it if it fails where the cursor does not.\<close>

definition pays ::
    "('r \<Rightarrow> nat) \<Rightarrow> ('r \<Rightarrow> cursor) \<Rightarrow> 'r \<Rightarrow> (io_error + 'a) \<times> 'r \<Rightarrow> (io_error + 'a) \<times> cursor \<Rightarrow> bool" where
  "pays budget view r p q \<longleftrightarrow>
     budget (snd p) \<le> budget r \<and>
     (fst p = fst q \<and> view (snd p) = snd q \<or> budget (snd p) < budget r)"

text \<open>The step adds the error it returns, if any, to the list \<open>faults\<close>.\<close>

definition errors_of :: "io_error + 'a \<Rightarrow> io_error list" where
  "errors_of x = (case x of Inl e \<Rightarrow> [e] | Inr _ \<Rightarrow> [])"

definition logs :: "('r \<Rightarrow> io_error list) \<Rightarrow> 'r \<Rightarrow> (io_error + 'a) \<times> 'r \<Rightarrow> bool" where
  "logs faults r p \<longleftrightarrow> faults (snd p) = faults r @ errors_of (fst p)"

text \<open>The reader is over the volume \<open>v\<close>.\<close>

definition over :: "('r \<Rightarrow> bool) \<Rightarrow> ('r \<Rightarrow> cursor) \<Rightarrow> bytes \<Rightarrow> 'r \<Rightarrow> bool" where
  "over invar view v r \<longleftrightarrow> invar r \<and> cursor_data (view r) = v"

locale faulty_reader = read_seek ops for ops :: "'r read_seek_ops" +
  fixes invar :: "'r \<Rightarrow> bool" and view :: "'r \<Rightarrow> cursor"
  assumes view_invar: "invar r \<Longrightarrow> image_invar (view r)"
    and end_refines: "invar r \<Longrightarrow> does_or_fails invar view (seek_end ops r) (seek_end cursor_ops (view r))"
    and start_refines: "invar r \<Longrightarrow>
      does_or_fails invar view (seek_start ops p r) (seek_start cursor_ops p (view r))"
    and read_refines: "invar r \<Longrightarrow>
      does_or_fails invar view (read_exact ops n r) (read_exact cursor_ops n (view r))"

locale recovering_reader = faulty_reader ops invar view
  for ops :: "'r read_seek_ops" and invar :: "'r \<Rightarrow> bool" and view :: "'r \<Rightarrow> cursor" +
  fixes budget :: "'r \<Rightarrow> nat"
  assumes end_pays: "invar r \<Longrightarrow> pays budget view r (seek_end ops r) (seek_end cursor_ops (view r))"
    and start_pays: "invar r \<Longrightarrow> pays budget view r (seek_start ops p r) (seek_start cursor_ops p (view r))"
    and read_pays: "invar r \<Longrightarrow> pays budget view r (read_exact ops n r) (read_exact cursor_ops n (view r))"

locale logging_reader = faulty_reader ops invar view
  for ops :: "'r read_seek_ops" and invar :: "'r \<Rightarrow> bool" and view :: "'r \<Rightarrow> cursor" +
  fixes faults :: "'r \<Rightarrow> io_error list"
  assumes end_logs: "invar r \<Longrightarrow> logs faults r (seek_end ops r)"
    and start_logs: "invar r \<Longrightarrow> logs faults r (seek_start ops p r)"
    and read_logs: "invar r \<Longrightarrow> logs faults r (read_exact ops n r)"

lemma cursor_ops_data [simp]:
  "cursor_data (snd (seek_end cursor_ops c)) = cursor_data c"
  "cursor_data (snd (seek_start cursor_ops p c)) = cursor_data c"
  "cursor_data (snd (read_exact cursor_ops n c)) = cursor_data c"
  by (simp_all add: cursor_ops_def cursor_read_exact_def)

lemma follows_faulty:
  assumes "does_or_fails invar view p q" and "cursor_data (snd q) = v"
  shows "follows view (over invar view v) (\<lambda>_. over invar view v) (lift_io p) (lift_io q)"
  using assms by (cases p; cases "fst p"; cases q; cases "fst q")
    (auto simp: does_or_fails_def follows_def over_def)

lemma follows_recovering:
  assumes "does_or_fails invar view p q" and "cursor_data (snd q) = v" and "pays budget view r p q"
    and "budget r \<le> k"
  shows "follows view (\<lambda>r. over invar view v r \<and> budget r \<le> k)
    (\<lambda>_ r. over invar view v r \<and> budget r < k) (lift_io p) (lift_io q)"
  using assms by (cases p; cases "fst p"; cases q; cases "fst q")
    (auto simp: does_or_fails_def pays_def follows_def over_def)

text \<open>While nothing is logged the reader is followed; it goes down with the error it logs.\<close>

lemma follows_logging:
  assumes "does_or_fails invar view p q" and "cursor_data (snd q) = v" and "logs faults r p"
    and "faults r = l"
  shows "follows view (\<lambda>r. over invar view v r \<and> faults r = l)
    (\<lambda>e r. over invar view v r \<and> faults r = l @ [e]) (lift_io p) (lift_io q)"
  using assms by (cases p; cases "fst p"; cases q; cases "fst q")
    (auto simp: does_or_fails_def logs_def errors_of_def follows_def over_def)

context faulty_reader
begin

lemma over_image: "over invar view v r \<Longrightarrow> reads image_invar cursor_data v (view r)"
  using view_invar [of r] by (simp add: over_def reads_def)

lemma over_fits: "over invar view v r \<Longrightarrow> length v < 2 ^ 64"
  using over_image [of v r] by (auto simp: reads_def image_invar_def)

lemma simulates: "reader_simulation ops cursor_ops view (over invar view v) (\<lambda>_. over invar view v)"
  by unfold_locales
    (rule follows_faulty; simp add: over_def end_refines start_refines read_refines)+

end

context recovering_reader
begin

lemma simulates_within:
  "reader_simulation ops cursor_ops view (\<lambda>r. over invar view v r \<and> budget r \<le> k)
     (\<lambda>_ r. over invar view v r \<and> budget r < k)"
proof (unfold_locales, goal_cases)
  case (1 r)
  then show ?case
    by (intro follows_recovering [where r = r]) (simp_all add: over_def end_refines end_pays)
next
  case (2 r p)
  then show ?case
    by (intro follows_recovering [where r = r]) (simp_all add: over_def start_refines start_pays)
next
  case (3 r n)
  then show ?case
    by (intro follows_recovering [where r = r]) (simp_all add: over_def read_refines read_pays)
qed

end

context logging_reader
begin

lemma simulates_logged:
  "reader_simulation ops cursor_ops view (\<lambda>r. over invar view v r \<and> faults r = l)
     (\<lambda>e r. over invar view v r \<and> faults r = l @ [e])"
proof (unfold_locales, goal_cases)
  case (1 r)
  then show ?case
    by (intro follows_logging [where r = r]) (simp_all add: over_def end_refines end_logs)
next
  case (2 r p)
  then show ?case
    by (intro follows_logging [where r = r]) (simp_all add: over_def start_refines start_logs)
next
  case (3 r n)
  then show ?case
    by (intro follows_logging [where r = r]) (simp_all add: over_def read_refines read_logs)
qed

end

section \<open>A log beside any reader\<close>

definition log_step ::
    "('r \<Rightarrow> (io_error + 'a) \<times> 'r) \<Rightarrow> 'r \<times> io_error list \<Rightarrow> (io_error + 'a) \<times> 'r \<times> io_error list" where
  "log_step f s = (case f (fst s) of (x, r') \<Rightarrow> (x, (r', snd s @ errors_of x)))"

definition logged :: "'r read_seek_ops \<Rightarrow> ('r \<times> io_error list) read_seek_ops" where
  "logged ops =
     \<lparr>seek_end = log_step (seek_end ops),
      seek_start = (\<lambda>p. log_step (seek_start ops p)),
      read_exact = (\<lambda>n. log_step (read_exact ops n))\<rparr>"

lemma log_step_sel [simp]:
  "fst (log_step f s) = fst (f (fst s))"
  "fst (snd (log_step f s)) = snd (f (fst s))"
  "snd (snd (log_step f s)) = snd s @ errors_of (fst (f (fst s)))"
  by (simp_all add: log_step_def split_def)

lemma log_step_does:
  "does_or_fails invar view (f (fst s)) q \<Longrightarrow>
   does_or_fails (\<lambda>s. invar (fst s)) (\<lambda>s. view (fst s)) (log_step f s) q"
  by (simp add: does_or_fails_def)

lemma log_step_logs: "logs snd s (log_step f s)"
  by (simp add: logs_def)

text \<open>So a log asks nothing of a reader, and changes no result.\<close>

lemma logged_reader:
  assumes "faulty_reader ops invar view"
  shows "logging_reader (logged ops) (\<lambda>s. invar (fst s)) (\<lambda>s. view (fst s)) snd"
proof -
  have "read_seek (logged ops)"
    using read_seek.read_exact_fills [OF faulty_reader.axioms(1) [OF assms]]
    by unfold_locales (auto simp: logged_def log_step_def split: prod.split_asm)
  then show ?thesis
    using faulty_reader.view_invar [OF assms] faulty_reader.end_refines [OF assms]
      faulty_reader.start_refines [OF assms] faulty_reader.read_refines [OF assms]
    by (intro logging_reader.intro faulty_reader.intro faulty_reader_axioms.intro
        logging_reader_axioms.intro)
      (simp_all add: logged_def log_step_does log_step_logs)
qed

lemma log_follows: "follows fst (\<lambda>_. True) (\<lambda>_ _. False) (lift_io (log_step f s)) (lift_io (f (fst s)))"
  by (cases "f (fst s)"; cases "fst (f (fst s))") (auto simp: follows_def log_step_def)

interpretation unlog: reader_simulation "logged ops" ops fst "\<lambda>_. True" "\<lambda>_ _. False" for ops
  by unfold_locales (simp_all add: logged_def log_follows)

section \<open>Every operation, on a faulty reader\<close>

text \<open>The computation \<open>p\<close> gives \<open>res\<close>, or goes down with an error of the reader.\<close>

definition settles ::
    "('s \<Rightarrow> bool) \<Rightarrow> (io_error \<Rightarrow> 's \<Rightarrow> bool) \<Rightarrow> (VssError, 'a) outcome \<Rightarrow> (VssError, 'a) outcome \<times> 's \<Rightarrow> bool" where
  "settles live down res p \<longleftrightarrow>
     fst p = res \<and> live (snd p) \<or> (\<exists>e. fst p = Err (Io e) \<and> down e (snd p))"

lemma settles_follows:
  "follows view live (\<lambda>x s. wrapped Io down x (f s)) p q \<Longrightarrow>
   settles live (\<lambda>e s. down e (f s)) (fst q) p"
  by (auto simp: follows_def settles_def wrapped_def)

lemma settles_weaken:
  "settles live down res p \<Longrightarrow> (\<And>s. live s \<Longrightarrow> live' s) \<Longrightarrow> (\<And>e s. down e s \<Longrightarrow> down' e s) \<Longrightarrow>
   settles live' down' res p"
  unfolding settles_def by blast

text \<open>The operations over any reader related to a cursor over the volume.\<close>

locale image_simulation = reader_simulation ops cursor_ops view live down
  for ops :: "'r read_seek_ops" and view :: "'r \<Rightarrow> cursor" and live :: "'r \<Rightarrow> bool"
    and down :: "io_error \<Rightarrow> 'r \<Rightarrow> bool" +
  fixes v :: bytes
  assumes image: "live r \<Longrightarrow> reads image_invar cursor_data v (view r)"
begin

text \<open>The volume that \<open>open\<close> gives carries the reader that it leaves.\<close>

lemma open_settles:
  assumes "live r"
  shows "settles live down
    (Ok \<lparr>reader = snd (open_volume_run ops r), total_size = of_nat (length v),
       has_vss_header = volume_has_header v, catalog_offset = volume_catalog_offset v,
       stores = volume_stores v\<rparr>)
    (open_volume_run ops r)"
proof -
  from open_volume_over [OF volume_reader_image image [OF assms]] obtain c where
    "open_volume cursor_ops (view r) = Ok
       \<lparr>reader = c, total_size = of_nat (length v), has_vss_header = volume_has_header v,
        catalog_offset = volume_catalog_offset v, stores = volume_stores v\<rparr>" by blast
  from follows_open [OF assms this] show ?thesis
    unfolding settles_def by (auto simp: view_volume_def)
qed

lemma store_info_settles:
  assumes "live (reader vol)" and "total_size vol = of_nat (length v)"
  shows "settles (\<lambda>vol. live (reader vol)) (\<lambda>e vol. down e (reader vol))
    (store_info_spec v (stores vol) i) (store_info ops i vol)"
  using settles_follows [OF follows_store_info [of vol i]]
    store_info_over [OF volume_reader_image, of v "view_volume view vol" i] image [OF assms(1)] assms
  by auto

lemma snapshot_state_settles:
  assumes "live (reader vol)" and "total_size vol = of_nat (length v)"
  shows "settles (\<lambda>vol. live (reader vol)) (\<lambda>e vol. down e (reader vol))
    (snapshot_state_spec v (stores vol) i) (snapshot_state ops i vol)"
  using settles_follows [OF follows_snapshot_state [of vol i]]
    snapshot_state_over [OF volume_reader_image, of v "view_volume view vol" i] image [OF assms(1)] assms
  by auto

lemma read_block_settles:
  assumes "live (snapshot_reader s)" and "snapshot_volume_size (state s) = of_nat (length v)"
  shows "settles (\<lambda>s. live (snapshot_reader s)) (\<lambda>e s. down e (snapshot_reader s))
    (Ok (snapshot_block v (state s) (unat off div BLOCK_SIZE))) (Snapshot_read_block ops off s)"
  using follows_map_err [OF follows_read_block [OF assms(1), of "state s" off], of Io]
    gives_fst [OF read_block_volume [OF volume_reader_image image [OF assms(1)] assms(2), of off]]
proof (cases rule: followsE)
  case (same r)
  then show ?thesis
    using gives_fst [OF gives_map_err [OF read_block_volume
        [OF volume_reader_image image [OF assms(1)] assms(2), of off], of Io]]
    by (simp add: Snapshot_read_block_def settles_def)
next
  case (down e r)
  then show ?thesis by (auto simp: Snapshot_read_block_def settles_def wrapped_def)
qed

text \<open>What \<open>read_at\<close> leaves of its buffer is the bytes of the snapshot, or of the same length.\<close>

lemma read_at_settles:
  assumes "live r" and "snapshot_volume_size st = of_nat (length v)" and "length buf \<le> isize_max"
  obtains (read) r' where "live r'" and "read_at ops st off buf r =
      (Ok (), (map (\<lambda>j. snapshot_byte v st (clip (unat off + j))) [0..<length buf], r'))"
  | (fault) e buf' r' where "down e r'" and "read_at ops st off buf r = (Err e, (buf', r'))"
  using follows_read_at_loop [OF assms(1), of st 0 off buf]
proof (cases rule: followsE)
  case (same s)
  then show ?thesis
    using read_at_volume_any [OF volume_reader_image image [OF assms(1)] assms(2,3), of off] that(1)
    by (cases s) (auto simp: read_at_def)
next
  case (down e s)
  then show ?thesis using that(2) by (cases s) (auto simp: read_at_def)
qed

lemma Snapshot_read_at_settles:
  assumes "live (snapshot_reader s)" and "snapshot_volume_size (state s) = of_nat (length v)"
    and "length buf \<le> isize_max"
  shows "\<exists>res buf' r'. Snapshot_read_at ops off buf s = (res, (buf', s\<lparr>snapshot_reader := r'\<rparr>)) \<and>
    (res = Ok () \<and> buf' = map (\<lambda>j. snapshot_byte v (state s) (clip (unat off + j))) [0..<length buf] \<and>
       live r' \<or>
     (\<exists>e. res = Err (Io e) \<and> down e r'))"
  by (cases rule: read_at_settles [OF assms, of off]) (auto simp: Snapshot_read_at_def)

end

context faulty_reader
begin

lemma image: "image_simulation ops view (over invar view v) (\<lambda>_. over invar view v) v"
  by (intro image_simulation.intro simulates image_simulation_axioms.intro over_image)

end

context recovering_reader
begin

lemma image_within:
  "image_simulation ops view (\<lambda>r. over invar view v r \<and> budget r \<le> k)
     (\<lambda>_ r. over invar view v r \<and> budget r < k) v"
  by (intro image_simulation.intro simulates_within image_simulation_axioms.intro) (auto intro: over_image)

end

context logging_reader
begin

lemma image_logged:
  "image_simulation ops view (\<lambda>r. over invar view v r \<and> faults r = l)
     (\<lambda>e r. over invar view v r \<and> faults r = l @ [e]) v"
  by (intro image_simulation.intro simulates_logged image_simulation_axioms.intro) (auto intro: over_image)

end

sublocale faulty_reader \<subseteq> steady: image_simulation ops view "over invar view v" "\<lambda>_. over invar view v" v
  for v
  by (rule image)

sublocale recovering_reader \<subseteq> paid: image_simulation ops view
  "\<lambda>r. over invar view v r \<and> budget r \<le> k" "\<lambda>_ r. over invar view v r \<and> budget r < k" v
  for v k
  by (rule image_within)

sublocale logging_reader \<subseteq> traced: image_simulation ops view
  "\<lambda>r. over invar view v r \<and> faults r = l" "\<lambda>e r. over invar view v r \<and> faults r = l @ [e]" v
  for v l
  by (rule image_logged)

end
