(* ===== verification/Faulty_Reader_Props.thy ===== *)
theory Faulty_Reader_Props
  imports Faulty_Reader Vsc_Forensic_Props
begin

text \<open>
  What the library does on a reader that fails: the cursor and \<open>flaky\<close>, a cursor with a schedule
  of failures, as instances of the contracts, each also with a log of its errors beside it, and
  the properties of the volume, the snapshot, the image source and the audit.
\<close>

section \<open>Instances\<close>

text \<open>A cursor fails only past its end.\<close>

interpretation sound_cursor: recovering_reader cursor_ops image_invar id "\<lambda>_. 0"
  by (unfold_locales)
    (auto simp: does_or_fails_def pays_def image_invar_def cursor_ops_def cursor_read_exact_def)

record flaky =
  disk :: cursor
  schedule :: "io_error option list"

text \<open>Each operation takes the head of the schedule: an error there is a failure with that error that
  loses the position.\<close>

definition flaky_step :: "(cursor \<Rightarrow> (io_error + 'a) \<times> cursor) \<Rightarrow> flaky \<Rightarrow> (io_error + 'a) \<times> flaky" where
  "flaky_step f d =
     (case schedule d of
        Some e # fs \<Rightarrow> (Inl e, \<lparr>disk = (disk d)\<lparr>cursor_pos := 0\<rparr>, schedule = fs\<rparr>)
      | fs \<Rightarrow> (fst (f (disk d)), \<lparr>disk = snd (f (disk d)), schedule = drop 1 fs\<rparr>))"

definition flaky_ops :: "flaky read_seek_ops" where
  "flaky_ops =
     \<lparr>seek_end = flaky_step (seek_end cursor_ops),
      seek_start = (\<lambda>p. flaky_step (seek_start cursor_ops p)),
      read_exact = (\<lambda>n. flaky_step (read_exact cursor_ops n))\<rparr>"

definition flaky_invar :: "flaky \<Rightarrow> bool" where
  "flaky_invar d \<longleftrightarrow> image_invar (disk d)"

definition faults_left :: "flaky \<Rightarrow> nat" where
  "faults_left d = length (filter (\<lambda>x. x \<noteq> None) (schedule d))"

lemma flaky_step_does:
  assumes "cursor_data (snd (f (disk d))) = cursor_data (disk d)" and "flaky_invar d"
  shows "does_or_fails flaky_invar disk (flaky_step f d) (f (disk d))"
    and "pays faults_left disk d (flaky_step f d) (f (disk d))"
  using assms
  by (auto simp: does_or_fails_def pays_def flaky_step_def flaky_invar_def image_invar_def
      faults_left_def split: list.split option.split)

lemma read_seek_flaky: "read_seek flaky_ops"
proof
  fix n d bs d'
  assume "read_exact flaky_ops n d = (Inr bs, d')"
  then have "fst (read_exact cursor_ops n (disk d)) = Inr bs"
    by (auto simp: flaky_ops_def flaky_step_def split: list.split_asm option.split_asm)
  then show "length bs = n"
    using read_seek.read_exact_fills [OF read_seek_cursor] by (metis prod.collapse)
qed

interpretation flaky_reader: recovering_reader flaky_ops flaky_invar disk faults_left
proof (intro recovering_reader.intro faulty_reader.intro read_seek_flaky; unfold_locales)
qed (simp_all add: flaky_ops_def flaky_step_does, simp add: flaky_invar_def)

interpretation logged_flaky: logging_reader "logged flaky_ops" "\<lambda>s. flaky_invar (fst s)"
  "\<lambda>s. disk (fst s)" snd
  by (rule logged_reader [OF flaky_reader.faulty_reader_axioms])

interpretation logged_cursor: logging_reader "logged cursor_ops" "\<lambda>s. image_invar (fst s)"
  "\<lambda>s. id (fst s)" snd
  by (rule logged_reader [OF sound_cursor.faulty_reader_axioms])

section \<open>Errors stay errors\<close>

lemma Snapshot_read_at_length:
  assumes "read_seek ops" and "length buf \<le> isize_max"
  shows "length (fst (snd (Snapshot_read_at ops off buf s))) = length buf"
  using read_at_loop_safe [OF assms, of "state s" 0 off "snapshot_reader s"]
  by (cases "read_at_loop ops (state s) 0 off buf (snapshot_reader s)";
      cases "fst (read_at_loop ops (state s) 0 off buf (snapshot_reader s))")
    (auto simp: Snapshot_read_at_def read_at_def)

text \<open>C17: on a reader over a volume whose operations may fail at any time, and which lists the
  errors it returns, \<open>open\<close> finds what is on the volume, and \<open>store_info\<close> and \<open>snapshot_state\<close> give the
  result the volume has, and then the reader returned no error; or each fails with the error the
  reader returned, after which nothing more was asked of it. A failure is never taken for data or
  for the end of a chain, no failure is made up, and the volume can be used on.\<close>
theorem faults_never_pass_for_data:
  assumes "logging_reader ops invar view faults" and "over invar view v r"
    and "over invar view v (reader vol)" and "total_size vol = of_nat (length v)"
  shows "(let r' = snd (open_volume_run ops r) in
      over invar view v r' \<and>
      (open_volume ops r = Ok
        \<lparr>reader = r', total_size = of_nat (length v), has_vss_header = volume_has_header v,
         catalog_offset = volume_catalog_offset v, stores = volume_stores v\<rparr> \<and> faults r' = faults r \<or>
       (\<exists>e. open_volume ops r = Err (Io e) \<and> faults r' = faults r @ [e]))) \<and>
    (let (res, vol') = store_info ops i vol in
      over invar view v (reader vol') \<and>
      (res = store_info_spec v (stores vol) i \<and> faults (reader vol') = faults (reader vol) \<or>
       (\<exists>e. res = Err (Io e) \<and> faults (reader vol') = faults (reader vol) @ [e]))) \<and>
    (let (res, vol') = snapshot_state ops i vol in
      over invar view v (reader vol') \<and>
      (res = snapshot_state_spec v (stores vol) i \<and> faults (reader vol') = faults (reader vol) \<or>
       (\<exists>e. res = Err (Io e) \<and> faults (reader vol') = faults (reader vol) @ [e])))"
proof (intro conjI)
  note image = logging_reader.image_logged [OF assms(1)]
  show "let r' = snd (open_volume_run ops r) in
      over invar view v r' \<and>
      (open_volume ops r = Ok
        \<lparr>reader = r', total_size = of_nat (length v), has_vss_header = volume_has_header v,
         catalog_offset = volume_catalog_offset v, stores = volume_stores v\<rparr> \<and> faults r' = faults r \<or>
       (\<exists>e. open_volume ops r = Err (Io e) \<and> faults r' = faults r @ [e]))"
    using image_simulation.open_settles [OF image conjI [OF assms(2) refl]]
    by (auto simp: open_volume_def settles_def Let_def split_def)
  show "let (res, vol') = store_info ops i vol in
      over invar view v (reader vol') \<and>
      (res = store_info_spec v (stores vol) i \<and> faults (reader vol') = faults (reader vol) \<or>
       (\<exists>e. res = Err (Io e) \<and> faults (reader vol') = faults (reader vol) @ [e]))"
    using image_simulation.store_info_settles [OF image conjI [OF assms(3) refl] assms(4), of i]
    by (auto simp: settles_def Let_def split_def)
  show "let (res, vol') = snapshot_state ops i vol in
      over invar view v (reader vol') \<and>
      (res = snapshot_state_spec v (stores vol) i \<and> faults (reader vol') = faults (reader vol) \<or>
       (\<exists>e. res = Err (Io e) \<and> faults (reader vol') = faults (reader vol) @ [e]))"
    using image_simulation.snapshot_state_settles [OF image conjI [OF assms(3) refl] assms(4), of i]
    by (auto simp: settles_def Let_def split_def)
qed

text \<open>A volume of one block of sevens on a reader about to fail.\<close>

definition sevens :: bytes where
  "sevens = replicate 16384 7"

definition bad_disk :: flaky where
  "bad_disk = \<lparr>disk = cursor_new sevens, schedule = [None, Some (OtherIo 5), Some (OtherIo 6)]\<rparr>"

lemma length_sevens: "length sevens = 16384"
  by (simp add: sevens_def)

lemma bad_disk_over: "over flaky_invar disk sevens bad_disk" "faults_left bad_disk = 2"
  by (simp_all add: over_def flaky_invar_def image_invar_def bad_disk_def sevens_def faults_left_def)

text \<open>Its second operation fails: for \<open>open\<close> the seek to the volume header, for \<open>store_info\<close> the read of
  the store header.\<close>

definition bad_volume :: "(flaky \<times> io_error list) VssVolume" where
  "bad_volume = \<lparr>reader = (bad_disk, []), total_size = 16384, has_vss_header = True, catalog_offset = 0,
     stores = [sample_store\<lparr>store_header_offset := Some 0\<rparr>]\<rparr>"

lemma bad_volume_faults:
  "snd (snd (open_volume_run (logged flaky_ops) (bad_disk, []))) = [OtherIo 5]"
  "snd (reader (snd (store_info (logged flaky_ops) 0 bad_volume))) = [OtherIo 5]"
  by (simp_all add: open_volume_run_def store_info_def with_reader_def vec_get_def bad_volume_def
      bad_disk_def logged_def log_step_def flaky_ops_def flaky_step_def cursor_ops_def from_io_def
      errors_of_def checked_add_def length_sevens vss_consts word_le_nat_alt)

theorem faults_never_pass_for_data_witness:
  "open_volume (logged flaky_ops) (bad_disk, []) = Err (Io (OtherIo 5)) \<and>
   fst (store_info (logged flaky_ops) 0 bad_volume) = Err (Io (OtherIo 5))"
  using faults_never_pass_for_data [OF logged_flaky.logging_reader_axioms, of sevens "(bad_disk, [])"
      bad_volume 0] bad_volume_faults bad_disk_over(1)
  by (auto simp: over_def bad_volume_def length_sevens split_def Let_def)

text \<open>C18: on such a reader, reading a block or a range of a snapshot gives exactly the bytes of the
  specification, and then the reader returned no error, or fails with the error the reader
  returned; the snapshot can be read on, and the buffer keeps its length.\<close>
theorem faulty_reads_exact:
  assumes "logging_reader ops invar view faults" and "over invar view v (snapshot_reader s)"
    and "snapshot_volume_size (state s) = of_nat (length v)"
    and "length buf \<le> isize_max"
  shows "(let (res, s') = Snapshot_read_block ops off s in
      over invar view v (snapshot_reader s') \<and>
      (res = Ok (snapshot_block v (state s) (unat off div BLOCK_SIZE)) \<and>
         faults (snapshot_reader s') = faults (snapshot_reader s) \<or>
       (\<exists>e. res = Err (Io e) \<and> faults (snapshot_reader s') = faults (snapshot_reader s) @ [e]))) \<and>
    (\<exists>res buf' r'. Snapshot_read_at ops off buf s = (res, (buf', s\<lparr>snapshot_reader := r'\<rparr>)) \<and>
       over invar view v r' \<and> length buf' = length buf \<and>
       (res = Ok () \<and> faults r' = faults (snapshot_reader s) \<and>
          buf' = map (\<lambda>j. snapshot_byte v (state s) (min (unat off + j) (2 ^ 64 - 1))) [0..<length buf] \<or>
        (\<exists>e. res = Err (Io e) \<and> faults r' = faults (snapshot_reader s) @ [e])))"
proof (intro conjI)
  note image = logging_reader.image_logged [OF assms(1)]
    and rs = faulty_reader.axioms(1) [OF logging_reader.axioms(1) [OF assms(1)]]
  show "let (res, s') = Snapshot_read_block ops off s in
      over invar view v (snapshot_reader s') \<and>
      (res = Ok (snapshot_block v (state s) (unat off div BLOCK_SIZE)) \<and>
         faults (snapshot_reader s') = faults (snapshot_reader s) \<or>
       (\<exists>e. res = Err (Io e) \<and> faults (snapshot_reader s') = faults (snapshot_reader s) @ [e]))"
    using image_simulation.read_block_settles [OF image conjI [OF assms(2) refl] assms(3), of off]
    by (auto simp: settles_def Let_def split_def)
  show "\<exists>res buf' r'. Snapshot_read_at ops off buf s = (res, (buf', s\<lparr>snapshot_reader := r'\<rparr>)) \<and>
       over invar view v r' \<and> length buf' = length buf \<and>
       (res = Ok () \<and> faults r' = faults (snapshot_reader s) \<and>
          buf' = map (\<lambda>j. snapshot_byte v (state s) (min (unat off + j) (2 ^ 64 - 1))) [0..<length buf] \<or>
        (\<exists>e. res = Err (Io e) \<and> faults r' = faults (snapshot_reader s) @ [e]))"
    using image_simulation.Snapshot_read_at_settles [OF image conjI [OF assms(2) refl] assms(3,4), of off]
      Snapshot_read_at_length [OF rs assms(4), of off s]
    unfolding clip_def by auto
qed

definition bad_snapshot :: "flaky Snapshot" where
  "bad_snapshot = \<lparr>snapshot_reader = bad_disk, state = empty_state 16384\<rparr>"

lemma bad_snapshot_sel:
  "snapshot_reader bad_snapshot = bad_disk" "snapshot_volume_size (state bad_snapshot) = 16384"
  by (simp_all add: bad_snapshot_def empty_state_def)

lemma sevens_byte:
  assumes "p < 16384"
  shows "snapshot_byte sevens (empty_state 16384) p = 7"
  using assms
  by (simp add: snapshot_byte_def empty_state_def is_unallocated_def vec_get_def
      block_or_zeros_def in_volume_def block_at_def vss_consts Let_def sevens_def)

text \<open>The same snapshot on a disk whose read fails, and on one that works.\<close>

definition logged_snapshot :: "io_error option list \<Rightarrow> (flaky \<times> io_error list) Snapshot" where
  "logged_snapshot fs = \<lparr>snapshot_reader = (\<lparr>disk = cursor_new sevens, schedule = fs\<rparr>, []),
     state = empty_state 16384\<rparr>"

lemma logged_snapshot_over:
  "over (\<lambda>s. flaky_invar (fst s)) (\<lambda>s. disk (fst s)) sevens (snapshot_reader (logged_snapshot fs))"
  by (simp add: over_def logged_snapshot_def flaky_invar_def image_invar_def sevens_def)

lemma logged_snapshot_sel:
  "state (logged_snapshot fs) = empty_state 16384" "snd (snapshot_reader (logged_snapshot fs)) = []"
  "snapshot_volume_size (empty_state 16384) = 16384"
  by (simp_all add: logged_snapshot_def empty_state_def)

lemma logged_snapshot_faults:
  "snd (snapshot_reader (snd (Snapshot_read_block (logged flaky_ops) 5 (logged_snapshot [None, Some e])))) = [e]"
  "snd (snapshot_reader (snd (Snapshot_read_block (logged flaky_ops) 5 (logged_snapshot [])))) = []"
  by (simp_all add: Snapshot_read_block_def read_block_def read_block_at_def logged_snapshot_def
      empty_state_def is_unallocated_def vec_get_def logged_def log_step_def flaky_ops_def
      flaky_step_def cursor_ops_def cursor_read_exact_def errors_of_def Let_def length_sevens
      saturating_mul_def checked_add_def vss_consts word_le_nat_alt)

theorem faulty_reads_exact_witness:
  "fst (Snapshot_read_block (logged flaky_ops) 5 (logged_snapshot [None, Some (OtherIo 5)])) = Err (Io (OtherIo 5)) \<and>
   fst (Snapshot_read_block (logged flaky_ops) 5 (logged_snapshot [])) =
     Ok (snapshot_block sevens (empty_state 16384) 0)"
  using conjunct1 [OF faulty_reads_exact [OF logged_flaky.logging_reader_axioms
      logged_snapshot_over [of "[None, Some (OtherIo 5)]"], where buf = "[]" and off = 5]]
    conjunct1 [OF faulty_reads_exact [OF logged_flaky.logging_reader_axioms
      logged_snapshot_over [of "[]"], where buf = "[]" and off = 5]] logged_snapshot_faults
  by (auto simp: logged_snapshot_sel length_sevens split_def Let_def vss_consts)

text \<open>C23: a read of an image source over such a reader fills the available prefix with the bytes of
  the snapshot and returns their number, or returns the reader's error as a \<open>VfsError\<close>; either
  way the bytes past the prefix are untouched, the lock is not poisoned by it, and the source
  stays valid with the same image.\<close>
theorem faulty_source_reads:
  assumes "faulty_reader ops invar view"
    and "source_valid invar (\<lambda>r. cursor_data (view r)) src" and "length buf \<le> isize_max"
  shows "\<exists>res buf' r'. source_read_at ops off buf src =
        (res, (buf', src\<lparr>source_reader := (source_reader src)\<lparr>inner := r'\<rparr>\<rparr>)) \<and>
     invar r' \<and> cursor_data (view r') = cursor_data (view (inner (source_reader src))) \<and>
     length buf' = length buf \<and>
     (let n = min (length buf) (length (cursor_data (view r')) - unat off) in
        drop n buf' = drop n buf \<and>
        (res = Ok n \<and> take n buf' =
           subslice (source_image (\<lambda>r. cursor_data (view r)) src) (unat off) n \<or>
         (\<exists>e. res = Err (VfsIo (ascii ''vss snapshot read'') e))))"
proof -
  let ?r = "inner (source_reader src)"
  let ?v = "cursor_data (view ?r)"
  let ?n = "min (length buf) (length ?v - unat off)"
  have over: "over invar view ?v ?r" and size: "source_volume_size src = of_nat (length ?v)"
      "snapshot_volume_size (source_state src) = of_nat (length ?v)"
    using assms(2) by (simp_all add: source_valid_def over_def)
  note fit = faulty_reader.over_fits [OF assms(1) over]
  have want: "?n = (case checked_sub (source_volume_size src) off of None \<Rightarrow> 0 | Some remaining \<Rightarrow>
      min (case usize_try_from remaining of Some n \<Rightarrow> n | None \<Rightarrow> usize_max) (length buf))"
    unfolding size(1) source_want [OF fit] by simp
  show ?thesis
  proof (cases "?n = 0")
    case True
    have "src = src\<lparr>source_reader := (source_reader src)\<lparr>inner := ?r\<rparr>\<rparr>" by simp
    with True show ?thesis
      unfolding source_read_at_unfold [OF want]
      by (intro exI [of _ "Ok 0"] exI [of _ buf] exI [of _ ?r]) (use over in \<open>auto simp: over_def subslice_def Let_def\<close>)
  next
    case False
    then have le: "unat off + ?n \<le> length ?v" by auto
    have len: "length (take ?n buf) = ?n" by simp
    have small: "length (take ?n buf) \<le> isize_max" and bound: "unat off + ?n \<le> 2 ^ 64"
      using assms(3) le fit unfolding len by linarith+
    show ?thesis
    proof (cases rule: image_simulation.read_at_settles
        [OF faulty_reader.image [OF assms(1)] over size(2) small, of off, case_names read fault])
      case (read r')
      show ?thesis
        unfolding source_read_at_unfold [OF want] len
        using False read(1) read(2) [unfolded len clip_range [OF bound]]
          snapshot_image_range [OF le, of "source_state src"]
        by (auto simp: over_def source_image_def Let_def)
    next
      case (fault e part r')
      have "length part = ?n"
        using read_at_loop_safe [OF faulty_reader.axioms(1) [OF assms(1)] small,
            of "source_state src" 0 off ?r] fault(2) len by (simp add: read_at_def)
      with fault False show ?thesis
        unfolding source_read_at_unfold [OF want] by (auto simp: over_def Let_def)
    qed
  qed
qed

theorem faulty_source_reads_witness:
  "\<exists>res buf' src'. source_read_at flaky_ops 16383 [1, 2]
     \<lparr>source_reader = \<lparr>poisoned = True, inner = bad_disk\<rparr>, source_state = empty_state 16384,
      source_volume_size = 16384\<rparr> = (res, (buf', src')) \<and> drop 1 buf' = [2]"
proof -
  let ?src = "\<lparr>source_reader = \<lparr>poisoned = True, inner = bad_disk\<rparr>, source_state = empty_state 16384,
      source_volume_size = 16384\<rparr>"
  have "source_valid flaky_invar (\<lambda>r. cursor_data (disk r)) ?src"
    using bad_disk_over(1)
    by (simp add: source_valid_def over_def empty_state_def sevens_def)
  from faulty_source_reads [OF flaky_reader.faulty_reader_axioms this, of "[1, 2]" 16383]
  show ?thesis
    using bad_disk_over(1)
    by (auto simp: isize_max_val over_def sevens_def Let_def)
qed

section \<open>Trying again\<close>

text \<open>An operation repeated while it fails with an I/O error, up to \<open>n\<close> times more.\<close>

fun retry :: "nat \<Rightarrow> ('s \<Rightarrow> (VssError, 'a) outcome \<times> 's) \<Rightarrow> 's \<Rightarrow> (VssError, 'a) outcome \<times> 's" where
  "retry 0 f s = f s"
| "retry (Suc n) f s = (case f s of (Err (Io e), s') \<Rightarrow> retry n f s' | p \<Rightarrow> p)"

text \<open>With at most \<open>k\<close> failures left the state is \<open>live k\<close>: \<open>k\<close> repetitions reach the result.\<close>

lemma retry_settles:
  assumes step: "\<And>k s. live k s \<Longrightarrow> settles fin (\<lambda>_ s. \<exists>j<k. live j s) res (f s)"
    and final: "\<forall>e. res \<noteq> Err (Io e)"
  shows "live k s \<Longrightarrow> k \<le> n \<Longrightarrow> fst (retry n f s) = res \<and> fin (snd (retry n f s))"
proof (induction n arbitrary: k s)
  case 0
  with step [of k s] show ?case by (auto simp: settles_def)
next
  case (Suc n)
  from step [OF Suc.prems(1)] show ?case
    unfolding settles_def
  proof (elim disjE conjE exE)
    assume "fst (f s) = res" and "fin (snd (f s))"
    with final show ?thesis by (auto split: prod.split outcome.split VssError.split)
  next
    fix e j assume "fst (f s) = Err (Io e)" and j: "j < k" "live j (snd (f s))"
    moreover have "fst (retry n f (snd (f s))) = res \<and> fin (snd (retry n f (snd (f s))))"
      by (rule Suc.IH [OF j(2)]) (use j(1) Suc.prems(2) in simp)
    ultimately show ?thesis by (cases "f s") simp
  qed
qed

lemma store_info_spec_not_io: "store_info_spec v ds i \<noteq> Err (Io e)"
  by (simp add: store_info_spec_def split: option.split)

lemma snapshot_state_spec_not_io: "snapshot_state_spec v ds i \<noteq> Err (Io e)"
  by (simp add: snapshot_state_spec_def split: option.split)

text \<open>A volume with \<open>ds\<close> enumerated whose reader has at most \<open>k\<close> failures left.\<close>

definition ready ::
    "('r \<Rightarrow> bool) \<Rightarrow> ('r \<Rightarrow> cursor) \<Rightarrow> ('r \<Rightarrow> nat) \<Rightarrow> bytes \<Rightarrow> StoreDescriptor list \<Rightarrow> nat \<Rightarrow>
     'r VssVolume \<Rightarrow> bool" where
  "ready invar view budget v ds k vol \<longleftrightarrow>
     over invar view v (reader vol) \<and> budget (reader vol) \<le> k \<and>
     total_size vol = of_nat (length v) \<and> stores vol = ds"

lemma ready_settles:
  assumes "ready invar view budget v ds k vol" and "\<exists>r'. snd p = vol\<lparr>reader := r'\<rparr>"
    and "settles (\<lambda>vol. live (reader vol))
      (\<lambda>_ vol. over invar view v (reader vol) \<and> budget (reader vol) < k) res p"
  shows "settles (\<lambda>_. True) (\<lambda>_ vol. \<exists>j<k. ready invar view budget v ds j vol) res p"
  using assms by (fastforce simp: settles_def ready_def)

context recovering_reader
begin

text \<open>A reader that is done failing gives the result at once.\<close>

lemma spent_store_info:
  assumes "over invar view v (reader vol)" and "budget (reader vol) = 0"
    and "total_size vol = of_nat (length v)"
  shows "fst (store_info ops i vol) = store_info_spec v (stores vol) i"
  using image_simulation.store_info_settles [OF image_within [of v 0], of vol i] assms
  by (simp add: settles_def)

lemma retry_store_info:
  assumes "ready invar view budget v ds k vol" and "k \<le> n"
  shows "fst (retry n (store_info ops i) vol) = store_info_spec v ds i"
proof (rule conjunct1 [OF retry_settles [of "ready invar view budget v ds" "\<lambda>_. True", OF _ _ assms]])
  fix k vol assume r: "ready invar view budget v ds k vol"
  then show "settles (\<lambda>_. True) (\<lambda>_ vol. \<exists>j<k. ready invar view budget v ds j vol)
      (store_info_spec v ds i) (store_info ops i vol)"
    using image_simulation.store_info_settles [OF image_within [of v k], of vol i]
    by (intro ready_settles [OF r store_info_frame]) (auto simp: ready_def)
qed (simp add: store_info_spec_not_io)

lemma retry_snapshot_state:
  assumes "ready invar view budget v ds k vol" and "k \<le> n"
  shows "fst (retry n (snapshot_state ops i) vol) = snapshot_state_spec v ds i"
proof (rule conjunct1 [OF retry_settles [of "ready invar view budget v ds" "\<lambda>_. True", OF _ _ assms]])
  fix k vol assume r: "ready invar view budget v ds k vol"
  then show "settles (\<lambda>_. True) (\<lambda>_ vol. \<exists>j<k. ready invar view budget v ds j vol)
      (snapshot_state_spec v ds i) (snapshot_state ops i vol)"
    using image_simulation.snapshot_state_settles [OF image_within [of v k], of vol i]
    by (intro ready_settles [OF r snapshot_state_frame]) (auto simp: ready_def)
qed (simp add: snapshot_state_spec_not_io)

lemma retry_read_at:
  assumes "over invar view v (snapshot_reader s)" and "budget (snapshot_reader s) \<le> k" and "k \<le> n"
    and "snapshot_volume_size (state s) = of_nat (length v)" and "length buf = l"
    and "l \<le> isize_max"
  shows "\<exists>s'. retry n (\<lambda>(b, s). Snapshot_read_at ops off b s) (buf, s) =
       (Ok (), (map (\<lambda>j. snapshot_byte v (state s) (clip (unat off + j))) [0..<l], s'))"
proof -
  define live where "live = (\<lambda>k (b :: bytes, s' :: 'r Snapshot). length b = l \<and> state s' = state s \<and>
    over invar view v (snapshot_reader s') \<and> budget (snapshot_reader s') \<le> k)"
  let ?img = "map (\<lambda>j. snapshot_byte v (state s) (clip (unat off + j))) [0..<l]"
  have "settles (\<lambda>p. fst p = ?img) (\<lambda>_ p. \<exists>j<k. live j p) (Ok ()) (Snapshot_read_at ops off b s1)"
    if l1: "live k (b, s1)" for k b s1
    using image_simulation.Snapshot_read_at_settles [OF image_within [of v k], of s1 b off]
      Snapshot_read_at_length [OF read_seek_axioms, of b off s1] assms(4-6) l1
    by (fastforce simp: settles_def live_def)
  then have "fst (retry n (\<lambda>(b, s). Snapshot_read_at ops off b s) (buf, s)) = Ok () \<and>
      fst (snd (retry n (\<lambda>(b, s). Snapshot_read_at ops off b s) (buf, s))) = ?img"
    by (intro retry_settles [of live _ _ _ k]) (use assms in \<open>auto simp: live_def\<close>)
  then show ?thesis by (metis prod.collapse)
qed

end

text \<open>C19: on a reader that fails at most \<open>budget\<close> more times, repeating an operation that failed
  reaches its result after at most as many repetitions: the store information, the snapshot
  state, and the whole range of a snapshot read over the same buffer.\<close>
theorem retries_succeed:
  assumes "recovering_reader ops invar view budget"
    and "over invar view v (reader vol)" and "total_size vol = of_nat (length v)"
    and "budget (reader vol) \<le> n"
    and "over invar view v (snapshot_reader s)" and "snapshot_volume_size (state s) = of_nat (length v)"
    and "budget (snapshot_reader s) \<le> n"
    and "length buf \<le> isize_max"
  shows "fst (retry n (store_info ops i) vol) = store_info_spec v (stores vol) i \<and>
    fst (retry n (snapshot_state ops i) vol) = snapshot_state_spec v (stores vol) i \<and>
    (\<exists>s'. retry n (\<lambda>(b, s). Snapshot_read_at ops off b s) (buf, s) =
       (Ok (), (map (\<lambda>j. snapshot_byte v (state s) (min (unat off + j) (2 ^ 64 - 1))) [0..<length buf], s')))"
proof (intro conjI)
  note recover = recovering_reader.retry_store_info [OF assms(1)]
    recovering_reader.retry_snapshot_state [OF assms(1)]
    recovering_reader.retry_read_at [OF assms(1)]
  show "fst (retry n (store_info ops i) vol) = store_info_spec v (stores vol) i"
    and "fst (retry n (snapshot_state ops i) vol) = snapshot_state_spec v (stores vol) i"
    using recover(1,2) [of v "stores vol" n vol n i] assms(2-4) by (simp_all add: ready_def)
  show "\<exists>s'. retry n (\<lambda>(b, s). Snapshot_read_at ops off b s) (buf, s) =
       (Ok (), (map (\<lambda>j. snapshot_byte v (state s) (min (unat off + j) (2 ^ 64 - 1))) [0..<length buf], s'))"
    using recover(3) [of v s n n buf "length buf" off] assms(5-8) unfolding clip_def by simp
qed

theorem retries_succeed_witness:
  "\<exists>s'. retry 2 (\<lambda>(b, s). Snapshot_read_at flaky_ops 5 b s) ([0, 0], bad_snapshot) = (Ok (), ([7, 7], s'))"
proof -
  let ?vol = "\<lparr>reader = bad_disk, total_size = 16384, has_vss_header = True, catalog_offset = 0,
              stores = []\<rparr>"
  have seven: "snapshot_byte sevens (state bad_snapshot) p = 7" if "p < 16384" for p
    using sevens_byte [OF that] by (simp add: bad_snapshot_def)
  from retries_succeed [OF flaky_reader.recovering_reader_axioms, of sevens ?vol 2 bad_snapshot "[0, 0]" 0 5]
    bad_disk_over show ?thesis
    by (auto simp: bad_snapshot_sel length_sevens isize_max_val seven)
qed

section \<open>The audit\<close>

text \<open>The volume after the information of its first \<open>i\<close> stores has been asked for.\<close>

primrec visit :: "'r read_seek_ops \<Rightarrow> 'r VssVolume \<Rightarrow> nat \<Rightarrow> 'r VssVolume" where
  "visit ops vol 0 = vol"
| "visit ops vol (Suc i) = snd (store_info ops i (visit ops vol i))"

declare visit.simps(2) [simp del]

lemma visit_frame: "\<exists>r'. visit ops vol i = vol\<lparr>reader := r'\<rparr>"
proof (induction i)
  case 0
  show ?case by (rule exI [of _ "reader vol"]) simp
next
  case (Suc i)
  then obtain r' where "visit ops vol i = vol\<lparr>reader := r'\<rparr>" ..
  with store_info_frame [of ops i "visit ops vol i"] show ?case by (auto simp: visit.simps(2))
qed

lemma visit_sel [simp]:
  "stores (visit ops vol i) = stores vol" "total_size (visit ops vol i) = total_size vol"
  using visit_frame [of ops vol i] by auto

context logging_reader
begin

lemma visit_over:
  assumes "over invar view v (reader vol)" and "total_size vol = of_nat (length v)"
  shows "over invar view v (reader (visit ops vol i))"
proof (induction i)
  case (Suc i)
  from image_simulation.store_info_settles [OF image, OF Suc, of i] assms(2) show ?case
    by (auto simp: settles_def visit.simps(2))
qed (simp add: assms)

text \<open>Each visit reads the information, or ends with the error that it adds to the log.\<close>

lemma visit_step:
  assumes "over invar view v (reader vol)" and "total_size vol = of_nat (length v)"
  shows "fst (store_info ops i (visit ops vol i)) = store_info_spec v (stores vol) i \<and>
      faults (reader (visit ops vol (Suc i))) = faults (reader (visit ops vol i)) \<or>
    (\<exists>e. fst (store_info ops i (visit ops vol i)) = Err (Io e) \<and>
      faults (reader (visit ops vol (Suc i))) = faults (reader (visit ops vol i)) @ [e])"
  using image_simulation.store_info_settles [OF image_logged conjI [OF visit_over [OF assms] refl],
      of i i] assms(2)
  by (auto simp: settles_def visit.simps(2))

lemma push_non_persistent_logged:
  assumes "over invar view v (reader vol)" and "total_size vol = of_nat (length v)"
    and "i \<le> length (stores vol)"
  shows "push_non_persistent voc uuid ops i (drop i (stores vol)) out (visit ops vol i) =
    (Some (out @ map (Anomaly_new voc) (concat (map
       (\<lambda>j. if faults (reader (visit ops vol (Suc j))) = faults (reader (visit ops vol j))
            then non_persistent_spec uuid v (stores vol) j else [])
       [i..<length (stores vol)]))), visit ops vol (length (stores vol)))"
  using assms(3)
proof (induction arbitrary: out rule: inc_induct)
  case (step i)
  let ?ks = "if faults (reader (visit ops vol (Suc i))) = faults (reader (visit ops vol i))
    then non_persistent_spec uuid v (stores vol) i else []"
  have drop: "drop i (stores vol) = stores vol ! i # drop (Suc i) (stores vol)"
    using step.hyps(2) by (simp add: Cons_nth_drop_Suc)
  obtain res where si: "store_info ops i (visit ops vol i) = (res, visit ops vol (Suc i))"
    by (rule that [of "fst (store_info ops i (visit ops vol i))"]) (simp add: visit.simps(2))
  have "res \<noteq> Panic"
    using store_info_not_panic [OF read_seek_axioms, of i "visit ops vol i"] si by simp
  moreover from visit_step [OF assms(1,2), of i] si
  have "res = store_info_spec v (stores vol) i \<and>
      faults (reader (visit ops vol (Suc i))) = faults (reader (visit ops vol i)) \<or>
    (\<exists>e. res = Err (Io e) \<and> faults (reader (visit ops vol (Suc i))) \<noteq> faults (reader (visit ops vol i)))"
    by auto
  ultimately have "push_non_persistent voc uuid ops i (drop i (stores vol)) out (visit ops vol i) =
      push_non_persistent voc uuid ops (Suc i) (drop (Suc i) (stores vol))
        (out @ map (Anomaly_new voc) ?ks) (visit ops vol (Suc i))"
    unfolding drop push_non_persistent.simps si
    by (elim disjE; cases "store_info_spec v (stores vol) i") (auto simp: non_persistent_spec_def)
  with step.IH step.hyps(2) show ?case
    by (simp add: upt_conv_Cons)
qed simp

end

text \<open>C24: an audit over a reader that may fail asks every store for its information once, in order,
  each on the reader that the one before has left. It reports the presence of every store and
  every sequence gap, as over a sound reader, and of the attribute findings exactly those of the
  stores for which the reader returned no error; each store it leaves out is one whose
  information failed with an error that the reader returned there. So it reports nothing that is
  not on the volume, and a failure costs the findings of its own store alone.\<close>
theorem faulty_audit_only_omits:
  assumes "logging_reader ops invar view faults" and "over invar view v (reader vol)"
    and "total_size vol = of_nat (length v)"
  shows "audit voc uuid ops vol = (Some (map (Anomaly_new voc)
      (if has_vss_header vol \<and> stores vol = [] then [NoShadowCopies]
       else map (store_present uuid) (stores vol) @ gap_kinds (stores vol) @
         concat (map
           (\<lambda>i. if faults (reader (visit ops vol (Suc i))) = faults (reader (visit ops vol i))
                then non_persistent_spec uuid v (stores vol) i else [])
           [0..<length (stores vol)]))), visit ops vol (length (stores vol))) \<and>
    (\<forall>i < length (stores vol).
      fst (store_info ops i (visit ops vol i)) = store_info_spec v (stores vol) i \<and>
        faults (reader (visit ops vol (Suc i))) = faults (reader (visit ops vol i)) \<or>
      (\<exists>e. fst (store_info ops i (visit ops vol i)) = Err (Io e) \<and>
        faults (reader (visit ops vol (Suc i))) = faults (reader (visit ops vol i)) @ [e]))"
proof (intro conjI allI impI)
  show "audit voc uuid ops vol = (Some (map (Anomaly_new voc)
      (if has_vss_header vol \<and> stores vol = [] then [NoShadowCopies]
       else map (store_present uuid) (stores vol) @ gap_kinds (stores vol) @
         concat (map
           (\<lambda>i. if faults (reader (visit ops vol (Suc i))) = faults (reader (visit ops vol i))
                then non_persistent_spec uuid v (stores vol) i else [])
           [0..<length (stores vol)]))), visit ops vol (length (stores vol)))"
  proof (cases "has_vss_header vol \<and> stores vol = []")
    case True
    then show ?thesis by (simp add: audit_def)
  next
    case False
    note loop = logging_reader.push_non_persistent_logged [OF assms le0, of voc uuid,
        unfolded drop_0 visit.simps(1)]
    show ?thesis
      unfolding audit_unfold [OF False] if_not_P [OF False] loop by simp
  qed
qed (rule logging_reader.visit_step [OF assms])

text \<open>A volume of two stores with one store information, not persistent, on a disk whose first operation
  fails.\<close>

definition volatile_info :: StoreInfo where
  "volatile_info = sample_info\<lparr>attributes := AttributeFlags 4\<rparr>"

definition volatile_bytes :: bytes where
  "volatile_bytes = encode_store_header sample_store_header @
     encode_store_info (replicate 16 0) (replicate 4 0) (replicate 4 0) volatile_info"

definition volatile_stores :: "StoreDescriptor list" where
  "volatile_stores = [sample_store\<lparr>store_id := replicate 16 1, sequence := 7, store_header_offset := Some 0\<rparr>,
     sample_store\<lparr>store_id := replicate 16 2, sequence := 3, store_header_offset := Some 0\<rparr>]"

definition lossy_volume :: "(flaky \<times> io_error list) VssVolume" where
  "lossy_volume = \<lparr>reader = (\<lparr>disk = cursor_new volatile_bytes, schedule = [Some (OtherIo 5)]\<rparr>, []),
     total_size = 208, has_vss_header = True, catalog_offset = 0, stores = volatile_stores\<rparr>"

lemma volatile_info_valid: "valid_store_info volatile_info"
  by (simp add: volatile_info_def valid_store_info_def valid_machine_def sample_info_def
      ascii_def is_scalar_def utf16le_bytes_def encode_utf16_def encode_char_def)

lemma volatile_info_length:
  "length (encode_store_info (replicate 16 0) (replicate 4 0) (replicate 4 0) volatile_info) = 80"
  by (simp add: volatile_info_def sample_info_def ascii_def utf16le_bytes_def encode_utf16_def
      encode_char_def encode_store_info_def)

lemma length_volatile_bytes: "length volatile_bytes = 208"
  by (simp add: volatile_bytes_def store_header.length_encode volatile_info_length)

lemma volatile_spec:
  assumes "i < 2"
  shows "store_info_spec volatile_bytes volatile_stores i = Ok volatile_info"
proof (rule store_info_spec_encoded [where h = 0 and pre = "[]" and post = "[]" and v = volatile_bytes
      and hdr = sample_store_header and ua = "replicate 16 0" and ub = "replicate 4 0"
      and uc = "replicate 4 0"])
  show "store_header_offset (volatile_stores ! i) = Some 0"
    using assms by (cases i) (auto simp: volatile_stores_def)
qed (use assms in \<open>simp_all add: volatile_stores_def volatile_info_valid volatile_info_length
    volatile_bytes_def sample_store_header_def vss_consts\<close>)

lemma lossy_first: "store_info (logged flaky_ops) 0 lossy_volume = (Err (Io (OtherIo 5)),
    lossy_volume\<lparr>reader := (\<lparr>disk = cursor_new volatile_bytes, schedule = []\<rparr>, [OtherIo 5])\<rparr>)"
  by (simp add: store_info_def with_reader_def vec_get_def lossy_volume_def volatile_stores_def
      logged_def log_step_def flaky_ops_def flaky_step_def cursor_ops_def from_io_def cursor_new_def
      errors_of_def checked_add_def vss_consts word_le_nat_alt)

lemma lossy_second: "fst (store_info (logged flaky_ops) 1 (visit (logged flaky_ops) lossy_volume 1)) =
    Ok volatile_info"
proof -
  let ?r = "\<lparr>disk = cursor_new volatile_bytes, schedule = []\<rparr>"
  have v1: "visit (logged flaky_ops) lossy_volume 1 = lossy_volume\<lparr>reader := (?r, [OtherIo 5])\<rparr>"
    unfolding One_nat_def visit.simps lossy_first by simp
  have "fst (store_info (logged flaky_ops) 1 (lossy_volume\<lparr>reader := (?r, [OtherIo 5])\<rparr>)) =
      fst (store_info flaky_ops 1
        (view_volume fst (lossy_volume\<lparr>reader := (?r, [OtherIo 5])\<rparr>)))"
    by (rule follows_faultless(1) [OF unlog.follows_store_info]) simp_all
  also have "\<dots> = store_info_spec volatile_bytes volatile_stores 1"
    using flaky_reader.spent_store_info [of volatile_bytes
        "view_volume fst (lossy_volume\<lparr>reader := (?r, [OtherIo 5])\<rparr>)" 1]
    by (simp add: over_def flaky_invar_def image_invar_def faults_left_def length_volatile_bytes
        lossy_volume_def)
  finally show ?thesis unfolding v1 by (simp add: volatile_spec)
qed

theorem faulty_audit_only_omits_witness:
  "fst (audit sample_vocabulary (\<lambda>b. [unat (hd b)]) (logged flaky_ops) lossy_volume) =
     Some (map (Anomaly_new sample_vocabulary)
       [StorePresent [1] 7 32768 130000000000000000, StorePresent [2] 3 32768 130000000000000000,
        SequenceGap 3 7, StoreNonPersistent [2] 4])"
proof -
  let ?uuid = "\<lambda>b. [unat (hd b)]"
  let ?log = "\<lambda>i. snd (reader (visit (logged flaky_ops) lossy_volume i))"
  have vol: "stores lossy_volume = volatile_stores" "total_size lossy_volume = of_nat (length volatile_bytes)"
      "length volatile_stores = 2" "volatile_stores \<noteq> []"
      "over (\<lambda>s. flaky_invar (fst s)) (\<lambda>s. disk (fst s)) volatile_bytes (reader lossy_volume)"
    by (simp_all add: lossy_volume_def volatile_stores_def length_volatile_bytes over_def flaky_invar_def
        image_invar_def)
  have one_of_two: "1 < (2 :: nat)" by simp
  note audit = faulty_audit_only_omits [OF logged_flaky.logging_reader_axioms vol(5,2),
      of sample_vocabulary ?uuid]
  have "?log 0 = []" "?log 1 = [OtherIo 5]"
    by (simp_all add: visit.simps(2) lossy_first) (simp add: lossy_volume_def)
  moreover have "?log (Suc 1) = ?log 1"
    using conjunct2 [OF audit, rule_format, of 1] lossy_second vol(1,3) by auto
  moreover have "gap_kinds volatile_stores = [SequenceGap 3 7]"
  proof -
    have "sort [7, 3 :: u64] = [3, 7]" by simp
    then show ?thesis by (simp add: gap_kinds_def volatile_stores_def)
  qed
  moreover have "non_persistent_spec ?uuid volatile_bytes volatile_stores 1 = [StoreNonPersistent [2] 4]"
    unfolding non_persistent_spec_def volatile_spec [OF one_of_two]
    by (simp add: volatile_info_def volatile_stores_def is_persistent_def attr_contains_def PERSISTENT_def attribute_bits_def store_id_string_def
        format_guid_def)
  moreover have "map (store_present ?uuid) volatile_stores =
      [StorePresent [1] 7 32768 130000000000000000, StorePresent [2] 3 32768 130000000000000000]"
    by (simp add: volatile_stores_def store_present_def sample_store_def store_id_string_def format_guid_def)
  moreover have "[0..<2] = [0, 1 :: nat]" by (simp add: upt_rec)
  ultimately show ?thesis
    using conjunct1 [OF audit] vol(1,3,4) by simp
qed

end
