(* ===== verification/Vss_Cost.thy ===== *)
theory Vss_Cost
  imports Reader_Simulation
begin

text \<open>
  What the operations ask of their reader. A \<open>metered\<close> reader has a meter that each seek raises
  by at most \<open>seek_cost\<close> and each \<open>read_exact\<close> of \<open>n\<close> bytes by at most \<open>read_cost n\<close>, whether
  it succeeds or fails; nothing else is known of it, so the bounds hold on a corrupt or hostile
  volume and on a reader that lies. \<open>counted\<close> puts two meters on any reader, one for the
  operations and one for the bytes asked for.
\<close>

section \<open>Meters\<close>

definition costs :: "('r \<Rightarrow> nat) \<Rightarrow> nat \<Rightarrow> 'r \<Rightarrow> 'b \<times> 'r \<Rightarrow> bool" where
  "costs used n r p \<longleftrightarrow> used (snd p) \<le> used r + n"

lemma costs_return: "costs used n r (x, r)"
  by (simp add: costs_def)

lemma costs_weaken: "costs used m r p \<Longrightarrow> m \<le> n \<Longrightarrow> costs used n r p"
  by (simp add: costs_def)

lemma costs_then:
  assumes "costs used m r p" and "\<And>a r'. fst p = Ok a \<Longrightarrow> snd p = r' \<Longrightarrow> costs used n r' (f a r')"
  shows "costs used (m + n) r (and_then p f)"
  using assms by (cases p; cases "fst p") (fastforce simp: costs_def)+

text \<open>What follows asks nothing more.\<close>

lemma costs_then_pure:
  "costs used m r p \<Longrightarrow> (\<And>a r'. costs used 0 r' (f a r')) \<Longrightarrow> costs used m r (and_then p f)"
  using costs_then [of used m r p 0 f] by simp

lemma costs_or_panic: "(\<And>a. p = Some a \<Longrightarrow> costs used n r (f a)) \<Longrightarrow> costs used n r (or_panic p r f)"
  by (cases p) (simp_all add: costs_def)

lemma costs_if:
  "(c \<Longrightarrow> costs used n r p) \<Longrightarrow> (\<not> c \<Longrightarrow> costs used n r q) \<Longrightarrow> costs used n r (if c then p else q)"
  by simp

lemma costs_option:
  "costs used n r p \<Longrightarrow> (\<And>a. x = Some a \<Longrightarrow> costs used n r (f a)) \<Longrightarrow>
   costs used n r (case x of None \<Rightarrow> p | Some a \<Rightarrow> f a)"
  by (cases x) simp_all

lemma costs_prod:
  "(\<And>x y. costs used n r (f x y r)) \<Longrightarrow> costs used n r ((case p of (x, y) \<Rightarrow> f x y) r)"
  by (cases p) simp

lemma costs_lift_io: "costs used n r p \<Longrightarrow> costs used n r (lift_io p)"
  by (cases p; cases "fst p") (auto simp: costs_def)

lemma costs_map_err: "costs used n r p \<Longrightarrow> costs used n r (map_err g p)"
  by (cases p; cases "fst p") (auto simp: costs_def)

lemmas cost_rules = costs_or_panic costs_if costs_option costs_return

locale metered =
  fixes ops :: "'r read_seek_ops" and used :: "'r \<Rightarrow> nat"
    and seek_cost :: nat and read_cost :: "nat \<Rightarrow> nat"
  assumes end_cost: "costs used seek_cost r (seek_end ops r)"
    and start_cost: "costs used seek_cost r (seek_start ops p r)"
    and exact_cost: "costs used (read_cost n) r (read_exact ops n r)"
    and read_cost_mono: "m \<le> n \<Longrightarrow> read_cost m \<le> read_cost n"
begin

lemmas io_costs = end_cost [THEN costs_lift_io] start_cost [THEN costs_lift_io] exact_cost [THEN costs_lift_io]

lemma vss_costs:
  "costs used seek_cost r (from_io (seek_end ops r))"
  "costs used seek_cost r (from_io (seek_start ops p r))"
  "costs used (read_cost n) r (from_io (read_exact ops n r))"
  unfolding from_io_def by (intro costs_map_err io_costs)+

text \<open>A structure of \<open>n\<close> bytes: one seek and one read.\<close>

abbreviation fetch_cost :: "nat \<Rightarrow> nat" where
  "fetch_cost n \<equiv> seek_cost + read_cost n"

lemma costs_fetch_vss:
  assumes "\<And>b r. costs used m r (f b r)"
  shows "costs used (fetch_cost n + m) r
    (and_then (from_io (seek_start ops p r)) (\<lambda>_ r. and_then (from_io (read_exact ops n r)) f))"
  unfolding add.assoc by (intro costs_then vss_costs assms)

lemma costs_fetch_io:
  assumes "\<And>b r. costs used m r (f b r)"
  shows "costs used (fetch_cost n + m) r
    (and_then (lift_io (seek_start ops p r)) (\<lambda>_ r. and_then (lift_io (read_exact ops n r)) f))"
  unfolding add.assoc by (intro costs_then io_costs assms)

end

section \<open>The chain walks\<close>

context chain_walk
begin

lemma walk_cost:
  assumes m: "metered ops used sc rc"
  shows "costs used ((cap - blocks) * (sc + rc BLOCK_SIZE)) r (walk ops vs st visited next blocks r)"
proof (induction "cap - blocks" arbitrary: st visited "next" blocks r)
  case 0
  then show ?case by (subst walk_unfold) (simp add: costs_return)
next
  case (Suc k)
  have k: "k = cap - Suc blocks" using Suc.hyps(2) by simp
  show ?case
    unfolding Suc.hyps(2) [symmetric] mult_Suc
    by (subst walk_unfold)
      (intro cost_rules metered.costs_fetch_vss [OF m],
        auto intro: cost_rules Suc.hyps(1) [OF k, folded k] split: option.split)
qed

end

section \<open>The operations\<close>

text \<open>The store blocks that make up block \<open>k\<close> of a snapshot: the base and the patches of its own entry
  in the block map, or the live block, or none if it is unallocated; and of these the ones that
  lie within the volume, which are fetched.\<close>

definition block_sources :: "SnapshotState \<Rightarrow> nat \<Rightarrow> u64 list" where
  "block_sources st k =
     (let base = of_nat (k * BLOCK_SIZE) in
      case block_map st base of
        Some (d # ds) \<Rightarrow>
          (case find is_plain (rev (d # ds)) of None \<Rightarrow> base | Some p \<Rightarrow> store_offset p) #
          map store_offset (filter is_patch (d # ds))
      | _ \<Rightarrow> if is_unallocated st (of_nat k) then [] else [base])"

definition within_volume :: "u64 \<Rightarrow> u64 \<Rightarrow> bool" where
  "within_volume vs off \<longleftrightarrow> unat off + BLOCK_SIZE \<le> unat vs"

definition block_fetches :: "SnapshotState \<Rightarrow> nat \<Rightarrow> u64 list" where
  "block_fetches st k = filter (within_volume (snapshot_volume_size st)) (block_sources st k)"

lemma within_volume_checked:
  "checked_add off (of_nat BLOCK_SIZE) = Some e \<Longrightarrow> e \<le> vs \<Longrightarrow> within_volume vs off"
  using unat_add_exact [of off "of_nat BLOCK_SIZE"]
  by (auto simp: within_volume_def checked_add_def unat_block_size word_le_nat_alt split: if_splits)

lemma costs_with_reader:
  "(\<And>r. costs used n r (f r)) \<Longrightarrow>
   costs (\<lambda>vol. used (reader vol)) n vol (with_reader vol f)"
  by (simp add: costs_def with_reader_def split_def)

lemma costs_beside: "costs used n r p \<Longrightarrow> costs (\<lambda>s. used (snd s)) n (b, r) (apsnd (Pair b) p)"
  by (simp add: costs_def)

context metered
begin

lemma costs_walk_catalog:
  "costs used (MAX_CATALOG_BLOCKS * fetch_cost BLOCK_SIZE) r (walk_catalog ops first vs r)"
  using catalog.walk_cost [OF metered_axioms, of 0] by (simp add: walk_catalog_def)

lemma costs_open:
  "costs used (seek_cost + fetch_cost CATALOG_BLOCK_HEADER_LEN + MAX_CATALOG_BLOCKS * fetch_cost BLOCK_SIZE) r
     (open_volume_run ops r)"
proof -
  have header: "costs used (fetch_cost CATALOG_BLOCK_HEADER_LEN) r
     (and_then (from_io (seek_start ops VSS_VOLUME_HEADER_OFFSET r)) (\<lambda>_ r.
      and_then (from_io (read_exact ops CATALOG_BLOCK_HEADER_LEN r)) (\<lambda>hdr r.
      or_panic (VolumeHeader_parse hdr) r (\<lambda>vh.
        (Ok (has_vss_identifier vh, header_catalog_offset vh), r)))))" for r
    by (rule costs_weaken, rule costs_fetch_vss [where m = 0], intro cost_rules) simp
  show ?thesis
    unfolding open_volume_run_def add.assoc [of seek_cost "fetch_cost CATALOG_BLOCK_HEADER_LEN"]
    by (rule costs_then [OF vss_costs(1)], rule costs_then [where m = "fetch_cost CATALOG_BLOCK_HEADER_LEN"])
      (intro cost_rules header costs_prod costs_then_pure costs_walk_catalog)+
qed

lemma costs_store_info:
  "costs (\<lambda>vol. used (reader vol)) (fetch_cost STORE_BLOCK_HEADER_LEN + read_cost MAX_STORE_INFO_LEN) vol
     (store_info ops i vol)"
proof -
  have info: "costs used (read_cost MAX_STORE_INFO_LEN) r
      (and_then (from_io (read_exact ops (min (min a MAX_STORE_INFO_LEN) b) r)) (\<lambda>ibuf r.
       or_panic (StoreInfo_parse ibuf) r (\<lambda>info. (Ok info, r))))" for a b r
    by (rule costs_weaken, rule costs_then [where n = 0], rule vss_costs, intro cost_rules)
      (simp add: read_cost_mono)
  show ?thesis
    unfolding store_info_def Let_def
    by (intro cost_rules costs_with_reader costs_fetch_vss info)
qed

lemma costs_snapshot_state:
  "costs (\<lambda>vol. used (reader vol)) (2 * MAX_STORE_BLOCKS * fetch_cost BLOCK_SIZE) vol
     (snapshot_state ops i vol)"
proof -
  let ?c = "MAX_STORE_BLOCKS * fetch_cost BLOCK_SIZE"
  have two: "2 * MAX_STORE_BLOCKS * fetch_cost BLOCK_SIZE = ?c + ?c" by simp
  have map: "costs used ?c r (build_block_map ops first vs r)" for first vs r
    using diff.walk_cost [OF metered_axioms, of 0] by (simp add: build_block_map_def)
  have bitmap: "costs used ?c r (build_bitmap ops first vs r)" for first vs r
    unfolding build_bitmap_def Let_def
    using bitmap_walk.walk_cost [OF metered_axioms, of 0]
    by (intro costs_then_pure cost_rules) simp
  show ?thesis
    unfolding snapshot_state_def Let_def two
    by (intro cost_rules costs_with_reader costs_then [OF map] costs_then_pure [OF bitmap])
qed

lemma costs_read_block_at:
  "costs used (length (filter (within_volume vs) [off]) * fetch_cost BLOCK_SIZE) r (read_block_at ops off vs r)"
proof -
  have fetch: "costs used (fetch_cost BLOCK_SIZE) r
      (and_then (lift_io (seek_start ops off r)) (\<lambda>_ r.
       and_then (lift_io (read_exact ops BLOCK_SIZE r)) (\<lambda>out r. (Ok (True, out), r))))"
    by (rule costs_weaken [OF costs_fetch_io [where m = 0]]) (simp_all add: costs_return)
  show ?thesis
    unfolding read_block_at_def
    using fetch within_volume_checked [of off _ vs]
    by (auto simp: costs_return costs_def split: option.split)
qed

lemma costs_apply_overlays:
  "costs used (length (filter (within_volume vs) (map store_offset ds)) * fetch_cost BLOCK_SIZE) r
     (apply_overlays ops vs ds out r)"
proof (induction ds arbitrary: out r)
  case (Cons d ds)
  have split: "length (filter (within_volume vs) (map store_offset (d # ds))) * fetch_cost BLOCK_SIZE =
      length (filter (within_volume vs) [store_offset d]) * fetch_cost BLOCK_SIZE +
      length (filter (within_volume vs) (map store_offset ds)) * fetch_cost BLOCK_SIZE"
    by simp
  show ?case
    unfolding apply_overlays.simps split
    by (intro costs_then [OF costs_read_block_at] cost_rules Cons.IH)
qed (simp add: costs_return)

lemma costs_read_block:
  "costs used (length (block_fetches st (unat off div BLOCK_SIZE)) * fetch_cost BLOCK_SIZE) r
     (read_block ops st off r)"
proof -
  let ?vs = "snapshot_volume_size st"
  define base where "base = saturating_mul (off div of_nat BLOCK_SIZE) (of_nat BLOCK_SIZE)"
  have base_of: "of_nat (unat off div BLOCK_SIZE * BLOCK_SIZE) = base"
    unfolding base_def unat_block_base [symmetric] by simp
  have "unat (off div of_nat BLOCK_SIZE) = unat off div BLOCK_SIZE"
    by (simp only: unat_div unat_block_size)
  then have number_of: "of_nat (unat off div BLOCK_SIZE) = off div of_nat BLOCK_SIZE"
    by (metis of_nat_unat ucast_id)
  have live: "costs used (length (filter (within_volume ?vs) [a]) * fetch_cost BLOCK_SIZE) r
      (and_then (read_block_at ops a ?vs r) (\<lambda>res r. (Ok (snd res), r)))" for a r
    by (rule costs_then_pure [OF costs_read_block_at], rule costs_return)
  have mapped: "costs used (length (filter (within_volume ?vs) (a # map store_offset ds)) * fetch_cost BLOCK_SIZE) r
      (and_then (read_block_at ops a ?vs r) (\<lambda>res r. apply_overlays ops ?vs ds (snd res) r))" for ds a r
  proof -
    have "length (filter (within_volume ?vs) (a # map store_offset ds)) * fetch_cost BLOCK_SIZE =
        length (filter (within_volume ?vs) [a]) * fetch_cost BLOCK_SIZE +
        length (filter (within_volume ?vs) (map store_offset ds)) * fetch_cost BLOCK_SIZE"
      by simp
    then show ?thesis
      by (simp only:) (intro costs_then costs_read_block_at costs_apply_overlays)
  qed
  show ?thesis
    unfolding read_block_def block_fetches_def block_sources_def Let_def base_of number_of base_def [symmetric]
    using live mapped
    by (cases "block_map st base" rule: option.exhaust [case_product list.exhaust])
      (auto simp: costs_return simp del: filter.simps split: list.split)
qed

end

text \<open>The blocks that the \<open>n\<close> bytes at \<open>off\<close> lie in, in order.\<close>

definition blocks_touched :: "nat \<Rightarrow> nat \<Rightarrow> nat list" where
  "blocks_touched off n =
     (if n = 0 then [] else [off div BLOCK_SIZE..<Suc ((off + n - 1) div BLOCK_SIZE)])"

lemma blocks_touched_step:
  assumes "0 < n" and "m = min (BLOCK_SIZE - off mod BLOCK_SIZE) n"
  shows "blocks_touched off n = off div BLOCK_SIZE # blocks_touched (off + m) (n - m)"
proof -
  define q where "q = off div BLOCK_SIZE"
  define w where "w = off mod BLOCK_SIZE"
  have off: "off = q * BLOCK_SIZE + w" and w: "w < BLOCK_SIZE"
    by (simp_all add: q_def w_def vss_consts)
  show ?thesis
  proof (cases "n \<le> BLOCK_SIZE - w")
    case True
    then have "(off + n - 1) div BLOCK_SIZE = q"
      using assms(1) w by (intro div_nat_eqI) (simp_all add: off mult.commute)
    with True assms show ?thesis
      by (simp add: blocks_touched_def flip: q_def w_def)
  next
    case False
    then have m: "m = BLOCK_SIZE - w" and n: "m < n" using assms(2) by (simp_all add: w_def)
    have next_block: "off + m = Suc q * BLOCK_SIZE" using w by (simp add: off m)
    then have "Suc q * BLOCK_SIZE \<le> off + n - 1" using n by linarith
    then have "Suc q \<le> (off + n - 1) div BLOCK_SIZE"
      using w by (simp add: less_eq_div_iff_mult_less_eq)
    moreover have "(off + m) div BLOCK_SIZE = Suc q"
      using w unfolding next_block by (intro nonzero_mult_div_cancel_right) simp
    moreover have "off + m + (n - m) - 1 = off + n - 1" using n by simp
    ultimately show ?thesis
      using n assms(1) by (simp add: blocks_touched_def upt_conv_Cons flip: q_def)
  qed
qed

text \<open>The cursor saturates at the last position, in the last block: from there on each turn fetches
  that block for a single byte.\<close>

definition LAST_BLOCK :: nat where
  "LAST_BLOCK = 2 ^ 50 - 1"

definition blocks_fetched :: "nat \<Rightarrow> nat \<Rightarrow> nat list" where
  "blocks_fetched off n =
     (if off + n \<le> 2 ^ 64 then blocks_touched off n
      else blocks_touched off (2 ^ 64 - off) @ replicate (off + n - 2 ^ 64) LAST_BLOCK)"

lemma blocks_touched_one [simp]:
  "blocks_touched off (Suc 0) = [off div BLOCK_SIZE]" "blocks_touched off 0 = []"
  by (simp_all add: blocks_touched_def)

lemma last_block: "(2 ^ 64 - 1) div BLOCK_SIZE = LAST_BLOCK"
  by (simp add: LAST_BLOCK_def vss_consts)

lemma blocks_fetched_last: "blocks_fetched (2 ^ 64 - 1) k = replicate k LAST_BLOCK"
proof (cases k)
  case (Suc n)
  have "2 ^ 64 - (2 ^ 64 - 1 :: nat) = Suc 0" "2 ^ 64 - 1 + Suc n - 2 ^ 64 = n" by simp_all
  then show ?thesis
    using last_block Suc by (cases n) (simp_all add: blocks_fetched_def)
qed (simp add: blocks_fetched_def)

lemma blocks_fetched_step:
  assumes "0 < n" and off: "off < 2 ^ 64" and m: "m = min (BLOCK_SIZE - off mod BLOCK_SIZE) n"
  shows "blocks_fetched off n = off div BLOCK_SIZE # blocks_fetched (clip (off + m)) (n - m)"
proof -
  have "unat (of_nat off :: u64) = off" using off by (simp add: unat_of_nat)
  then have "off div BLOCK_SIZE * BLOCK_SIZE + BLOCK_SIZE \<le> 2 ^ 64"
    using block_end [of "of_nat off"] by metis
  moreover have "off div BLOCK_SIZE * BLOCK_SIZE + off mod BLOCK_SIZE = off"
    by (rule div_mult_mod_eq)
  moreover have "off mod BLOCK_SIZE < BLOCK_SIZE" by (simp add: vss_consts)
  ultimately have room: "off + (BLOCK_SIZE - off mod BLOCK_SIZE) \<le> 2 ^ 64" by linarith
  then have le: "off + m \<le> 2 ^ 64" "m \<le> n" using m by simp_all
  show ?thesis
  proof (cases "off + n \<le> 2 ^ 64")
    case True
    with blocks_touched_step [OF assms(1) m] le show ?thesis
      by (cases "off + m = 2 ^ 64") (auto simp: blocks_fetched_def clip_def)
  next
    case False
    with m room have eq: "m = BLOCK_SIZE - off mod BLOCK_SIZE" by linarith
    then have "m = min (BLOCK_SIZE - off mod BLOCK_SIZE) (2 ^ 64 - off)" using room by linarith
    from blocks_touched_step [OF _ this] off
    have turn: "blocks_touched off (2 ^ 64 - off) =
        off div BLOCK_SIZE # blocks_touched (off + m) (2 ^ 64 - off - m)" by simp
    show ?thesis
    proof (cases "off + m = 2 ^ 64")
      case at_end: True
      then have last: "clip (off + m) = 2 ^ 64 - 1" by (simp add: clip_def)
      have "blocks_touched off (2 ^ 64 - off) = [off div BLOCK_SIZE]" using turn at_end by simp
      moreover have "off + n - 2 ^ 64 = n - m" using at_end le by linarith
      ultimately have "blocks_fetched off n = off div BLOCK_SIZE # replicate (n - m) LAST_BLOCK"
        using False unfolding blocks_fetched_def by simp
      then show ?thesis unfolding last blocks_fetched_last .
    next
      case before: False
      with le have "clip (off + m) = off + m" by (simp add: clip_def)
      with False turn le show ?thesis by (simp add: blocks_fetched_def)
    qed
  qed
qed

lemma read_at_loop_done: "\<not> written < length buf \<Longrightarrow> read_at_loop ops st written cursor buf r = (Ok (), (buf, r))"
  by (subst read_at_loop.simps) simp

context metered
begin

text \<open>Each turn of the loop reads one block, and starts the next one where it ends.\<close>

lemma costs_read_at_loop:
  "costs (\<lambda>s. used (snd s))
      ((\<Sum>k\<leftarrow>blocks_fetched (unat cursor) (length buf - written). length (block_fetches st k)) *
       fetch_cost BLOCK_SIZE)
      (buf, r) (read_at_loop ops st written cursor buf r)"
proof (induction "length buf - written" arbitrary: written cursor buf r rule: less_induct)
  case less
  let ?n = "\<lambda>ks. (\<Sum>k\<leftarrow>ks. length (block_fetches st k)) * fetch_cost BLOCK_SIZE"
  show ?case
  proof (cases "written < length buf")
    case False
    then show ?thesis by (subst read_at_loop.simps) (simp add: costs_return)
  next
    case True
    define m where "m = min (BLOCK_SIZE - unat cursor mod BLOCK_SIZE) (length buf - written)"
    have m: "0 < m" "m \<le> length buf - written" "m < 2 ^ 64"
      using True by (auto simp: m_def vss_consts)
    let ?base = "saturating_mul (cursor div of_nat BLOCK_SIZE) (of_nat BLOCK_SIZE)"
    have "unat ?base div BLOCK_SIZE = unat cursor div BLOCK_SIZE"
      unfolding unat_block_base by (simp add: vss_consts)
    with costs_beside [OF costs_read_block [of st ?base r], of buf]
    have block: "costs (\<lambda>s. used (snd s)) (?n [unat cursor div BLOCK_SIZE]) (buf, r)
        (apsnd (Pair buf) (read_block ops st ?base r))"
      by simp
    have rest: "costs (\<lambda>s. used (snd s))
        (?n (blocks_fetched (clip (unat cursor + m)) (length buf - written - m)))
        s (read_at_loop ops st (written + m) (saturating_add cursor (of_nat m)) buf' (snd s))"
      if len: "length buf' = length buf" for buf' s
    proof (cases "length buf - written - m = 0")
      case True
      then have "\<not> written + m < length buf'" using len by simp
      then show ?thesis by (simp add: read_at_loop_done costs_def)
    next
      case False
      have cur: "unat (saturating_add cursor (of_nat m)) = clip (unat cursor + m)"
        using m by (simp add: unat_saturating_add unat_of_nat clip_def)
      have left: "length buf' - (written + m) = length buf - written - m" using len by simp
      have "length buf - written - m < length buf - written" using m(1) True by simp
      then show ?thesis
        using less.hyps [of buf' "written + m" "saturating_add cursor (of_nat m)" "snd s"]
        unfolding cur left by (simp only: costs_def snd_conv)
    qed
    have turn: "?n (blocks_fetched (unat cursor) (length buf - written)) =
        ?n [unat cursor div BLOCK_SIZE] +
        ?n (blocks_fetched (clip (unat cursor + m)) (length buf - written - m))"
      using blocks_fetched_step [OF _ _ m_def] True by (simp add: add_mult_distrib)
    show ?thesis
      unfolding turn
      by (subst read_at_loop.simps, unfold Let_def, intro cost_rules costs_then [OF block])
        (use True rest in \<open>auto simp: usize_sub_Some usize_add_Some unat_within as_usize_def
          copy_into_length simp flip: m_def\<close>)
  qed
qed

end

end
