(* ===== verification/Vss_Cost_Props.thy ===== *)
theory Vss_Cost_Props
  imports Vss_Cost
begin

text \<open>
  The work of the library, counted in reader operations and in bytes asked for: opening a volume,
  the information of a store and the state of a snapshot have fixed bounds, and reading a range
  has a bound block by block, in the store blocks that make up each. They hold over every reader, so no volume can make these
  operations run on, nor make them ask for a buffer that the reader does not fill.
\<close>

section \<open>Counting\<close>

type_synonym 'r counter = "'r \<times> nat \<times> nat"

definition count_step ::
    "nat \<Rightarrow> ('r \<Rightarrow> (io_error + 'a) \<times> 'r) \<Rightarrow> 'r counter \<Rightarrow> (io_error + 'a) \<times> 'r counter" where
  "count_step n f c = (case c of (r, k, b) \<Rightarrow> (case f r of (x, r') \<Rightarrow> (x, (r', k + 1, b + n))))"

definition counted :: "'r read_seek_ops \<Rightarrow> 'r counter read_seek_ops" where
  "counted ops =
     \<lparr>seek_end = count_step 0 (seek_end ops),
      seek_start = (\<lambda>p. count_step 0 (seek_start ops p)),
      read_exact = (\<lambda>n. count_step n (read_exact ops n))\<rparr>"

definition operations :: "'r counter \<Rightarrow> nat" where
  "operations c = fst (snd c)"

definition asked :: "'r counter \<Rightarrow> nat" where
  "asked c = snd (snd c)"

definition fresh :: "'r \<Rightarrow> 'r counter" where
  "fresh r = (r, 0, 0)"

lemma fresh_sel [simp]: "fst (fresh r) = r" "operations (fresh r) = 0" "asked (fresh r) = 0"
  by (simp_all add: fresh_def operations_def asked_def)

interpretation op_meter: metered "counted ops" operations 1 "\<lambda>_. 1" for ops
  by unfold_locales
    (auto simp: costs_def counted_def count_step_def operations_def split: prod.split)

interpretation byte_meter: metered "counted ops" asked 0 "\<lambda>n. n" for ops
  by unfold_locales
    (auto simp: costs_def counted_def count_step_def asked_def split: prod.split)

text \<open>Counting changes no result.\<close>

lemma count_follows:
  "follows fst (\<lambda>_. True) (\<lambda>_ _. False) (lift_io (count_step n f c)) (lift_io (f (fst c)))"
  by (cases c; cases "f (fst c)"; cases "fst (f (fst c))") (auto simp: follows_def count_step_def)

interpretation uncount: reader_simulation "counted ops" ops fst "\<lambda>_. True" "\<lambda>_ _. False" for ops
  by unfold_locales (simp_all add: counted_def count_follows)

lemma open_uncounted:
  "map_outcome id (view_volume fst) (fst (open_volume_run (counted ops) c)) = open_volume ops (fst c)"
proof -
  have "fst (open_steps (counted ops) c) = fst (open_steps ops (fst c))"
    by (rule follows_faultless(1) [OF uncount.follows_open_steps]) simp_all
  moreover have "fst (snd (open_steps (counted ops) c)) = snd (open_steps ops (fst c))"
    by (rule follows_faultless(2) [OF uncount.follows_open_steps]) simp_all
  ultimately show ?thesis
    by (cases "open_steps ops (fst c)"; cases "fst (open_steps ops (fst c))";
        cases "open_steps (counted ops) c")
      (auto simp: open_volume_def open_volume_run_steps view_volume_def split: prod.split)
qed

section \<open>The bounds\<close>

text \<open>C20: opening a volume ends over every reader, hostile or failing, after at most 8195 reader
  operations (one seek to the end, two for the header, two for each of at most 4096 catalog
  blocks) that ask for at most 128 bytes and 64 MiB; and counting them changes no result.\<close>
theorem open_work_bounded:
  "operations (snd (open_volume_run (counted ops) (fresh r))) \<le> 8195 \<and>
   asked (snd (open_volume_run (counted ops) (fresh r))) \<le> 128 + 64 * 2 ^ 20 \<and>
   map_outcome id (view_volume fst) (fst (open_volume_run (counted ops) (fresh r))) = open_volume ops r"
  using op_meter.costs_open [of "fresh r" ops] byte_meter.costs_open [of "fresh r" ops]
    open_uncounted [of ops "fresh r"]
  by (simp add: costs_def vss_consts)

text \<open>C21: reading the information of a store takes at most three reader operations and asks for at
  most 128 bytes and 1 MiB, whatever size its header claims; building the state of a snapshot
  takes at most \<open>2\<^sup>2\<^sup>2\<close> operations, two for each of at most \<open>2\<^sup>2\<^sup>0\<close> blocks of each chain, and asks for
  at most 32 GiB; over every reader, and with the same results as uncounted.\<close>
theorem store_work_bounded:
  "operations (reader (snd (store_info (counted ops) i (view_volume fresh vol)))) \<le> 3 \<and>
   asked (reader (snd (store_info (counted ops) i (view_volume fresh vol)))) \<le> 128 + 2 ^ 20 \<and>
   fst (store_info (counted ops) i (view_volume fresh vol)) = fst (store_info ops i vol) \<and>
   operations (reader (snd (snapshot_state (counted ops) i (view_volume fresh vol)))) \<le> 2 ^ 22 \<and>
   asked (reader (snd (snapshot_state (counted ops) i (view_volume fresh vol)))) \<le> 2 ^ 35 \<and>
   fst (snapshot_state (counted ops) i (view_volume fresh vol)) = fst (snapshot_state ops i vol)"
proof (intro conjI)
  let ?vol = "view_volume fresh vol"
  have vol: "view_volume fst ?vol = vol" by (simp add: view_volume_def)
  show "operations (reader (snd (store_info (counted ops) i ?vol))) \<le> 3"
    using op_meter.costs_store_info [of ?vol ops i] by (simp add: costs_def)
  show "asked (reader (snd (store_info (counted ops) i ?vol))) \<le> 128 + 2 ^ 20"
    using byte_meter.costs_store_info [of ?vol ops i] by (simp add: costs_def vss_consts)
  show "operations (reader (snd (snapshot_state (counted ops) i ?vol))) \<le> 2 ^ 22"
    using op_meter.costs_snapshot_state [of ?vol ops i] by (simp add: costs_def vss_consts MAX_STORE_BLOCKS_def)
  show "asked (reader (snd (snapshot_state (counted ops) i ?vol))) \<le> 2 ^ 35"
    using byte_meter.costs_snapshot_state [of ?vol ops i] by (simp add: costs_def vss_consts MAX_STORE_BLOCKS_def)
  show "fst (store_info (counted ops) i ?vol) = fst (store_info ops i vol)"
    by (rule trans [OF follows_faultless(1) [OF uncount.follows_store_info]]) (simp_all add: vol)
  show "fst (snapshot_state (counted ops) i ?vol) = fst (snapshot_state ops i vol)"
    by (rule trans [OF follows_faultless(1) [OF uncount.follows_snapshot_state]]) (simp_all add: vol)
qed

text \<open>A block-map entry has at most as many descriptors as the diff-area blocks can hold.\<close>

definition described :: "u64 \<Rightarrow> (u64 \<rightharpoonup> BlockDescriptor list) \<Rightarrow> nat" where
  "described base m = (case m base of None \<Rightarrow> 0 | Some ds \<Rightarrow> length ds)"

lemma described_push: "described base (push_descriptor d m) \<le> described base m + 1"
  by (simp add: described_def push_descriptor_def split: option.split)

lemma described_fold: "described base (fold push_descriptor ds m) \<le> described base m + length ds"
proof (induction ds arbitrary: m)
  case (Cons d ds)
  from Cons.IH [of "push_descriptor d m"] described_push [of base d m] show ?case by simp
qed simp

lemma length_block_descriptors: "length (block_descriptors b) \<le> 508"
  using length_takeWhile_le [of "\<lambda>x. \<not> zero_record x" "map (record_at b) [0..<records_per_block]"]
  by (simp add: block_descriptors_def records_per_block_val)

lemma build_block_map_described:
  assumes "read_seek ops" and "build_block_map ops first vs r = (Ok m, r')"
  shows "described base m \<le> 508 * MAX_STORE_BLOCKS"
proof -
  have "described base (fold push_descriptor (block_descriptors b) m) \<le> described base m + 508" for b m
    using described_fold [of base "block_descriptors b" m] length_block_descriptors [of b] by linarith
  from diff.walk_measure [OF assms(1) this assms(2) [unfolded build_block_map_def]]
  show ?thesis by (simp add: described_def)
qed

lemma block_sources_described: "length (block_sources st k) \<le> 1 + described (of_nat (k * BLOCK_SIZE)) (block_map st)"
  by (auto simp: block_sources_def described_def Let_def le_SucI length_filter_le
      split: option.split list.split)

text \<open>On every reader, a snapshot that \<open>snapshot_state\<close> builds has for each block at most
  \<open>508 * 2\<^sup>2\<^sup>0\<close> patches, what the blocks of its diff-area chain can hold; so together with the bound
  of \<open>read_at\<close> the work of a read is bounded by its length alone.\<close>

theorem snapshot_fetches_bounded:
  assumes "read_seek ops" and "snapshot_state ops i vol = (Ok st, vol')"
  shows "length (block_fetches st k) \<le> 1 + 508 * 2 ^ 20"
proof -
  obtain first vs r m r' where "build_block_map ops first vs r = (Ok m, r')" and "block_map st = m"
    using assms(2) by (auto simp: snapshot_state_def with_reader_def Let_def and_then_def
        split: option.splits prod.splits outcome.splits)
  with build_block_map_described [OF assms(1), of first vs r m r' "of_nat (k * BLOCK_SIZE)"]
    block_sources_described [of st k]
  have "length (block_sources st k) \<le> 1 + 508 * 2 ^ 20" by (simp add: MAX_STORE_BLOCKS_def)
  then show ?thesis
    unfolding block_fetches_def by (rule order_trans [OF length_filter_le])
qed

text \<open>C22: reading a range of a snapshot fetches, for each block the range touches, at most the store
  blocks that make up that block and lie within the volume: its base and its own patches, or the
  live block, or nothing if it is unallocated; each in two reader operations and 16 KiB; over
  every reader, and with the same result as uncounted. Past the last position of a \<open>u64\<close> the
  cursor stands still and each byte fetches the last block again, so the read ends for every
  range.\<close>
theorem read_at_work_bounded:
  "let (res, (buf', c)) = read_at (counted ops) st off buf (fresh r);
       fetched = (\<Sum>k\<leftarrow>blocks_fetched (unat off) (length buf). length (block_fetches st k))
   in operations c \<le> 2 * fetched \<and> asked c \<le> 16384 * fetched \<and>
      res = fst (read_at ops st off buf r) \<and> buf' = fst (snd (read_at ops st off buf r))"
proof -
  let ?p = "read_at (counted ops) st off buf (fresh r)"
  let ?n = "\<Sum>k\<leftarrow>blocks_fetched (unat off) (length buf). length (block_fetches st k)"
  have ops: "operations (snd (snd ?p)) \<le> 2 * ?n"
    using op_meter.costs_read_at_loop [where cursor = off and buf = buf and written = 0 and st = st and
      r = "fresh r" and ops = ops]
    by (simp add: costs_def read_at_def mult.commute)
  have bytes: "asked (snd (snd ?p)) \<le> 16384 * ?n"
    using byte_meter.costs_read_at_loop [where cursor = off and buf = buf and written = 0 and st = st and
      r = "fresh r" and ops = ops]
    by (simp add: costs_def read_at_def vss_consts mult.commute)
  have "follows (apsnd fst) (\<lambda>_. True) (\<lambda>_ _. False) ?p (read_at ops st off buf (fst (fresh r)))"
    unfolding read_at_def by (rule uncount.follows_read_at_loop) simp
  from follows_faultless [OF this] have "fst ?p = fst (read_at ops st off buf r)"
    and "fst (snd ?p) = fst (snd (read_at ops st off buf r))"
    by (simp_all add: prod_eq_iff)
  with ops bytes show ?thesis by (simp add: split_def Let_def)
qed

text \<open>A snapshot of two blocks: the first with two patches of one store block, the second live.\<close>

definition patch :: BlockDescriptor where
  "patch = \<lparr>original_offset = 0, relative_store_offset = 0, store_offset = 16384,
     flags = BlockDescriptorFlags 2, allocation_bitmap = 1\<rparr>"

definition patched_state :: SnapshotState where
  "patched_state = (empty_state 32768)\<lparr>block_map := [0 \<mapsto> [patch, patch]]\<rparr>"

lemma patch_sel: "is_patch patch" "\<not> is_plain patch" "store_offset patch = 16384"
  by (simp_all add: patch_def is_plain_def is_patch_def is_overlay_def is_forwarder_def
      is_not_used_def contains_def OVERLAY_def FORWARDER_def NOT_USED_def)

lemma patched_fetches:
  "length (block_fetches patched_state 0) = 3" "length (block_fetches patched_state (Suc 0)) = 1"
  by (simp_all add: block_fetches_def block_sources_def patched_state_def empty_state_def
      within_volume_def patch_sel is_unallocated_def vec_get_def vss_consts)

theorem read_at_work_bounded_witness:
  "let r = fresh (cursor_new (replicate 32768 0)) in
   operations (snd (snd (read_at (counted cursor_ops) patched_state 5 [0, 0] r))) \<le> 6 \<and>
   operations (snd (snd (read_at (counted cursor_ops) patched_state 16384 [0, 0] r))) \<le> 2 \<and>
   operations (snd (snd (read_at (counted cursor_ops) patched_state 16383 [0, 0] r))) \<le> 8"
  using read_at_work_bounded [of cursor_ops patched_state 5 "[0, 0]" "cursor_new (replicate 32768 0)"]
    read_at_work_bounded [of cursor_ops patched_state 16384 "[0, 0]" "cursor_new (replicate 32768 0)"]
    read_at_work_bounded [of cursor_ops patched_state 16383 "[0, 0]" "cursor_new (replicate 32768 0)"]
  by (simp add: blocks_fetched_def blocks_touched_def split_def Let_def patched_fetches vss_consts)

end
