(* ===== verification/Vss_Test_Images.thy ===== *)
theory Vss_Test_Images
  imports Vss_Copy_On_Write Vss_Source
begin

unbundle bit_operations_syntax

text \<open>
  The images the unit tests build (\<open>core/src/tests.rs\<close>), written as the tests write them: \<open>wr\<close>
  by \<open>wr\<close> into a zeroed buffer. \<open>slice_of\<close> reads a slice off the list of the writes, the last one
  first, so that the fields of an image of 256 KiB are found without building it. From them come
  the stores of the catalog (\<open>stores_written\<close>), for the images of all tests.
\<close>

section \<open>The helpers of the tests\<close>

definition wr :: "bytes \<Rightarrow> usize \<Rightarrow> bytes \<Rightarrow> bytes option" where
  "wr buf off data = do {
     e \<leftarrow> usize_add off (length data);
     copy_into buf off e data
   }"

fun wr_all :: "(usize \<times> bytes) list \<Rightarrow> bytes \<Rightarrow> bytes option" where
  "wr_all [] b = Some b"
| "wr_all ((off, data) # ws) b = do { b \<leftarrow> wr b off data; wr_all ws b }"

definition written :: "nat \<Rightarrow> (usize \<times> bytes) list \<Rightarrow> bytes" where
  "written n ws = foldr (\<lambda>(off, data) b. overwrite b off data) ws (replicate n 0)"

definition fits :: "nat \<Rightarrow> (usize \<times> bytes) list \<Rightarrow> bool" where
  "fits n ws \<longleftrightarrow> list_all (\<lambda>(off, data). off + length data \<le> n) ws"

lemma written_Nil [simp]: "written n [] = replicate n 0"
  by (simp add: written_def)

lemma written_Cons: "written n ((off, data) # ws) = overwrite (written n ws) off data"
  by (simp add: written_def)

lemma fits_simps [simp]:
  "fits n []" "fits n ((off, data) # ws) \<longleftrightarrow> off + length data \<le> n \<and> fits n ws"
  "fits n (ws @ vs) \<longleftrightarrow> fits n ws \<and> fits n vs"
  by (simp_all add: fits_def)

lemma length_written: "fits n ws \<Longrightarrow> length (written n ws) = n"
  by (induction ws) (auto simp: written_Cons overwrite_def)

lemma wr_written:
  assumes "fits n ws" and "off + length data \<le> n" and "n \<le> usize_max"
  shows "wr (written n ws) off data = Some (written n ((off, data) # ws))"
  using assms
  by (simp add: wr_def usize_add_def copy_into_def length_written written_Cons overwrite_def)

lemma wr_all_written:
  "fits n ws \<Longrightarrow> fits n vs \<Longrightarrow> n \<le> usize_max \<Longrightarrow>
   wr_all vs (written n ws) = Some (written n (rev vs @ ws))"
  by (induction vs arbitrary: ws) (auto simp: wr_written)

section \<open>Slices of a written image\<close>

fun slice_of :: "(usize \<times> bytes) list \<Rightarrow> nat \<Rightarrow> nat \<Rightarrow> bytes option" where
  "slice_of [] s n = Some (replicate n 0)"
| "slice_of ((off, data) # ws) s n =
     (if s + n \<le> off \<or> off + length data \<le> s then slice_of ws s n
      else if off \<le> s \<and> s + n \<le> off + length data then Some (subslice data (s - off) n)
      else None)"

lemma subslice_overwrite_other:
  assumes "off + length data \<le> length b" and "s + n \<le> off \<or> off + length data \<le> s"
  shows "subslice (overwrite b off data) s n = subslice b s n"
  using assms(2)
proof
  assume "s + n \<le> off"
  with assms(1) show ?thesis
    by (simp add: overwrite_def subslice_append_left) (simp add: subslice_def take_drop min_absorb1)
next
  assume "off + length data \<le> s"
  with assms(1) show ?thesis
    by (simp add: overwrite_def subslice_append_right) (simp add: subslice_def)
qed

lemma subslice_overwrite_inside:
  assumes "off + length data \<le> length b" and "off \<le> s" and "s + n \<le> off + length data"
  shows "subslice (overwrite b off data) s n = subslice data (s - off) n"
  using assms by (simp add: overwrite_def subslice_append_right subslice_append_left)

lemma subslice_written:
  "slice_of ws s n = Some x \<Longrightarrow> fits m ws \<Longrightarrow> s + n \<le> m \<Longrightarrow> subslice (written m ws) s n = x"
proof (induction ws)
  case (Cons w ws)
  obtain off data where w: "w = (off, data)" by (cases w)
  then have "off + length data \<le> length (written m ws)" using Cons.prems by (simp add: length_written)
  with Cons w show ?case
    by (auto simp: written_Cons subslice_overwrite_other subslice_overwrite_inside split: if_splits)
qed simp

lemma field_written:
  assumes "fits m ws" and "slice_of ws (s + i) n = Some x" and "i + n \<le> k" and "s + k \<le> m"
  shows "field (subslice (written m ws) s k) i n = x"
  using assms subslice_written [OF assms(2,1)]
  by (simp add: field_def subslice_subslice length_written)

lemma in_volume_written: "fits m ws \<Longrightarrow> in_volume (written m ws) off \<longleftrightarrow> unat off + 0x4000 \<le> m"
  by (simp add: in_volume_def length_written vss_consts)

lemma to_le_bytes_0: "to_le_bytes n (0 :: 'a::len word) = replicate n 0"
  unfolding to_le_bytes_def unat_0 by (induction n) simp_all

section \<open>The catalog of a written image\<close>

lemma chain_none: "\<not> a (block_at v off) \<Longrightarrow> chain a f v k {} off = []"
  by (cases k) auto

lemma chain_one:
  assumes "off \<noteq> 0" and "in_volume v off" and "a (block_at v off)" and "0 < k"
    and "f (block_at v off) = 0 \<or> f (block_at v off) = off \<or> \<not> in_volume v (f (block_at v off))"
  shows "chain a f v k {} off = [off]"
proof -
  have "chain a f v j {off} (f (block_at v off)) = []" for j
    using assms(5) by (cases j) auto
  with assms(1-4) show ?thesis by (cases k) auto
qed

text \<open>The writes put the entry \<open>x\<close> at \<open>e\<close>; entries follow each other, with zeros after the last one.\<close>

fun written_entry :: "(usize \<times> bytes) list \<Rightarrow> nat \<Rightarrow> CatalogEntry \<Rightarrow> bool" where
  "written_entry ws e (Snapshot d) \<longleftrightarrow>
     slice_of ws e 8 = Some (to_le_bytes 8 (2 :: u64)) \<and>
     slice_of ws (e + 8) 8 = Some (to_le_bytes 8 (volume_size d)) \<and> slice_of ws (e + 16) 16 = Some (store_id d) \<and>
     slice_of ws (e + 32) 8 = Some (to_le_bytes 8 (sequence d)) \<and>
     slice_of ws (e + 40) 8 = Some (to_le_bytes 8 (snapshot_flags d)) \<and>
     slice_of ws (e + 48) 8 = Some (to_le_bytes 8 (creation_time d)) \<and>
     store_header_offset d = None \<and> store_bitmap_offset d = None"
| "written_entry ws e (StorePointer sid h b) \<longleftrightarrow>
     slice_of ws e 8 = Some (to_le_bytes 8 (3 :: u64)) \<and> slice_of ws (e + 16) 16 = Some sid \<and>
     slice_of ws (e + 32) 8 = Some (to_le_bytes 8 h) \<and> slice_of ws (e + 48) 8 = Some (to_le_bytes 8 b)"
| "written_entry ws e Empty \<longleftrightarrow> slice_of ws e 128 = Some (replicate 128 0)"
| "written_entry ws e Other \<longleftrightarrow> False"

fun written_entries :: "(usize \<times> bytes) list \<Rightarrow> nat \<Rightarrow> CatalogEntry list \<Rightarrow> bool" where
  "written_entries ws e [] \<longleftrightarrow> slice_of ws e (0x8000 - e) = Some (replicate (0x8000 - e) 0)"
| "written_entries ws e (x # xs) \<longleftrightarrow> written_entry ws e x \<and> written_entries ws (e + 128) xs"

text \<open>All tests put the catalog in one block at \<open>0x4000\<close>; \<open>nx\<close> is its link.\<close>

definition test_catalog :: "nat \<Rightarrow> (usize \<times> bytes) list \<Rightarrow> u64 \<Rightarrow> CatalogEntry list \<Rightarrow> bool" where
  "test_catalog m ws nx es \<longleftrightarrow>
     fits m ws \<and> 0x8000 \<le> m \<and> slice_of ws 0x1E00 16 = Some VSS_IDENTIFIER \<and>
     slice_of ws 0x1E30 8 = Some (to_le_bytes 8 (0x4000 :: u64)) \<and>
     slice_of ws 0x4000 16 = Some VSS_IDENTIFIER \<and> slice_of ws 0x4014 4 = Some (to_le_bytes 4 (2 :: u32)) \<and>
     slice_of ws 0x4028 8 = Some (to_le_bytes 8 nx) \<and> length es \<le> 127 \<and> written_entries ws 0x4080 es"

lemma header_of_written:
  assumes "fits m ws" and "0x1E80 \<le> m" and "slice_of ws 0x1E00 16 = Some i"
    and "slice_of ws 0x1E30 8 = Some (to_le_bytes 8 (c :: u64))"
  shows "volume_has_header (written m ws) \<longleftrightarrow> i = VSS_IDENTIFIER"
    and "volume_catalog_offset (written m ws) = c"
  using field_written [OF assms(1), where s = "0x1E00" and i = 0 and n = 16 and k = 128]
    field_written [OF assms(1), where s = "0x1E00" and i = 48 and n = 8 and k = 128] assms(2-4)
  by (simp_all add: volume_has_header_def volume_catalog_offset_def header_of_def volume_header_of_def
      VolumeHeader_parse_fields field_of_le_bytes length_written [OF assms(1)])

lemma chain_written:
  assumes "test_catalog m ws nx es" and "nx = 0 \<or> nx = 0x4000 \<or> m < unat nx + 0x4000"
  shows "catalog_chain (written m ws) 0x4000 = [0x4000]"
proof -
  have fit: "fits m ws" and m: "0x8000 \<le> m" using assms(1) by (simp_all add: test_catalog_def)
  have field: "field (block_at (written m ws) 0x4000) i n = x"
    if "slice_of ws (0x4000 + i) n = Some x" "i + n \<le> 0x4000" for i n x
    using field_written [OF fit that] m by (simp add: block_at_def vss_consts)
  have "accept_catalog (block_at (written m ws) 0x4000)"
    using assms(1) field [where i = 0 and n = 16] field [where i = 20 and n = 4]
    by (simp add: accept_catalog_def test_catalog_def field_of_le_bytes vss_consts)
  moreover have "next_catalog (block_at (written m ws) 0x4000) = nx"
    using assms(1) field [where i = 40 and n = 8] by (simp add: next_catalog_def test_catalog_def field_of_le_bytes)
  ultimately show ?thesis
    unfolding catalog_chain_def using assms(2) m
    by (intro chain_one) (auto simp: in_volume_written [OF fit] vss_consts)
qed

lemma zero_entry: "catalog_entry_of (replicate 128 0) = Empty"
  by (simp add: catalog_entry_of_def parse_catalog_entry_fields field_def)

lemma slice_of_entry:
  assumes "i < 127"
  shows "subslice (block_at v 0x4000) (CATALOG_BLOCK_HEADER_LEN + i * CATALOG_ENTRY_LEN) CATALOG_ENTRY_LEN =
    subslice v (0x4080 + i * 128) 128"
  using assms by (simp add: block_at_def subslice_subslice vss_consts)

lemma entry_written:
  assumes "fits m ws" and "0x8000 \<le> m" and "i < 127" and "written_entry ws (0x4080 + i * 128) x"
  shows "entry_at (block_at (written m ws) 0x4000) i = x"
proof -
  have field: "field (subslice (written m ws) (0x4080 + i * 128) 128) j n = y"
    if "slice_of ws (0x4080 + i * 128 + j) n = Some y" "j + n \<le> 128" for j n y
    using field_written [OF assms(1) that] assms(2,3) by simp
  show ?thesis
  proof (cases "x = Empty")
    case True
    then have "subslice (written m ws) (0x4080 + i * 128) 128 = replicate 128 0"
      using assms by (intro subslice_written) simp_all
    with True show ?thesis by (simp add: entry_at_def slice_of_entry [OF assms(3)] zero_entry)
  next
    case False
    then show ?thesis
      using assms(4) field [where j = 0]
      by (cases x) (auto simp: entry_at_def slice_of_entry [OF assms(3)] catalog_entry_of_def
          parse_catalog_entry_fields field field_of_le_bytes Let_def)
  qed
qed

lemma entries_written:
  assumes "fits m ws" and "0x8000 \<le> m"
  shows "written_entries ws (0x4080 + k * 128) es \<Longrightarrow> k + length es \<le> 127 \<Longrightarrow>
    map (entry_at (block_at (written m ws) 0x4000)) [k..<127] = es @ replicate (127 - k - length es) Empty"
proof (induction es arbitrary: k)
  case Nil
  have "entry_at (block_at (written m ws) 0x4000) i = Empty" if i: "k \<le> i" "i < 127" for i
  proof -
    have "subslice (written m ws) (0x4080 + i * 128) 128 =
        subslice (subslice (written m ws) (0x4080 + k * 128) (0x3F80 - k * 128)) ((i - k) * 128) 128"
      using i by (simp add: subslice_subslice diff_mult_distrib)
    also have "\<dots> = replicate 128 0"
      using i assms(2) Nil.prems subslice_written [OF _ assms(1), of "0x4080 + k * 128" "0x3F80 - k * 128"]
      by (simp add: diff_mult_distrib)
    finally show ?thesis by (simp add: entry_at_def slice_of_entry [OF i(2)] zero_entry)
  qed
  then show ?case by (intro nth_equalityI) simp_all
next
  case (Cons x es)
  then have "k < 127" by simp
  moreover have "map (entry_at (block_at (written m ws) 0x4000)) [Suc k..<127] =
      es @ replicate (127 - Suc k - length es) Empty"
    using Cons by (simp add: add.assoc)
  ultimately show ?case
    using Cons.prems entry_written [OF assms, of k x] by (simp add: upt_conv_Cons)
qed

lemma apply_Empty: "(apply_entry Empty ^^ n) ds = ds"
  by (induction n) simp_all

lemma stores_written:
  assumes "test_catalog m ws nx es" and "nx = 0 \<or> nx = 0x4000 \<or> m < unat nx + 0x4000"
  shows "volume_has_header (written m ws)" and "volume_catalog_offset (written m ws) = 0x4000"
    and "volume_stores (written m ws) = apply_entries es []"
proof -
  have fit: "fits m ws" and m: "0x8000 \<le> m" and es: "length es \<le> 127" "written_entries ws 0x4080 es"
    using assms(1) by (simp_all add: test_catalog_def)
  show hd: "volume_has_header (written m ws)" "volume_catalog_offset (written m ws) = 0x4000"
    using assms(1) m header_of_written [OF fit, of VSS_IDENTIFIER "0x4000"] by (simp_all add: test_catalog_def)
  have "block_entries (block_at (written m ws) 0x4000) = es @ replicate (127 - length es) Empty"
    using entries_written [OF fit m, of 0 es] es by (simp add: block_entries_def entries_per_block_def vss_consts)
  then show "volume_stores (written m ws) = apply_entries es []"
    by (simp add: volume_stores_def hd catalog_stores_def catalog_entries_def chain_written [OF assms]
        apply_entries_def apply_Empty)
qed

section \<open>The image with every reconstruction path\<close>

named_theorems test_consts

definition STORE_ID :: bytes where
  "STORE_ID = [0x44, 0x33, 0x22, 0x11, 0x66, 0x55, 0x88, 0x77, 0x99, 0xaa, 0xbb, 0xcc, 0xdd, 0xee, 0xff, 0x00]"

definition RBS :: usize where "RBS = BLOCK_SIZE"
definition R_IMG_LEN :: usize where "R_IMG_LEN = 16 * RBS"
definition R_CATALOG :: u64 where "R_CATALOG = 0x4000"
definition R_STORE_HDR :: u64 where "R_STORE_HDR = 0x10000"
definition R_BITMAP1 :: u64 where "R_BITMAP1 = 0x18000"
definition R_BITMAP2 :: u64 where "R_BITMAP2 = 0x3C000"
definition R_STORE7 :: u64 where "R_STORE7 = 0x1C000"
definition R_STORE8 :: u64 where "R_STORE8 = 0x20000"
definition R_STORE9 :: u64 where "R_STORE9 = 0x24000"
definition R_BLK2 :: u64 where "R_BLK2 = 0x08000"
definition R_BLK3 :: u64 where "R_BLK3 = 0x0C000"
definition R_BLK10 :: u64 where "R_BLK10 = 0x28000"
definition R_BLK11 :: u64 where "R_BLK11 = 0x2C000"
definition R_BLK12 :: u64 where "R_BLK12 = 0x30000"
definition R_BLK13 :: u64 where "R_BLK13 = 0x34000"
definition R_BLK14 :: u64 where "R_BLK14 = 0x38000"
definition BAD_OFF :: u64 where "BAD_OFF = 0xFFFF0000"

lemmas image_consts [test_consts] = RBS_def R_IMG_LEN_def R_CATALOG_def R_STORE_HDR_def R_BITMAP1_def
  R_BITMAP2_def R_STORE7_def R_STORE8_def R_STORE9_def R_BLK2_def R_BLK3_def R_BLK10_def R_BLK11_def
  R_BLK12_def R_BLK13_def R_BLK14_def BAD_OFF_def BLOCK_SIZE_def OVERLAY_def NOT_USED_def as_usize_def

text \<open>The writes of \<open>store_block_hdr\<close>, \<open>desc\<close> and \<open>fill\<close>, and the functions.\<close>

definition hdr_writes :: "u64 \<Rightarrow> u32 \<Rightarrow> u64 \<Rightarrow> u64 \<Rightarrow> (usize \<times> bytes) list" where
  "hdr_writes off rt relative next =
     (let at = as_usize off in
      [(at, VSS_IDENTIFIER), (at + 16, to_le_bytes 4 (1 :: u32)), (at + 20, to_le_bytes 4 rt),
       (at + 24, to_le_bytes 8 relative), (at + 32, to_le_bytes 8 off), (at + 40, to_le_bytes 8 next)])"

definition store_block_hdr :: "bytes \<Rightarrow> u64 \<Rightarrow> u32 \<Rightarrow> u64 \<Rightarrow> u64 \<Rightarrow> bytes option" where
  "store_block_hdr b off rt relative next = wr_all (hdr_writes off rt relative next) b"

definition desc_writes :: "usize \<Rightarrow> u64 \<Rightarrow> u64 \<Rightarrow> u32 \<Rightarrow> u32 \<Rightarrow> (usize \<times> bytes) list" where
  "desc_writes off orig store_off fl alloc =
     [(off, to_le_bytes 8 orig), (off + 8, to_le_bytes 8 (0 :: u64)), (off + 16, to_le_bytes 8 store_off),
      (off + 24, to_le_bytes 4 fl), (off + 28, to_le_bytes 4 alloc)]"

definition desc :: "bytes \<Rightarrow> usize \<Rightarrow> u64 \<Rightarrow> u64 \<Rightarrow> u32 \<Rightarrow> u32 \<Rightarrow> bytes option" where
  "desc b off orig store_off fl alloc = wr_all (desc_writes off orig store_off fl alloc) b"

definition fill :: "bytes \<Rightarrow> u64 \<Rightarrow> u8 \<Rightarrow> bytes option" where
  "fill b off byte = wr b (as_usize off) (replicate RBS byte)"

definition build_reconstruct_image :: "bytes option" where
  "build_reconstruct_image =
     (let c = as_usize R_CATALOG; e0 = c + 128; e1 = e0 + 128;
          dl = R_STORE_HDR + of_nat RBS; d = as_usize dl + 128
      in do {
        b \<leftarrow> wr_all
          [(0x1E00, VSS_IDENTIFIER), (0x1E00 + 16, to_le_bytes 4 (1 :: u32)),
           (0x1E00 + 20, to_le_bytes 4 (1 :: u32)), (0x1E00 + 24, to_le_bytes 8 (0x1E00 :: u64)),
           (0x1E00 + 48, to_le_bytes 8 R_CATALOG)] (replicate R_IMG_LEN 0);
        b \<leftarrow> wr_all
          [(c, VSS_IDENTIFIER), (c + 16, to_le_bytes 4 (1 :: u32)), (c + 20, to_le_bytes 4 (2 :: u32)),
           (e0, to_le_bytes 8 (2 :: u64)), (e0 + 8, to_le_bytes 8 (of_nat R_IMG_LEN :: u64)),
           (e0 + 16, STORE_ID), (e1, to_le_bytes 8 (3 :: u64)), (e1 + 16, STORE_ID),
           (e1 + 32, to_le_bytes 8 R_STORE_HDR), (e1 + 48, to_le_bytes 8 R_BITMAP1)] b;
        b \<leftarrow> store_block_hdr b R_STORE_HDR 4 0 0;
        b \<leftarrow> store_block_hdr b dl 3 0 0;
        b \<leftarrow> desc b d R_BLK10 R_STORE7 0 0;
        b \<leftarrow> desc b (d + 32) R_BLK11 R_STORE8 0 0;
        b \<leftarrow> desc b (d + 64) R_BLK11 R_STORE9 OVERLAY 0b101;
        b \<leftarrow> desc b (d + 96) R_BLK12 R_STORE9 OVERLAY 0b001;
        b \<leftarrow> desc b (d + 128) R_BLK13 BAD_OFF 0 0;
        b \<leftarrow> desc b (d + 160) R_BLK14 R_STORE7 0 0;
        b \<leftarrow> desc b (d + 192) R_BLK14 BAD_OFF OVERLAY 0b001;
        b \<leftarrow> desc b (d + 224) R_BLK10 R_STORE9 NOT_USED 0xFFFFFFFF;
        b \<leftarrow> desc b (d + 256) R_BLK12 R_STORE8 (OVERLAY OR NOT_USED) 0xFFFFFFFF;
        b \<leftarrow> store_block_hdr b R_BITMAP1 6 0 R_BITMAP2;
        b \<leftarrow> wr b (as_usize R_BITMAP1 + 128) [0x08];
        b \<leftarrow> store_block_hdr b R_BITMAP2 6 (of_nat (RBS - 128)) 0;
        b \<leftarrow> fill b R_BLK2 0x22;
        b \<leftarrow> fill b R_BLK3 0x33;
        b \<leftarrow> fill b R_BLK12 0xCC;
        b \<leftarrow> fill b R_STORE7 0x77;
        b \<leftarrow> fill b R_STORE8 0x88;
        fill b R_STORE9 0x99
      })"

text \<open>The writes, from the last to the first, those of a descriptor taken together.\<close>

definition test_descriptor :: "u64 \<Rightarrow> u64 \<Rightarrow> u32 \<Rightarrow> u32 \<Rightarrow> BlockDescriptor" where
  "test_descriptor orig store fl alloc =
     \<lparr>original_offset = orig, relative_store_offset = 0, store_offset = store,
      flags = BlockDescriptorFlags fl, allocation_bitmap = alloc\<rparr>"

definition image_writes :: "(usize \<times> bytes) list" where
  "image_writes =
     [(0x24000, replicate 0x4000 0x99), (0x20000, replicate 0x4000 0x88), (0x1C000, replicate 0x4000 0x77),
      (0x30000, replicate 0x4000 0xCC), (0x0C000, replicate 0x4000 0x33), (0x08000, replicate 0x4000 0x22),
      (0x3C028, to_le_bytes 8 (0 :: u64)),
      (0x3C020, to_le_bytes 8 (0x3c000 :: u64)),
      (0x3C018, to_le_bytes 8 (16256 :: u64)),
      (0x3C014, to_le_bytes 4 (6 :: u32)),
      (0x3C010, to_le_bytes 4 (1 :: u32)),
      (0x3C000, VSS_IDENTIFIER),
      (0x18080, [0x08]),
      (0x18028, to_le_bytes 8 (0x3C000 :: u64)),
      (0x18020, to_le_bytes 8 (0x18000 :: u64)),
      (0x18018, to_le_bytes 8 (0 :: u64)),
      (0x18014, to_le_bytes 4 (6 :: u32)),
      (0x18010, to_le_bytes 4 (1 :: u32)),
      (0x18000, VSS_IDENTIFIER),
      (0x14180, encode_descriptor (test_descriptor 0x30000 0x20000 6 0xFFFFFFFF)),
      (0x14160, encode_descriptor (test_descriptor 0x28000 0x24000 4 0xFFFFFFFF)),
      (0x14140, encode_descriptor (test_descriptor 0x38000 0xFFFF0000 2 1)),
      (0x14120, encode_descriptor (test_descriptor 0x38000 0x1C000 0 0)),
      (0x14100, encode_descriptor (test_descriptor 0x34000 0xFFFF0000 0 0)),
      (0x140E0, encode_descriptor (test_descriptor 0x30000 0x24000 2 1)),
      (0x140C0, encode_descriptor (test_descriptor 0x2C000 0x24000 2 5)),
      (0x140A0, encode_descriptor (test_descriptor 0x2C000 0x20000 0 0)),
      (0x14080, encode_descriptor (test_descriptor 0x28000 0x1C000 0 0)),
      (0x14028, to_le_bytes 8 (0 :: u64)),
      (0x14020, to_le_bytes 8 (0x14000 :: u64)),
      (0x14018, to_le_bytes 8 (0 :: u64)),
      (0x14014, to_le_bytes 4 (3 :: u32)),
      (0x14010, to_le_bytes 4 (1 :: u32)),
      (0x14000, VSS_IDENTIFIER),
      (0x10028, to_le_bytes 8 (0 :: u64)),
      (0x10020, to_le_bytes 8 (0x10000 :: u64)),
      (0x10018, to_le_bytes 8 (0 :: u64)),
      (0x10014, to_le_bytes 4 (4 :: u32)),
      (0x10010, to_le_bytes 4 (1 :: u32)),
      (0x10000, VSS_IDENTIFIER),
      (0x4130, to_le_bytes 8 (0x18000 :: u64)), (0x4120, to_le_bytes 8 (0x10000 :: u64)),
      (0x4110, STORE_ID), (0x4100, to_le_bytes 8 (3 :: u64)), (0x4090, STORE_ID),
      (0x4088, to_le_bytes 8 (0x40000 :: u64)), (0x4080, to_le_bytes 8 (2 :: u64)),
      (0x4014, to_le_bytes 4 (2 :: u32)), (0x4010, to_le_bytes 4 (1 :: u32)), (0x4000, VSS_IDENTIFIER),
      (0x1E30, to_le_bytes 8 (0x4000 :: u64)), (0x1E18, to_le_bytes 8 (0x1E00 :: u64)),
      (0x1E14, to_le_bytes 4 (1 :: u32)), (0x1E10, to_le_bytes 4 (1 :: u32)), (0x1E00, VSS_IDENTIFIER)]"

definition image :: bytes where
  "image = written 0x40000 image_writes"

lemma length_STORE_ID [simp]: "length STORE_ID = 16"
  by (simp add: STORE_ID_def)

lemma fits_hdr [simp]: "fits n (hdr_writes off rt rel nx) \<longleftrightarrow> unat off + 48 \<le> n"
  "fits n (rev (hdr_writes off rt rel nx)) \<longleftrightarrow> unat off + 48 \<le> n"
  by (auto simp: hdr_writes_def as_usize_def Let_def)

lemma fits_image: "fits 0x40000 image_writes"
  by (simp add: image_writes_def)

lemma wr_step:
  "fits n ws \<Longrightarrow> off + length data \<le> n \<Longrightarrow> n \<le> usize_max \<Longrightarrow>
   wr (written n ws) off data = Some (written n ([(off, data)] @ ws))"
  by (simp add: wr_written)

lemma overwrite_next:
  "off + length a \<le> length b \<Longrightarrow> overwrite (overwrite b off a) (off + length a) c = overwrite b off (a @ c)"
  by (simp add: overwrite_def ac_simps)

lemma written_next:
  "fits n ws \<Longrightarrow> off + length a \<le> n \<Longrightarrow> off' = off + length a \<Longrightarrow>
   written n ((off', c) # (off, a) # ws) = written n ((off, a @ c) # ws)"
  by (simp add: written_Cons overwrite_next length_written)

lemma desc_step:
  assumes "fits n ws" and "off + 32 \<le> n" and "n \<le> usize_max"
  shows "desc (written n ws) off orig store fl alloc =
    Some (written n ([(off, encode_descriptor (test_descriptor orig store fl alloc))] @ ws))"
proof -
  have "desc (written n ws) off orig store fl alloc =
      Some (written n (rev (desc_writes off orig store fl alloc) @ ws))"
    unfolding desc_def using assms by (intro wr_all_written) (simp_all add: desc_writes_def)
  also have "written n (rev (desc_writes off orig store fl alloc) @ ws) =
      written n ([(off, encode_descriptor (test_descriptor orig store fl alloc))] @ ws)"
    using assms
    by (simp add: desc_writes_def written_next encode_descriptor_def test_descriptor_def)
  finally show ?thesis .
qed

lemma build_image: "build_reconstruct_image = Some image"
proof -
  have zeros: "replicate 0x40000 0 = written 0x40000 []" by simp
  have len: "(0x40000 :: nat) \<le> usize_max" by (simp add: usize_max_val)
  show ?thesis
    unfolding build_reconstruct_image_def store_block_hdr_def fill_def image_def Let_def
    by (simp add: test_consts zeros wr_all_written wr_step desc_step len del: written_Nil wr_all.simps)
      (simp add: image_writes_def hdr_writes_def as_usize_def)
qed

section \<open>What the image holds\<close>

text \<open>The tests change the image by further writes \<open>vs\<close>.\<close>

definition changed :: "(usize \<times> bytes) list \<Rightarrow> bytes" where
  "changed vs = written 0x40000 (vs @ image_writes)"

definition look :: "(usize \<times> bytes) list \<Rightarrow> nat \<Rightarrow> nat \<Rightarrow> bytes option" where
  "look vs = slice_of (vs @ image_writes)"

lemma image_changed: "image = changed []"
  by (simp add: image_def changed_def)

lemma length_changed: "fits 0x40000 vs \<Longrightarrow> length (changed vs) = 0x40000"
  by (simp add: changed_def length_written fits_image)

lemma look_changed:
  "fits 0x40000 vs \<Longrightarrow> look vs s n = Some x \<Longrightarrow> s + n \<le> 0x40000 \<Longrightarrow> subslice (changed vs) s n = x"
  unfolding look_def changed_def by (rule subslice_written) (simp_all add: fits_image)

lemma in_volume_changed: "fits 0x40000 vs \<Longrightarrow> in_volume (changed vs) off \<longleftrightarrow> unat off \<le> 0x3C000"
  by (auto simp: in_volume_def length_changed vss_consts)

lemma block_changed:
  assumes "fits 0x40000 vs" and "unat off \<le> 0x3C000" and "i + n \<le> 0x4000" and "look vs (unat off + i) n = Some x"
  shows "subslice (block_at (changed vs) off) i n = x" and "field (block_at (changed vs) off) i n = x"
proof -
  show "subslice (block_at (changed vs) off) i n = x"
    using assms look_changed [OF assms(1,4)] by (simp add: block_at_def subslice_subslice vss_consts)
  then show "field (block_at (changed vs) off) i n = x"
    using assms by (simp add: field_def in_volume_changed vss_consts)
qed

lemmas look_simps = look_def image_writes_def

text \<open>The tests on corrupt chains change the type and the link in the header of the descriptor list
  or of the first bitmap block, and nothing else.\<close>

definition header_change :: "(usize \<times> bytes) list \<Rightarrow> bool" where
  "header_change vs \<longleftrightarrow> list_all (\<lambda>(off, data).
     0x14014 \<le> off \<and> off + length data \<le> 0x14030 \<or> 0x18014 \<le> off \<and> off + length data \<le> 0x18030) vs"

lemma header_change_simps [simp]:
  "header_change []"
  "header_change ((off, data) # vs) \<longleftrightarrow> header_change vs \<and>
     (0x14014 \<le> off \<and> off + length data \<le> 0x14030 \<or> 0x18014 \<le> off \<and> off + length data \<le> 0x18030)"
  by (auto simp: header_change_def)

lemma header_change_fits: "header_change vs \<Longrightarrow> fits 0x40000 vs"
  by (induction vs) auto

lemma look_elsewhere:
  "header_change vs \<Longrightarrow>
   s + n \<le> 0x14014 \<or> 0x14030 \<le> s \<and> s + n \<le> 0x18014 \<or> 0x18030 \<le> s \<Longrightarrow> look vs s n = look [] s n"
  by (induction vs) (auto simp: look_def)

lemma look_near:
  "look ((off, data) # vs) s n =
     (if s + n \<le> off \<or> off + length data \<le> s then look vs s n
      else if off \<le> s \<and> s + n \<le> off + length data then Some (subslice data (s - off) n) else None)"
  by (simp add: look_def)

lemma slice_changed:
  assumes "header_change vs" and "look [] s n = Some x" and "s + n \<le> 0x40000"
    and "s + n \<le> 0x14014 \<or> 0x14030 \<le> s \<and> s + n \<le> 0x18014 \<or> 0x18030 \<le> s"
  shows "subslice (changed vs) s n = x"
  using look_changed [OF header_change_fits [OF assms(1)] _ assms(3)] look_elsewhere [OF assms(1,4)] assms(2)
  by simp

text \<open>The fields, found in the list of the writes.\<close>

lemma look_volume_header:
  "look [] 0x1E00 16 = Some VSS_IDENTIFIER" "look [] 0x1E30 8 = Some (to_le_bytes 8 (0x4000 :: u64))"
  by (simp_all add: look_simps)

lemma look_catalog:
  "look [] 0x4000 16 = Some VSS_IDENTIFIER" "look [] 0x4014 4 = Some (to_le_bytes 4 (2 :: u32))"
  "look [] 0x4028 8 = Some (replicate 8 0)"
  "look [] 0x4080 8 = Some (to_le_bytes 8 (2 :: u64))" "look [] 0x4088 8 = Some (to_le_bytes 8 (0x40000 :: u64))"
  "look [] 0x4090 16 = Some STORE_ID" "look [] 0x40A0 8 = Some (replicate 8 0)"
  "look [] 0x40A8 8 = Some (replicate 8 0)" "look [] 0x40B0 8 = Some (replicate 8 0)"
  "look [] 0x4100 8 = Some (to_le_bytes 8 (3 :: u64))" "look [] 0x4110 16 = Some STORE_ID"
  "look [] 0x4120 8 = Some (to_le_bytes 8 (0x10000 :: u64))"
  "look [] 0x4130 8 = Some (to_le_bytes 8 (0x18000 :: u64))"
  "look [] 0x4180 0x3E80 = Some (replicate 0x3E80 0)"
  by (simp_all add: look_simps)

lemma look_diff_header:
  "look [] 0x14014 4 = Some (to_le_bytes 4 (3 :: u32))" "look [] 0x14028 8 = Some (to_le_bytes 8 (0 :: u64))"
  by (simp_all add: look_simps)

lemma look_bitmap:
  "look [] 0x18014 4 = Some (to_le_bytes 4 (6 :: u32))" "look [] 0x18018 8 = Some (to_le_bytes 8 (0 :: u64))"
  "look [] 0x18028 8 = Some (to_le_bytes 8 (0x3C000 :: u64))"
  "look [] 0x18080 1 = Some [8]" "look [] 0x18081 0x3F7F = Some (replicate 0x3F7F 0)"
  "look [] 0x3C014 4 = Some (to_le_bytes 4 (6 :: u32))"
  "look [] 0x3C018 8 = Some (to_le_bytes 8 (16256 :: u64))"
  "look [] 0x3C028 8 = Some (to_le_bytes 8 (0 :: u64))"
  by (simp_all add: look_simps)

lemma look_fills:
  "look [] 0x08000 0x4000 = Some (replicate 0x4000 0x22)" "look [] 0x0C000 0x4000 = Some (replicate 0x4000 0x33)"
  "look [] 0x1C000 0x4000 = Some (replicate 0x4000 0x77)" "look [] 0x20000 0x4000 = Some (replicate 0x4000 0x88)"
  "look [] 0x24000 0x4000 = Some (replicate 0x4000 0x99)" "look [] 0x28000 0x4000 = Some (replicate 0x4000 0)"
  "look [] 0x2C000 0x4000 = Some (replicate 0x4000 0)" "look [] 0x30000 0x4000 = Some (replicate 0x4000 0xCC)"
  "look [] 0x34000 0x4000 = Some (replicate 0x4000 0)" "look [] 0x38000 0x4000 = Some (replicate 0x4000 0)"
  by (simp_all add: look_simps)

definition image_descriptors :: "BlockDescriptor list" where
  "image_descriptors =
     [test_descriptor 0x28000 0x1C000 0 0, test_descriptor 0x2C000 0x20000 0 0,
      test_descriptor 0x2C000 0x24000 2 5, test_descriptor 0x30000 0x24000 2 1,
      test_descriptor 0x34000 0xFFFF0000 0 0, test_descriptor 0x38000 0x1C000 0 0,
      test_descriptor 0x38000 0xFFFF0000 2 1, test_descriptor 0x28000 0x24000 4 0xFFFFFFFF,
      test_descriptor 0x30000 0x20000 6 0xFFFFFFFF]"

lemma all_below_9:
  "(\<forall>i < 9. P i) \<longleftrightarrow> P 0 \<and> P 1 \<and> P 2 \<and> P 3 \<and> P 4 \<and> P 5 \<and> P 6 \<and> P 7 \<and> P (8 :: nat)"
  by (auto simp: All_less_Suc numeral_nat)

lemma look_records:
  "\<forall>i < 9. look [] (0x14080 + i * 32) 32 = Some (encode_descriptor (image_descriptors ! i))"
  "look [] 0x141A0 32 = Some (replicate 32 0)"
  unfolding all_below_9 by (simp_all add: look_simps image_descriptors_def)

end
