(* ===== verification/Vss_Tests.thy ===== *)
theory Vss_Tests
  imports Vss_Test_Images
begin

unbundle bit_operations_syntax

text \<open>
  The unit tests of the reconstruction, replayed on the model: what opening the test image and
  building its snapshot gives, and what every block of it reads as, on the image as it is built
  and on the corrupt chains the tests make of it.
\<close>

section \<open>Opening\<close>

definition test_store :: StoreDescriptor where
  "test_store = \<lparr>store_id = STORE_ID, volume_size = 0x40000, sequence = 0, snapshot_flags = 0,
     creation_time = 0, store_header_offset = Some 0x10000, store_bitmap_offset = Some 0x18000\<rparr>"

lemma test_catalog_changed:
  assumes "header_change vs"
  shows "test_catalog 0x40000 (vs @ image_writes) 0 [Snapshot (core test_store), StorePointer STORE_ID 0x10000 0x18000]"
  using assms header_change_fits [OF assms]
  unfolding test_catalog_def look_def [symmetric]
  by (simp add: look_def [symmetric] fits_image look_elsewhere look_volume_header look_catalog core_def test_store_def
      to_le_bytes_0)

lemma stores_changed: "header_change vs \<Longrightarrow> volume_stores (changed vs) = [test_store]"
  using stores_written(3) [OF test_catalog_changed]
  by (simp add: changed_def apply_entries_def core_def test_store_def)

section \<open>The diff area and the bitmap\<close>

lemma store_header_changed:
  assumes "header_change vs" and "unat off \<le> 0x3C000"
    and "look vs (unat off + 20) 4 = Some (to_le_bytes 4 (rt :: u32))"
    and "look vs (unat off + 40) 8 = Some (to_le_bytes 8 (nx :: u64))"
  shows "sbh_record_type (store_header_of (block_at (changed vs) off)) = rt"
    and "next_store_block (block_at (changed vs) off) = nx"
  using block_changed(2) [OF header_change_fits [OF assms(1)] assms(2) _ assms(3)]
    block_changed(2) [OF header_change_fits [OF assms(1)] assms(2) _ assms(4)]
  by (simp_all add: next_store_block_def store_header_of_def StoreBlockHeader_parse_fields field_of_le_bytes)

lemma zero_record_descriptor: "zero_record (encode_descriptor d) \<Longrightarrow> original_offset d = 0"
proof -
  assume "zero_record (encode_descriptor d)"
  then have "to_le_bytes 8 (original_offset d) = replicate (length (to_le_bytes 8 (original_offset d))) 0"
    by (intro replicate_length_same [symmetric]) (simp add: zero_record_def encode_descriptor_def list_all_iff)
  then have "(from_le_bytes (to_le_bytes 8 (original_offset d)) :: u64) = from_le_bytes (replicate 8 0)" by simp
  then show ?thesis by (simp add: field_of_le_bytes)
qed

lemma block_descriptors_of:
  assumes "length ds < records_per_block"
    and "\<forall>i < length ds. record_at b i = encode_descriptor (ds ! i) \<and> original_offset (ds ! i) \<noteq> 0"
    and "zero_record (record_at b (length ds))"
  shows "block_descriptors b = ds"
proof -
  have "[0..<records_per_block] = [0..<length ds] @ length ds # [Suc (length ds)..<records_per_block]"
    using assms(1) upt_add_eq_append [of 0 "length ds" "records_per_block - length ds"] by (simp add: upt_conv_Cons)
  moreover have "map (record_at b) [0..<length ds] = map encode_descriptor ds"
    using assms(2) by (intro nth_equalityI) simp_all
  ultimately have "map (record_at b) [0..<records_per_block] =
      map encode_descriptor ds @ record_at b (length ds) # map (record_at b) [Suc (length ds)..<records_per_block]"
    by simp
  moreover have "\<not> zero_record x" if "x \<in> set (map encode_descriptor ds)" for x
    using that assms(2) zero_record_descriptor by (metis image_iff in_set_conv_nth list.set_map)
  then have "takeWhile (\<lambda>x. \<not> zero_record x) (map encode_descriptor ds @ x # xs) =
      map encode_descriptor ds @ takeWhile (\<lambda>x. \<not> zero_record x) (x # xs)" for x xs
    by (intro takeWhile_append2)
  ultimately have "block_descriptors b = map descriptor_of (map encode_descriptor ds)"
    using assms(3) by (simp add: block_descriptors_def)
  also have "\<dots> = ds"
    using descriptor.parse_encode_exact by (simp add: map_idI descriptor_of_def)
  finally show ?thesis .
qed

lemma length_image_descriptors: "length image_descriptors = 9"
  by (simp add: image_descriptors_def)

lemma image_descriptors_changed:
  assumes "header_change vs"
  shows "block_descriptors (block_at (changed vs) 0x14000) = image_descriptors"
proof (rule block_descriptors_of)
  have slice: "record_at (block_at (changed vs) 0x14000) i = subslice (changed vs) (0x14080 + i * 32) 32" if "i < 10" for i
    using that by (simp add: record_at_def block_at_def subslice_subslice vss_consts)
  have "record_at (block_at (changed vs) 0x14000) i = encode_descriptor (image_descriptors ! i)" if "i < 9" for i
    using that slice [of i] look_records(1) slice_changed [OF assms, where s = "0x14080 + i * 32" and n = 32] by simp
  moreover have "\<forall>i < 9. original_offset (image_descriptors ! i) \<noteq> 0"
    unfolding all_below_9 by (simp add: image_descriptors_def test_descriptor_def)
  ultimately show "\<forall>i < length image_descriptors.
      record_at (block_at (changed vs) 0x14000) i = encode_descriptor (image_descriptors ! i) \<and>
      original_offset (image_descriptors ! i) \<noteq> 0"
    unfolding length_image_descriptors by blast
  show "zero_record (record_at (block_at (changed vs) 0x14000) (length image_descriptors))"
    using slice [of 9] slice_changed [OF assms, where s = "0x141A0" and n = 32] look_records(2)
    unfolding length_image_descriptors by (simp add: zero_record_def list_all_iff)
qed (simp add: length_image_descriptors records_per_block_def vss_consts)

text \<open>The descriptor list of the image, with any type and link in its header.\<close>

lemma diff_descriptors_changed:
  assumes "header_change vs" and "look vs 0x14014 4 = Some (to_le_bytes 4 (rt :: u32))"
    and "look vs 0x14028 8 = Some (to_le_bytes 8 (nx :: u64))"
    and "nx = 0 \<or> nx = 0x14000 \<or> 0x3C000 < unat nx"
  shows "diff_descriptors (changed vs) 0x14000 = (if rt = 3 then image_descriptors else [])"
proof -
  let ?c = "chain accept_diff next_store_block (changed vs) MAX_STORE_BLOCKS {} 0x14000"
  note header = store_header_changed [OF assms(1), where off = "0x14000", OF _ _ _, simplified, OF assms(2,3)]
  note vol = in_volume_changed [OF header_change_fits [OF assms(1)]]
  have "?c = (if rt = 3 then [0x14000] else [])"
    using assms(4) by (auto simp: accept_diff_def header vol vss_consts intro!: chain_one chain_none)
  then show ?thesis by (simp add: diff_descriptors_def image_descriptors_changed [OF assms(1)])
qed

definition image_bits :: bytes where
  "image_bits = 8 # replicate 0x3F7F 0"

lemma subslice_add: "subslice b s (n + m) = subslice b s n @ subslice b (s + n) m"
  using take_add [of n m "drop s b"] by (simp add: subslice_def add.commute)

lemma first_piece:
  assumes "header_change vs" and "look vs 0x18018 8 = Some (to_le_bytes 8 (0 :: u64))"
  shows "bitmap_piece (block_at (changed vs) 0x18000) = (0, image_bits)"
proof -
  note fit = header_change_fits [OF assms(1)]
  have "subslice (block_at (changed vs) 0x18000) 128 16256 = subslice (changed vs) 0x18080 (1 + 0x3F7F)"
    by (simp add: block_at_def subslice_subslice vss_consts)
  also have "\<dots> = image_bits"
    using slice_changed [OF assms(1) look_bitmap(4)] slice_changed [OF assms(1) look_bitmap(5)]
    unfolding subslice_add by (simp add: image_bits_def)
  finally show ?thesis
    using block_changed(2) [OF fit, where off = "0x18000" and i = 24 and n = 8]
    by (simp add: bitmap_piece_def vss_consts store_header_of_def StoreBlockHeader_parse_fields
        assms(2) field_of_le_bytes)
qed

text \<open>The bitmap: the chain of two blocks, or the first one alone, or nothing.\<close>

lemma second_block:
  assumes "header_change vs"
  shows "accept_bitmap (block_at (changed vs) 0x3C000)" and "next_store_block (block_at (changed vs) 0x3C000) = 0"
    and "fst (bitmap_piece (block_at (changed vs) 0x3C000)) = 16256"
proof -
  note header = store_header_changed [OF assms, where off = "0x3C000" and rt = 6 and nx = 0]
  show "accept_bitmap (block_at (changed vs) 0x3C000)" and "next_store_block (block_at (changed vs) 0x3C000) = 0"
    using header by (simp_all add: accept_bitmap_def look_elsewhere [OF assms] look_bitmap vss_consts)
  show "fst (bitmap_piece (block_at (changed vs) 0x3C000)) = 16256"
    using block_changed(2) [OF header_change_fits [OF assms], where off = "0x3C000" and i = 24 and n = 8]
    by (simp add: bitmap_piece_def store_header_of_def StoreBlockHeader_parse_fields
        look_elsewhere [OF assms] look_bitmap field_of_le_bytes)
qed

lemma bitmap_changed:
  assumes "header_change vs" and "look vs 0x18014 4 = Some (to_le_bytes 4 (rt :: u32))"
    and "look vs 0x18018 8 = Some (to_le_bytes 8 (0 :: u64))" and "look vs 0x18028 8 = Some (to_le_bytes 8 (nx :: u64))"
    and "nx = 0x3C000 \<or> nx = 0x18000 \<or> 0x3C000 < unat nx"
  shows "\<exists>rest. store_bitmap (changed vs) 0x18000 = (if rt = 6 then image_bits @ rest else [])"
proof -
  let ?c = "chain accept_bitmap next_store_block (changed vs) MAX_STORE_BLOCKS {} 0x18000"
  note header = store_header_changed [OF assms(1), where off = "0x18000", OF _ _ _, simplified, OF assms(2,4)]
  note vol = in_volume_changed [OF header_change_fits [OF assms(1)]]
  note piece = first_piece [OF assms(1,3)]
  show ?thesis
  proof (cases "rt = 6 \<and> nx = 0x3C000")
    case True
    then have "linked accept_bitmap next_store_block (changed vs) [0x18000, 0x3C000] 0x18000"
      using second_block [OF assms(1)] by (simp add: accept_bitmap_def header vol vss_consts)
    then have "?c = [0x18000, 0x3C000]"
      by (rule chain_of_linked) (simp_all add: vss_consts)
    then show ?thesis
      using True piece second_block(3) [OF assms(1)]
      by (simp add: store_bitmap_def bitmap_pieces_def)
  next
    case False
    then have "?c = (if rt = 6 then [0x18000] else [])"
      using assms(5) by (auto simp: accept_bitmap_def header vol vss_consts intro!: chain_one chain_none)
    then show ?thesis using piece by (simp add: store_bitmap_def bitmap_pieces_def)
  qed
qed

section \<open>The tests\<close>

text \<open>\<open>VssVolume::open(..).unwrap()\<close>, \<open>vol.snapshot(0).unwrap()\<close>, \<open>snap.read_block(off)\<close>.\<close>

definition test_snapshot :: "bytes \<Rightarrow> (VssError, cursor Snapshot) outcome" where
  "test_snapshot img =
     (case open_volume cursor_ops (cursor_new img) of
        Ok vol \<Rightarrow> fst (snapshot cursor_ops 0 vol)
      | Err e \<Rightarrow> Panic
      | Panic \<Rightarrow> Panic)"

definition test_read_block :: "bytes \<Rightarrow> u64 \<Rightarrow> (VssError, bytes) outcome" where
  "test_read_block img off =
     (case test_snapshot img of
        Ok snap \<Rightarrow> fst (Snapshot_read_block cursor_ops off snap)
      | Err e \<Rightarrow> Panic
      | Panic \<Rightarrow> Panic)"

lemma test_snapshot_state:
  assumes "length v \<le> isize_max" and "volume_stores v = [d]"
    and "store_header_offset d = Some h" and "store_bitmap_offset d = Some b"
  shows "\<exists>r. test_snapshot v = Ok \<lparr>snapshot_reader = r, state = state_of v h b\<rparr> \<and>
    reads cursor_invar cursor_data v r"
proof -
  have r: "reads cursor_invar cursor_data v (cursor_new v)" using assms(1) by (simp add: cursor_reads)
  from open_volume_over [OF volume_reader_cursor r] obtain vol where
    vol: "open_volume cursor_ops (cursor_new v) = Ok vol" "stores vol = [d]"
      "reads cursor_invar cursor_data v (reader vol)" "total_size vol = of_nat (length v)"
    using assms(2) by auto
  from snapshot_state_over [OF volume_reader_cursor vol(3,4), of 0] obtain r' where
    "snapshot_state cursor_ops 0 vol = (Ok (state_of v h b), vol\<lparr>reader := r'\<rparr>)"
    "reads cursor_invar cursor_data v r'"
    unfolding vol(2) using assms(3,4) by (auto simp: snapshot_state_spec_def)
  with vol(1) show ?thesis by (simp add: test_snapshot_def snapshot_def)
qed

lemma test_read_block_result:
  assumes "length v \<le> isize_max" and "volume_stores v = [d]"
    and "store_header_offset d = Some h" and "store_bitmap_offset d = Some b"
  shows "test_read_block v off = Ok (snapshot_block v (state_of v h b) (unat off div BLOCK_SIZE))"
proof -
  from test_snapshot_state [OF assms] obtain r where
    s: "test_snapshot v = Ok \<lparr>snapshot_reader = r, state = state_of v h b\<rparr>"
    and r: "reads cursor_invar cursor_data v r" by blast
  have "gives (reads cursor_invar cursor_data v) (read_block cursor_ops (state_of v h b) off r)
      (Ok (snapshot_block v (state_of v h b) (unat off div BLOCK_SIZE)))"
    by (rule read_block_volume [OF volume_reader_cursor r]) (simp add: state_of_def)
  from gives_map_err [OF this, of Io] show ?thesis
    by (auto simp: test_read_block_def s Snapshot_read_block_def elim!: givesE)
qed

text \<open>A test on the image with the writes \<open>vs\<close>: the descriptors \<open>ds\<close> and the bitmap \<open>bm\<close> found.\<close>

lemma test_block:
  assumes "header_change vs"
    and "diff_descriptors (changed vs) 0x14000 = ds" and "store_bitmap (changed vs) 0x18000 = bm"
  shows "test_read_block (changed vs) off =
    Ok (snapshot_block (changed vs) \<lparr>snapshot_volume_size = 0x40000, block_map = group ds, bitmap = bm\<rparr>
      (unat off div 0x4000))"
proof -
  note len = length_changed [OF header_change_fits [OF assms(1)]]
  have "saturating_add 0x10000 (of_nat BLOCK_SIZE) = (0x14000 :: u64)"
    by (simp add: saturating_add_def vss_consts)
  then have "state_of (changed vs) 0x10000 0x18000 =
      \<lparr>snapshot_volume_size = 0x40000, block_map = group ds, bitmap = bm\<rparr>"
    using assms(2,3) by (simp add: state_of_def len)
  then show ?thesis
    using test_read_block_result [of "changed vs" test_store "0x10000" "0x18000" off] stores_changed [OF assms(1)]
    by (simp add: len test_store_def isize_max_val vss_consts)
qed

lemma block_of_image:
  assumes "header_change vs" and "look [] (unat off) 0x4000 = Some x" and "unat off \<le> 0x10000 \<or> 0x1C000 \<le> unat off"
    and "unat off \<le> 0x3C000"
  shows "block_or_zeros (changed vs) off = x" "block_at (changed vs) off = x"
  using slice_changed [OF assms(1,2)] assms(3,4)
  by (auto simp: block_or_zeros_def in_volume_changed [OF header_change_fits [OF assms(1)]] block_at_def vss_consts)

lemma bit_8: "is_unallocated \<lparr>snapshot_volume_size = n, block_map = m, bitmap = image_bits @ rest\<rparr> 3"
  "\<not> is_unallocated \<lparr>snapshot_volume_size = n, block_map = m, bitmap = image_bits @ rest\<rparr> 2"
  by (simp_all add: is_unallocated_def Let_def vec_get_def image_bits_def)

lemma no_bits: "\<not> is_unallocated \<lparr>snapshot_volume_size = n, block_map = m, bitmap = []\<rparr> b"
  by (simp add: is_unallocated_def Let_def vec_get_def)

lemma image_groups:
  "group image_descriptors 0x8000 = None" "group image_descriptors 0xC000 = None"
  "group image_descriptors 0x28000 =
     Some [test_descriptor 0x28000 0x1C000 0 0, test_descriptor 0x28000 0x24000 4 0xFFFFFFFF]"
  "group image_descriptors 0x2C000 =
     Some [test_descriptor 0x2C000 0x20000 0 0, test_descriptor 0x2C000 0x24000 2 5]"
  "group image_descriptors 0x30000 =
     Some [test_descriptor 0x30000 0x24000 2 1, test_descriptor 0x30000 0x20000 6 0xFFFFFFFF]"
  "group image_descriptors 0x34000 = Some [test_descriptor 0x34000 0xFFFF0000 0 0]"
  "group image_descriptors 0x38000 =
     Some [test_descriptor 0x38000 0x1C000 0 0, test_descriptor 0x38000 0xFFFF0000 2 1]"
  by (simp_all add: group_def image_descriptors_def test_descriptor_def)

lemma plain_and_patch:
  "is_plain (test_descriptor o' s 0 a)" "\<not> is_patch (test_descriptor o' s 0 a)"
  "\<not> is_plain (test_descriptor o' s 2 a)" "is_patch (test_descriptor o' s 2 a)"
  "\<not> is_plain (test_descriptor o' s 4 a)" "\<not> is_patch (test_descriptor o' s 4 a)"
  "\<not> is_plain (test_descriptor o' s 6 a)" "\<not> is_patch (test_descriptor o' s 6 a)"
  "store_offset (test_descriptor o' s f a) = s" "allocation_bitmap (test_descriptor o' s f a) = a"
  by (simp_all add: is_plain_def is_patch_def test_descriptor_def flag_bits)

text \<open>The tests compare with a block of one byte value in which sub-blocks have another.\<close>

lemma overlay_fill:
  "overlay_block (replicate 0x4000 x) (replicate 0x4000 y) bm =
     map (\<lambda>p. if bit bm (p div 512) then y else x) [0..<0x4000]"
  by (rule nth_equalityI) (simp_all add: overlay_block_def vss_consts)

lemma one_sub_block:
  "overlay_block (replicate 0x4000 x) (replicate 0x4000 y) 1 = replicate 512 y @ replicate (0x4000 - 512) x"
  unfolding overlay_fill
  by (rule nth_equalityI) (simp_all add: nth_append bit_1_iff div_eq_0_iff)

lemma two_sub_blocks:
  "overlay_block (replicate 0x4000 x) (replicate 0x4000 y) 5 =
     replicate 512 y @ replicate 512 x @ replicate 512 y @ replicate (0x4000 - 1536) x"
proof -
  have five: "(5 :: u32) = push_bit 2 1 OR 1" by simp
  have bits: "bit (5 :: u32) (i div 512) \<longleftrightarrow> i < 512 \<or> 1024 \<le> i \<and> i < 1536" for i
    unfolding five bit_or_iff bit_push_bit_iff bit_1_iff by auto
  show ?thesis
    unfolding overlay_fill bits
    by (rule nth_equalityI, simp, simp add: nth_append) arith
qed

text \<open>The image as it is built.\<close>

lemma image_state:
  "diff_descriptors image 0x14000 = image_descriptors" "\<exists>rest. store_bitmap image 0x18000 = image_bits @ rest"
  using diff_descriptors_changed [of "[]" 3 0] bitmap_changed [of "[]" 6 "0x3C000"]
  by (simp_all add: image_changed look_diff_header look_bitmap)

lemma image_blocks:
  assumes "header_change vs"
  shows "block_or_zeros (changed vs) 0x8000 = replicate 0x4000 0x22" "block_or_zeros (changed vs) 0xC000 = replicate 0x4000 0x33"
    "block_or_zeros (changed vs) 0x1C000 = replicate 0x4000 0x77" "block_or_zeros (changed vs) 0x20000 = replicate 0x4000 0x88"
    "block_or_zeros (changed vs) 0x28000 = replicate 0x4000 0" "block_or_zeros (changed vs) 0x30000 = replicate 0x4000 0xCC"
    "block_at (changed vs) 0x24000 = replicate 0x4000 0x99"
    "block_or_zeros (changed vs) 0xFFFF0000 = replicate 0x4000 0"
  using block_of_image [OF assms]
  by (simp_all add: look_fills) (simp add: block_or_zeros_def in_volume_changed [OF header_change_fits [OF assms]] vss_consts)

lemma tested_block:
  assumes "header_change vs"
    and "diff_descriptors (changed vs) 0x14000 = ds" and "store_bitmap (changed vs) 0x18000 = bm"
    and "unat off div 0x4000 = bn" and "base = of_nat (bn * BLOCK_SIZE)"
  shows "test_read_block (changed vs) off =
    Ok (case group ds base of
          Some es \<Rightarrow> fold (patch (changed vs)) (filter is_patch es)
            (block_or_zeros (changed vs) (base_source es base))
        | None \<Rightarrow>
            if is_unallocated \<lparr>snapshot_volume_size = 0x40000, block_map = group ds, bitmap = bm\<rparr> (of_nat bn)
            then replicate BLOCK_SIZE 0 else block_or_zeros (changed vs) base)"
proof -
  have "group ds k \<noteq> Some []" for k by (auto simp: group_def split: list.split)
  then show ?thesis
    unfolding test_block [OF assms(1-3)] assms(4) snapshot_block_cases [OF assms(5)]
    by (auto split: option.split)
qed

lemma patch_changed:
  assumes "header_change vs"
  shows "patch (changed vs) (test_descriptor o' 0x24000 f a) out = overlay_block out (replicate 0x4000 0x99) a"
    and "patch (changed vs) (test_descriptor o' 0xFFFF0000 f a) out = out"
  using image_blocks(7) [OF assms]
  by (simp_all add: patch_def plain_and_patch in_volume_changed [OF header_change_fits [OF assms]])

lemma test_offsets:
  "unat R_BLK10 div 0x4000 = 10" "0x28000 = (of_nat (10 * BLOCK_SIZE) :: u64)"
  "unat R_BLK11 div 0x4000 = 11" "0x2C000 = (of_nat (11 * BLOCK_SIZE) :: u64)"
  "unat R_BLK12 div 0x4000 = 12" "0x30000 = (of_nat (12 * BLOCK_SIZE) :: u64)"
  "unat R_BLK13 div 0x4000 = 13" "0x34000 = (of_nat (13 * BLOCK_SIZE) :: u64)"
  "unat R_BLK14 div 0x4000 = 14" "0x38000 = (of_nat (14 * BLOCK_SIZE) :: u64)"
  "unat R_BLK2 div 0x4000 = 2" "0x8000 = (of_nat (2 * BLOCK_SIZE) :: u64)"
  "unat R_BLK3 div 0x4000 = 3" "0xC000 = (of_nat (3 * BLOCK_SIZE) :: u64)"
  "unat (R_BLK2 + 777) div 0x4000 = 2"
  by (simp_all add: test_consts)

text \<open>Each block the tests read, on every image whose descriptor list is found.\<close>

lemma descriptor_blocks:
  assumes vs: "header_change vs" and ds: "diff_descriptors (changed vs) 0x14000 = image_descriptors"
  shows "test_read_block (changed vs) R_BLK10 = Ok (replicate RBS 0x77)"
    and "test_read_block (changed vs) R_BLK11 = Ok (replicate 512 0x99 @ replicate 512 0x88 @
      replicate 512 0x99 @ replicate (RBS - 1536) 0x88)"
    and "test_read_block (changed vs) R_BLK12 = Ok (replicate 512 0x99 @ replicate (RBS - 512) 0xCC)"
    and "test_read_block (changed vs) R_BLK13 = Ok (replicate RBS 0)"
    and "test_read_block (changed vs) R_BLK14 = Ok (replicate RBS 0x77)"
proof -
  note tested = tested_block [OF vs ds refl]
  note eval = plain_and_patch base_source_def image_blocks [OF vs] patch_changed [OF vs]
    one_sub_block two_sub_blocks RBS_def BLOCK_SIZE_def
  show "test_read_block (changed vs) R_BLK10 = Ok (replicate RBS 0x77)"
    unfolding tested [OF test_offsets(1,2)] image_groups by (simp add: eval)
  show "test_read_block (changed vs) R_BLK11 = Ok (replicate 512 0x99 @ replicate 512 0x88 @
      replicate 512 0x99 @ replicate (RBS - 1536) 0x88)"
    unfolding tested [OF test_offsets(3,4)] image_groups by (simp add: eval)
  show "test_read_block (changed vs) R_BLK12 = Ok (replicate 512 0x99 @ replicate (RBS - 512) 0xCC)"
    unfolding tested [OF test_offsets(5,6)] image_groups by (simp add: eval)
  show "test_read_block (changed vs) R_BLK13 = Ok (replicate RBS 0)"
    unfolding tested [OF test_offsets(7,8)] image_groups by (simp add: eval)
  show "test_read_block (changed vs) R_BLK14 = Ok (replicate RBS 0x77)"
    unfolding tested [OF test_offsets(9,10)] image_groups by (simp add: eval)
qed

text \<open>Blocks without descriptors: passed through, or zeros where the bitmap has their bit.\<close>

lemma undescribed_block:
  assumes vs: "header_change vs" and "group (diff_descriptors (changed vs) 0x14000) base = None"
    and "unat off div 0x4000 = bn" and "base = of_nat (bn * BLOCK_SIZE)"
    and "store_bitmap (changed vs) 0x18000 = bm"
  shows "test_read_block (changed vs) off =
    Ok (if is_unallocated \<lparr>snapshot_volume_size = 0x40000,
             block_map = group (diff_descriptors (changed vs) 0x14000), bitmap = bm\<rparr> (of_nat bn)
        then replicate BLOCK_SIZE 0 else block_or_zeros (changed vs) base)"
  unfolding tested_block [OF vs refl assms(5,3,4)] assms(2) by simp

lemma group_other: "\<forall>d \<in> set ds. original_offset d \<noteq> k \<Longrightarrow> group ds k = None"
  by (simp add: group_def filter_False)

lemma bits_read:
  assumes vs: "header_change vs" and found: "group (diff_descriptors (changed vs) 0x14000) 0xC000 = None"
  shows "store_bitmap (changed vs) 0x18000 = image_bits @ rest \<Longrightarrow>
      test_read_block (changed vs) R_BLK3 = Ok (replicate RBS 0)"
    and "store_bitmap (changed vs) 0x18000 = [] \<Longrightarrow>
      test_read_block (changed vs) R_BLK3 = Ok (replicate RBS 0x33)"
  using undescribed_block [OF vs found test_offsets(13,14)] bit_8(1) no_bits image_blocks(2) [OF vs]
  by (simp_all add: RBS_def BLOCK_SIZE_def)

section \<open>The assertions\<close>

text \<open>A test reads a block of the image it built; a panic of the builder is a panic of the test.\<close>

definition run_test :: "bytes option \<Rightarrow> u64 \<Rightarrow> (VssError, bytes) outcome" where
  "run_test img off = (case img of None \<Rightarrow> Panic | Some b \<Rightarrow> test_read_block b off)"

text \<open>\<open>let mut b = build_reconstruct_image(); wr(&mut b, off, data);\<close>\<close>

definition image_with :: "usize \<Rightarrow> bytes \<Rightarrow> bytes option" where
  "image_with off data = do { b \<leftarrow> build_reconstruct_image; wr b off data }"

lemma image_with: "off + length data \<le> 0x40000 \<Longrightarrow> image_with off data = Some (changed [(off, data)])"
  by (simp add: image_with_def build_image image_def wr_written fits_image usize_max_val changed_def)

lemma image_reads:
  "test_read_block image R_BLK2 = Ok (replicate RBS 0x22)"
  "test_read_block image (R_BLK2 + 777) = Ok (replicate RBS 0x22)"
  "test_read_block image R_BLK3 = Ok (replicate RBS 0)"
  "test_read_block image R_BLK10 = Ok (replicate RBS 0x77)"
  "test_read_block image R_BLK11 = Ok (replicate 512 0x99 @ replicate 512 0x88 @
     replicate 512 0x99 @ replicate (RBS - 1536) 0x88)"
  "test_read_block image R_BLK12 = Ok (replicate 512 0x99 @ replicate (RBS - 512) 0xCC)"
  "test_read_block image R_BLK13 = Ok (replicate RBS 0)"
  "test_read_block image R_BLK14 = Ok (replicate RBS 0x77)"
proof -
  have vs: "header_change []" by simp
  obtain rest where bits: "store_bitmap (changed []) 0x18000 = image_bits @ rest"
    using image_state(2) unfolding image_changed by blast
  have ds: "diff_descriptors (changed []) 0x14000 = image_descriptors"
    using image_state(1) unfolding image_changed .
  show "test_read_block image R_BLK2 = Ok (replicate RBS 0x22)"
    and "test_read_block image (R_BLK2 + 777) = Ok (replicate RBS 0x22)"
    using undescribed_block [OF vs _ test_offsets(11,12) bits] undescribed_block [OF vs _ test_offsets(15,12) bits]
      bit_8(2) image_blocks(1) [OF vs] by (simp_all add: image_changed ds image_groups RBS_def BLOCK_SIZE_def)
  show "test_read_block image R_BLK3 = Ok (replicate RBS 0)"
    using bits_read(1) [OF vs _ bits] by (simp add: image_changed ds image_groups)
qed (use descriptor_blocks [of "[]"] image_state(1) in \<open>simp_all add: image_changed\<close>)

text \<open>The tests of the reconstruction hold of the model. On the image they build, whose diff area
  has every kind of descriptor, \<open>read_block\<close> gives for a live block its bytes, for an unallocated
  one zeros, for a copied one its copy (a descriptor not in use is ignored), for an overlaid
  one the selected sub-blocks of the overlay over the copy or over the live block, and copes
  with store offsets past the end.\<close>
theorem reconstruct_tests:
  "run_test build_reconstruct_image R_BLK2 = Ok (replicate RBS 0x22) \<and>
   run_test build_reconstruct_image R_BLK3 = Ok (replicate RBS 0) \<and>
   run_test build_reconstruct_image R_BLK10 = Ok (replicate RBS 0x77) \<and>
   run_test build_reconstruct_image R_BLK11 = Ok (replicate 512 0x99 @ replicate 512 0x88 @
     replicate 512 0x99 @ replicate (RBS - 1536) 0x88) \<and>
   run_test build_reconstruct_image R_BLK12 = Ok (replicate 512 0x99 @ replicate (RBS - 512) 0xCC) \<and>
   run_test build_reconstruct_image R_BLK13 = Ok (replicate RBS 0) \<and>
   run_test build_reconstruct_image R_BLK14 = Ok (replicate RBS 0x77) \<and>
   run_test build_reconstruct_image (R_BLK2 + 777) = Ok (replicate RBS 0x22)"
  using image_reads by (simp add: run_test_def build_image)

text \<open>A descriptor list of another type, one that links to itself or past the end; and the same of
  the bitmap.\<close>

lemma changed_diff_type:
  "diff_descriptors (changed [(0x14014, to_le_bytes 4 (5 :: u32))]) 0x14000 = []"
  using diff_descriptors_changed [of "[(0x14014, to_le_bytes 4 (5 :: u32))]" 5 0]
  by (simp add: look_near look_diff_header)

lemma changed_diff_link:
  fixes nx :: u64
  assumes "nx = 0x14000 \<or> 0x3C000 < unat nx"
  shows "diff_descriptors (changed [(0x14028, to_le_bytes 8 nx)]) 0x14000 = image_descriptors"
  using diff_descriptors_changed [of "[(0x14028, to_le_bytes 8 nx)]" 3 nx] assms
  by (simp add: look_near look_diff_header)

lemma changed_bitmap_elsewhere:
  assumes "0x18014 \<le> off" and "off + length data \<le> 0x18030"
  shows "diff_descriptors (changed [(off, data)]) 0x14000 = image_descriptors"
  using diff_descriptors_changed [of "[(off, data)]" 3 0] assms
  by (simp add: look_near look_diff_header)

lemma changed_bitmap_type: "store_bitmap (changed [(0x18014, to_le_bytes 4 (5 :: u32))]) 0x18000 = []"
  using bitmap_changed [of "[(0x18014, to_le_bytes 4 (5 :: u32))]" 5 "0x3C000"]
  by (simp add: look_near look_bitmap)

lemma changed_bitmap_link:
  fixes nx :: u64
  assumes "nx = 0x18000 \<or> 0x3C000 < unat nx"
  shows "\<exists>rest. store_bitmap (changed [(0x18028, to_le_bytes 8 nx)]) 0x18000 = image_bits @ rest"
  using bitmap_changed [of "[(0x18028, to_le_bytes 8 nx)]" 6 nx] assms
  by (auto simp: look_near look_bitmap)

text \<open>The tests of corrupt chains hold of the model. A descriptor list of the wrong record type
  has no descriptors and its blocks are passed through; one that links to itself or past the
  end of the volume is read once; a bitmap of the wrong type leaves no block unallocated; one
  that links to itself or past the end has its first block.\<close>
theorem corrupt_chain_tests:
  "run_test (image_with (0x14000 + 20) (to_le_bytes 4 (5 :: u32))) R_BLK10 = Ok (replicate RBS 0) \<and>
   run_test (image_with (0x14000 + 40) (to_le_bytes 8 (0x14000 :: u64))) R_BLK10 = Ok (replicate RBS 0x77) \<and>
   run_test (image_with (0x14000 + 40) (to_le_bytes 8 (0x40000 :: u64))) R_BLK10 = Ok (replicate RBS 0x77) \<and>
   run_test (image_with (0x18000 + 20) (to_le_bytes 4 (5 :: u32))) R_BLK3 = Ok (replicate RBS 0x33) \<and>
   run_test (image_with (0x18000 + 40) (to_le_bytes 8 (0x18000 :: u64))) R_BLK3 = Ok (replicate RBS 0) \<and>
   run_test (image_with (0x18000 + 40) (to_le_bytes 8 (0x40000 :: u64))) R_BLK3 = Ok (replicate RBS 0)"
proof (intro conjI)
  have run: "run_test (image_with off data) o' = test_read_block (changed [(off, data)]) o'"
    if "off + length data \<le> 0x40000" for off data o'
    using that by (simp add: run_test_def image_with)
  let ?type = "[(0x14014, to_le_bytes 4 (5 :: u32))]"
  have vs: "header_change ?type" by simp
  have alloc: "\<not> is_unallocated \<lparr>snapshot_volume_size = n, block_map = m, bitmap = image_bits @ rest\<rparr> 10"
    for n m rest by (simp add: is_unallocated_def Let_def vec_get_def image_bits_def nth_append)
  obtain rest where bits: "store_bitmap (changed ?type) 0x18000 = image_bits @ rest"
    using bitmap_changed [OF vs, of 6 "0x3C000"] by (auto simp: look_near look_bitmap)
  show "run_test (image_with (0x14000 + 20) (to_le_bytes 4 (5 :: u32))) R_BLK10 = Ok (replicate RBS 0)"
    using undescribed_block [OF vs _ test_offsets(1,2) bits] alloc image_blocks(5) [OF vs]
    by (simp add: run changed_diff_type group_empty RBS_def BLOCK_SIZE_def)
  have diff: "run_test (image_with (0x14000 + 40) (to_le_bytes 8 nx)) R_BLK10 = Ok (replicate RBS 0x77)"
    if "nx = 0x14000 \<or> 0x3C000 < unat nx" for nx :: u64
    using descriptor_blocks(1) [of "[(0x14028, to_le_bytes 8 nx)]"] changed_diff_link [OF that] by (simp add: run)
  then show "run_test (image_with (0x14000 + 40) (to_le_bytes 8 (0x14000 :: u64))) R_BLK10 = Ok (replicate RBS 0x77)"
    and "run_test (image_with (0x14000 + 40) (to_le_bytes 8 (0x40000 :: u64))) R_BLK10 = Ok (replicate RBS 0x77)"
    by simp_all
  have found: "group (diff_descriptors (changed [(off, data)]) 0x14000) 0xC000 = None"
    if "0x18014 \<le> off" "off + length data \<le> 0x18030" for off data
    using changed_bitmap_elsewhere [OF that] by (simp add: image_groups)
  show "run_test (image_with (0x18000 + 20) (to_le_bytes 4 (5 :: u32))) R_BLK3 = Ok (replicate RBS 0x33)"
    using bits_read(2) [OF _ found changed_bitmap_type] by (simp add: run)
  have bitmap: "run_test (image_with (0x18000 + 40) (to_le_bytes 8 nx)) R_BLK3 = Ok (replicate RBS 0)"
    if "nx = 0x18000 \<or> 0x3C000 < unat nx" for nx :: u64
    using bits_read(1) [OF _ found, of "0x18028" "to_le_bytes 8 nx"] changed_bitmap_link [OF that] by (auto simp: run)
  then show "run_test (image_with (0x18000 + 40) (to_le_bytes 8 (0x18000 :: u64))) R_BLK3 = Ok (replicate RBS 0)"
    and "run_test (image_with (0x18000 + 40) (to_le_bytes 8 (0x40000 :: u64))) R_BLK3 = Ok (replicate RBS 0)"
    by simp_all
qed

section \<open>Ranges and the image source\<close>

definition image_snapshot :: SnapshotState where
  "image_snapshot = state_of image 0x10000 0x18000"

lemma length_image: "length image = 0x40000"
  by (simp add: image_def length_written fits_image)

lemma image_stores: "volume_stores image = [test_store]"
  using stores_changed [of "[]"] by (simp add: image_changed)

lemma image_snapshot_block:
  "snapshot_block image image_snapshot 2 = replicate RBS 0x22" "snapshot_block image image_snapshot 3 = replicate RBS 0"
  "snapshot_block image image_snapshot 10 = replicate RBS 0x77"
  "snapshot_block image image_snapshot 11 = replicate 512 0x99 @ replicate 512 0x88 @
     replicate 512 0x99 @ replicate (RBS - 1536) 0x88"
  using image_reads(1,3-5) test_offsets(1,3,11,13)
    test_read_block_result [of image test_store "0x10000" "0x18000", folded image_snapshot_def]
  by (simp_all add: length_image image_stores isize_max_val BLOCK_SIZE_def) (simp_all add: test_store_def)

text \<open>The bytes of a range inside a block.\<close>

lemma range_in_block:
  assumes "w + n \<le> BLOCK_SIZE" and "off = bn * BLOCK_SIZE + w"
  shows "map (\<lambda>j. snapshot_byte image image_snapshot (off + j)) [0..<n] =
    subslice (snapshot_block image image_snapshot bn) w n"
  unfolding subslice_snapshot_block [OF assms(1)] assms(2) ..

definition test_read_at :: "bytes \<Rightarrow> u64 \<Rightarrow> bytes \<Rightarrow> (VssError, unit) outcome \<times> bytes" where
  "test_read_at img off buf =
     (case test_snapshot img of
        Ok snap \<Rightarrow> (case Snapshot_read_at cursor_ops off buf snap of (res, (buf', _)) \<Rightarrow> (res, buf'))
      | Err e \<Rightarrow> (Panic, buf)
      | Panic \<Rightarrow> (Panic, buf))"

lemma test_read_at_result:
  assumes "length buf \<le> isize_max" and "unat off + length buf \<le> 2 ^ 64"
  shows "test_read_at image off buf =
    (Ok (), map (\<lambda>j. snapshot_byte image image_snapshot (unat off + j)) [0..<length buf])"
proof -
  obtain r where s: "test_snapshot image = Ok \<lparr>snapshot_reader = r, state = image_snapshot\<rparr>"
    and r: "reads cursor_invar cursor_data image r"
    using test_snapshot_state [of image test_store "0x10000" "0x18000"]
    by (auto simp: length_image image_stores isize_max_val image_snapshot_def)
      (auto simp: test_store_def)
  have "snapshot_volume_size image_snapshot = of_nat (length image)"
    by (simp add: image_snapshot_def state_of_def)
  from read_at_volume [OF volume_reader_cursor r this assms] s show ?thesis
    by (auto simp: test_read_at_def Snapshot_read_at_def)
qed

definition test_source_read :: "u64 \<Rightarrow> bytes \<Rightarrow> cursor VssSnapshotSource \<Rightarrow> (VfsError, usize) outcome \<times> bytes" where
  "test_source_read off buf src =
     (case source_read_at cursor_ops off buf src of (res, (buf', _)) \<Rightarrow> (res, buf'))"

lemma test_source:
  obtains src where "source_open cursor_ops (cursor_new image) 0 = Ok src" and "source_len src = 0x40000"
    and "\<And>off buf. length buf \<le> isize_max \<Longrightarrow>
      test_source_read off buf src = answer (snapshot_image image image_snapshot) off buf"
proof -
  have r: "reads cursor_invar cursor_data image (cursor_new image)"
    by (simp add: cursor_reads length_image isize_max_val)
  have "snapshot_state_spec image (volume_stores image) 0 = Ok image_snapshot"
    by (simp add: snapshot_state_spec_def image_stores image_snapshot_def test_store_def)
  with source_open_over [OF volume_reader_cursor r, of 0] obtain src where
    src: "source_open cursor_ops (cursor_new image) 0 = Ok src" "source_valid cursor_invar cursor_data src"
      "source_image cursor_data src = snapshot_image image image_snapshot" "unat (source_len src) = 0x40000"
    by (auto simp: length_image)
  show thesis
  proof
    show "source_len src = 0x40000" using src(4) by (simp add: word_unat_eq_iff)
    show "test_source_read off buf src = answer (snapshot_image image image_snapshot) off buf"
      if "length buf \<le> isize_max" for off buf
      using image_source.read_law [OF source_meets_contract [OF volume_reader_cursor] src(2) that, of off]
      by (auto simp: test_source_read_def src(3))
  qed (rule src(1))
qed

lemma past_image: "snapshot_block image image_snapshot 16 = replicate RBS 0"
proof -
  obtain rest where "store_bitmap image 0x18000 = image_bits @ rest" using image_state(2) by blast
  then have "\<not> is_unallocated image_snapshot 16"
    by (simp add: is_unallocated_def image_snapshot_def state_of_def Let_def vec_get_def image_bits_def nth_append)
  moreover have "block_map image_snapshot 0x40000 = None"
    using image_state(1)
    by (simp add: image_snapshot_def state_of_def saturating_add_def vss_consts group_other image_descriptors_def
        test_descriptor_def)
  ultimately show ?thesis
    using snapshot_block_cases [of "0x40000" 16 image image_snapshot]
    by (simp add: block_or_zeros_def in_volume_def length_image RBS_def BLOCK_SIZE_def)
qed

text \<open>The tests of ranges and of the image source hold of the model: a range across the border of
  a live and an unallocated block, one past the end, an empty one; from the source, copied and
  overlaid bytes, the length, no byte at or past the end with the buffer untouched, and before
  the end the prefix that is there.\<close>
theorem range_and_source_tests:
  "build_reconstruct_image = Some image \<and>
   test_read_at image (R_BLK3 - 512) (replicate 1024 0xEE) = (Ok (), replicate 512 0x22 @ replicate 512 0) \<and>
   test_read_at image (of_nat R_IMG_LEN) (replicate RBS 0xEE) = (Ok (), replicate RBS 0) \<and>
   test_read_at image 0 [] = (Ok (), []) \<and>
   (\<exists>src. source_open cursor_ops (cursor_new image) 0 = Ok src \<and> source_len src = of_nat R_IMG_LEN \<and>
      test_source_read R_BLK10 (replicate 512 0) src = (Ok 512, replicate 512 0x77) \<and>
      test_source_read R_BLK11 (replicate 1536 0) src =
        (Ok 1536, replicate 512 0x99 @ replicate 512 0x88 @ replicate 512 0x99) \<and>
      test_source_read (of_nat R_IMG_LEN) (replicate 32 0xEE) src = (Ok 0, replicate 32 0xEE) \<and>
      test_source_read u64_max (replicate 32 0xEE) src = (Ok 0, replicate 32 0xEE) \<and>
      fst (test_source_read (of_nat R_IMG_LEN - 100) (replicate RBS 0xEE) src) = Ok 100 \<and>
      drop 100 (snd (test_source_read (of_nat R_IMG_LEN - 100) (replicate RBS 0xEE) src)) = replicate (RBS - 100) 0xEE)"
proof (intro conjI)
  note evals = test_consts isize_max_val
  have live: "map (\<lambda>j. snapshot_byte image image_snapshot (0xBE00 + j)) [0..<512] = replicate 512 0x22"
    using range_in_block [of 15872 512 "0xBE00" 2] image_snapshot_block(1) by (simp add: evals)
  have zero: "map (\<lambda>j. snapshot_byte image image_snapshot (0xBE00 + (512 + j))) [0..<1024 - 512] = replicate 512 0"
    using range_in_block [of 0 512 "0xC000" 3] image_snapshot_block(2) by (simp add: evals)
  have "map (\<lambda>j. snapshot_byte image image_snapshot (0xBE00 + j)) [0..<1024] = replicate 512 0x22 @ replicate 512 0"
    unfolding live [symmetric] zero [symmetric] by (rule map_upt_split [symmetric]) simp
  then show "test_read_at image (R_BLK3 - 512) (replicate 1024 0xEE) = (Ok (), replicate 512 0x22 @ replicate 512 0)"
    using test_read_at_result [of "replicate 1024 0xEE" "R_BLK3 - 512"] by (simp add: evals)
  have "map (\<lambda>j. snapshot_byte image image_snapshot (0x40000 + j)) [0..<RBS] = replicate RBS 0"
    using range_in_block [of 0 RBS "0x40000" 16] past_image by (simp add: evals)
  then show "test_read_at image (of_nat R_IMG_LEN) (replicate RBS 0xEE) = (Ok (), replicate RBS 0)"
    using test_read_at_result [of "replicate RBS 0xEE" "of_nat R_IMG_LEN"] by (simp add: evals)
  show "test_read_at image 0 [] = (Ok (), [])"
    using test_read_at_result [of "[]" 0] by simp
  obtain src where src: "source_open cursor_ops (cursor_new image) 0 = Ok src" "source_len src = 0x40000"
    and read: "\<And>off buf. length buf \<le> isize_max \<Longrightarrow>
      test_source_read off buf src = answer (snapshot_image image image_snapshot) off buf"
    by (rule test_source) blast
  have copied: "subslice (snapshot_image image image_snapshot) 0x28000 512 = replicate 512 0x77"
    using range_in_block [of 0 512 "0x28000" 10] snapshot_image_range [of "0x28000" 512 image image_snapshot]
      image_snapshot_block(3) by (simp add: evals length_image)
  have overlaid: "subslice (snapshot_image image image_snapshot) 0x2C000 1536 =
      replicate 512 0x99 @ replicate 512 0x88 @ replicate 512 0x99"
    using range_in_block [of 0 1536 "0x2C000" 11] snapshot_image_range [of "0x2C000" 1536 image image_snapshot]
      image_snapshot_block(4) by (simp add: evals length_image subslice_def)
  show "\<exists>src. source_open cursor_ops (cursor_new image) 0 = Ok src \<and> source_len src = of_nat R_IMG_LEN \<and>
      test_source_read R_BLK10 (replicate 512 0) src = (Ok 512, replicate 512 0x77) \<and>
      test_source_read R_BLK11 (replicate 1536 0) src =
        (Ok 1536, replicate 512 0x99 @ replicate 512 0x88 @ replicate 512 0x99) \<and>
      test_source_read (of_nat R_IMG_LEN) (replicate 32 0xEE) src = (Ok 0, replicate 32 0xEE) \<and>
      test_source_read u64_max (replicate 32 0xEE) src = (Ok 0, replicate 32 0xEE) \<and>
      fst (test_source_read (of_nat R_IMG_LEN - 100) (replicate RBS 0xEE) src) = Ok 100 \<and>
      drop 100 (snd (test_source_read (of_nat R_IMG_LEN - 100) (replicate RBS 0xEE) src)) = replicate (RBS - 100) 0xEE"
    using src copied overlaid
    by (intro exI [of _ src]) (simp add: read answer_def evals length_image Let_def subslice_def)
qed (rule build_image)

end
