(* ===== verification/Vss_Open_Tests.thy ===== *)
theory Vss_Open_Tests
  imports Vss_Tests
begin

text \<open>
  The unit tests of \<open>open\<close> and \<open>store_info\<close>, replayed on the model: the small image of
  \<open>core/src/tests.rs\<close>, with and without the type-0x03 entry of its snapshot, and the corrupt
  catalogs and store offsets the tests make of it.
\<close>

section \<open>The image\<close>

definition SHADOW_ID :: bytes where
  "SHADOW_ID = [0xbb, 0xbb, 0xaa, 0xaa, 0xcc, 0xcc, 0xdd, 0xdd, 0xee, 0xee, 0xff, 0xff, 0x00, 0x00, 0x11, 0x11]"

definition SET_ID :: bytes where
  "SET_ID = [0x33, 0x33, 0x22, 0x22, 0x44, 0x44, 0x55, 0x55, 0x66, 0x66, 0x77, 0x77, 0x88, 0x88, 0x99, 0x99]"

definition VOL_SIZE :: u64 where "VOL_SIZE = 255136931328"
definition SEQ :: u64 where "SEQ = 1"
definition FLAGS :: u64 where "FLAGS = 0x40"
definition CTIME :: u64 where "CTIME = 130000000000000000"
definition CTX :: u32 where "CTX = 1"
definition ATTR :: u32 where "ATTR = or (or PERSISTENT CLIENT_ACCESSIBLE) DIFFERENTIAL"
definition CATALOG_OFF :: u64 where "CATALOG_OFF = 0x4000"
definition STORE_HDR_OFF :: u64 where "STORE_HDR_OFF = 0x8000"
definition STORE_BITMAP_OFF :: u64 where "STORE_BITMAP_OFF = 0xC000"
definition STORE_INFO_SIZE :: u64 where "STORE_INFO_SIZE = 300"
definition IMG_LEN :: usize where "IMG_LEN = 0x10000"
definition OP_MACHINE :: rstring where "OP_MACHINE = ascii ''HOST-A''"
definition SVC_MACHINE :: rstring where "SVC_MACHINE = ascii ''SVC-B''"

lemmas offset_consts = CATALOG_OFF_def STORE_HDR_OFF_def STORE_BITMAP_OFF_def STORE_INFO_SIZE_def IMG_LEN_def
  as_usize_def

definition build_image :: "bool \<Rightarrow> bytes option" where
  "build_image with_type3 =
     (let c = as_usize CATALOG_OFF; e0 = c + 128
      in do {
        b \<leftarrow> wr_all
          [(0x1E00, VSS_IDENTIFIER), (0x1E00 + 16, to_le_bytes 4 (1 :: u32)),
           (0x1E00 + 20, to_le_bytes 4 (1 :: u32)), (0x1E00 + 24, to_le_bytes 8 (0x1E00 :: u64)),
           (0x1E00 + 48, to_le_bytes 8 CATALOG_OFF),
           (c, VSS_IDENTIFIER), (c + 16, to_le_bytes 4 (1 :: u32)), (c + 20, to_le_bytes 4 (2 :: u32)),
           (c + 40, to_le_bytes 8 (0 :: u64)),
           (e0, to_le_bytes 8 (2 :: u64)), (e0 + 8, to_le_bytes 8 VOL_SIZE), (e0 + 16, STORE_ID),
           (e0 + 32, to_le_bytes 8 SEQ), (e0 + 40, to_le_bytes 8 FLAGS), (e0 + 48, to_le_bytes 8 CTIME)]
          (replicate IMG_LEN 0);
        (if with_type3 then
           let e1 = e0 + 128; s = as_usize STORE_HDR_OFF; si = s + 128;
               opm = utf16le_bytes OP_MACHINE; svc_off = si + 66 + length opm; svc = utf16le_bytes SVC_MACHINE
           in wr_all
             [(e1, to_le_bytes 8 (3 :: u64)), (e1 + 16, STORE_ID), (e1 + 32, to_le_bytes 8 STORE_HDR_OFF),
              (e1 + 48, to_le_bytes 8 STORE_BITMAP_OFF),
              (s, VSS_IDENTIFIER), (s + 16, to_le_bytes 4 (1 :: u32)), (s + 20, to_le_bytes 4 (4 :: u32)),
              (s + 48, to_le_bytes 8 STORE_INFO_SIZE),
              (si + 16, SHADOW_ID), (si + 32, SET_ID), (si + 48, to_le_bytes 4 CTX), (si + 56, to_le_bytes 4 ATTR),
              (si + 64, to_le_bytes 2 (of_nat (length opm) :: u16)), (si + 66, opm),
              (svc_off, to_le_bytes 2 (of_nat (length svc) :: u16)), (svc_off + 2, svc)] b
         else Some b)
      })"

definition catalog_writes :: "(usize \<times> bytes) list" where
  "catalog_writes =
     [(0x40B0, to_le_bytes 8 CTIME), (0x40A8, to_le_bytes 8 FLAGS), (0x40A0, to_le_bytes 8 SEQ),
      (0x4090, STORE_ID), (0x4088, to_le_bytes 8 VOL_SIZE), (0x4080, to_le_bytes 8 (2 :: u64)),
      (0x4028, to_le_bytes 8 (0 :: u64)), (0x4014, to_le_bytes 4 (2 :: u32)),
      (0x4010, to_le_bytes 4 (1 :: u32)), (0x4000, VSS_IDENTIFIER),
      (0x1E30, to_le_bytes 8 (0x4000 :: u64)), (0x1E18, to_le_bytes 8 (0x1E00 :: u64)),
      (0x1E14, to_le_bytes 4 (1 :: u32)), (0x1E10, to_le_bytes 4 (1 :: u32)), (0x1E00, VSS_IDENTIFIER)]"

definition store_writes :: "(usize \<times> bytes) list" where
  "store_writes =
     [(0x80D0, utf16le_bytes SVC_MACHINE), (0x80CE, to_le_bytes 2 (10 :: u16)),
      (0x80C2, utf16le_bytes OP_MACHINE), (0x80C0, to_le_bytes 2 (12 :: u16)),
      (0x80B8, to_le_bytes 4 ATTR), (0x80B0, to_le_bytes 4 CTX), (0x80A0, SET_ID), (0x8090, SHADOW_ID),
      (0x8030, to_le_bytes 8 (300 :: u64)), (0x8014, to_le_bytes 4 (4 :: u32)),
      (0x8010, to_le_bytes 4 (1 :: u32)), (0x8000, VSS_IDENTIFIER),
      (0x4130, to_le_bytes 8 (0xC000 :: u64)), (0x4120, to_le_bytes 8 (0x8000 :: u64)),
      (0x4110, STORE_ID), (0x4100, to_le_bytes 8 (3 :: u64))]"

lemma length_ids [simp]: "length SHADOW_ID = 16" "length SET_ID = 16"
  by (simp_all add: SHADOW_ID_def SET_ID_def)

lemma machine_bytes: "length (utf16le_bytes OP_MACHINE) = 12" "length (utf16le_bytes SVC_MACHINE) = 10"
  by (simp_all add: OP_MACHINE_def SVC_MACHINE_def ascii_def utf16le_bytes_def encode_utf16_def encode_char_def)

lemma build_image_written:
  "build_image True = Some (written 0x10000 (store_writes @ catalog_writes))"
  "build_image False = Some (written 0x10000 catalog_writes)"
proof -
  have zeros: "replicate 0x10000 0 = written 0x10000 []" by simp
  have len: "(0x10000 :: nat) \<le> usize_max" by (simp add: usize_max_val)
  show "build_image True = Some (written 0x10000 (store_writes @ catalog_writes))"
    and "build_image False = Some (written 0x10000 catalog_writes)"
    unfolding build_image_def Let_def
    by (simp_all add: offset_consts zeros wr_all_written len machine_bytes del: written_Nil wr_all.simps)
      (simp_all add: store_writes_def catalog_writes_def)
qed

section \<open>What opening it finds\<close>

definition small_store :: "u64 option \<Rightarrow> StoreDescriptor" where
  "small_store p = \<lparr>store_id = STORE_ID, volume_size = VOL_SIZE, sequence = SEQ, snapshot_flags = FLAGS,
     creation_time = CTIME, store_header_offset = p, store_bitmap_offset = map_option (\<lambda>_. 0xC000) p\<rparr>"

text \<open>The image of the tests after further writes.\<close>

abbreviation small_image :: "(usize \<times> bytes) list \<Rightarrow> bytes" where
  "small_image vs \<equiv> written 0x10000 (vs @ store_writes @ catalog_writes)"

lemmas small_writes = store_writes_def catalog_writes_def

lemma fits_small: "fits 0x10000 store_writes" "fits 0x10000 catalog_writes"
  by (simp_all add: small_writes machine_bytes)

abbreviation small_entries :: "u64 \<Rightarrow> CatalogEntry list" where
  "small_entries h \<equiv> [Snapshot (small_store None), StorePointer STORE_ID h 0xC000]"

lemma test_catalog_small:
  "test_catalog 0x10000 (store_writes @ catalog_writes) 0 (small_entries 0x8000)"
  "test_catalog 0x10000 catalog_writes 0 [Snapshot (small_store None)]"
  "test_catalog 0x10000 ((0x4028, to_le_bytes 8 nx) # store_writes @ catalog_writes) nx (small_entries 0x8000)"
  "test_catalog 0x10000 ((0x4120, to_le_bytes 8 h) # store_writes @ catalog_writes) 0 (small_entries h)"
  by (simp_all add: test_catalog_def fits_small) (simp_all add: small_writes machine_bytes small_store_def)

lemma stores_small:
  "volume_stores (small_image []) = [small_store (Some 0x8000)]"
  "volume_stores (written 0x10000 catalog_writes) = [small_store None]"
  "(nx :: u64) = 0x4000 \<or> 0xC000 < unat nx \<Longrightarrow>
     volume_stores (small_image [(0x4028, to_le_bytes 8 (nx :: u64))]) = [small_store (Some 0x8000)]"
  "volume_stores (small_image [(0x4120, to_le_bytes 8 (h :: u64))]) = [small_store (Some h)]"
  using stores_written(3) [OF test_catalog_small(1)] stores_written(3) [OF test_catalog_small(2)]
    stores_written(3) [OF test_catalog_small(3) [of nx]] stores_written(3) [OF test_catalog_small(4) [of h]]
  by (auto simp: apply_entries_def small_store_def)

section \<open>The tests\<close>

text \<open>\<open>VssVolume::open(..).unwrap()\<close> and its getters; \<open>vol.store_info(i)\<close>; an image \<open>wr\<close> has changed.\<close>

definition test_open :: "bytes option \<Rightarrow> (bool \<times> u64 \<times> u64 \<times> StoreDescriptor list) option" where
  "test_open img = do {
     b \<leftarrow> img;
     case open_volume cursor_ops (cursor_new b) of
       Ok vol \<Rightarrow> Some (has_vss_header vol, catalog_offset vol, total_size vol, stores vol)
     | Err e \<Rightarrow> None
     | Panic \<Rightarrow> None
   }"

definition test_store_info :: "bytes option \<Rightarrow> usize \<Rightarrow> (VssError, StoreInfo) outcome" where
  "test_store_info img i =
     (case img of
        None \<Rightarrow> Panic
      | Some b \<Rightarrow>
          (case open_volume cursor_ops (cursor_new b) of
             Ok vol \<Rightarrow> fst (store_info cursor_ops i vol)
           | Err e \<Rightarrow> Panic
           | Panic \<Rightarrow> Panic))"

definition build_image_with :: "usize \<Rightarrow> bytes \<Rightarrow> bytes option" where
  "build_image_with off data = do { b \<leftarrow> build_image True; wr b off data }"

lemma build_image_with: "off + length data \<le> 0x10000 \<Longrightarrow> build_image_with off data = Some (small_image [(off, data)])"
  by (simp add: build_image_with_def build_image_written wr_written fits_small usize_max_val)

lemma test_results:
  assumes "length v \<le> isize_max"
  shows "test_open (Some v) = Some (volume_has_header v, volume_catalog_offset v, of_nat (length v), volume_stores v)"
    and "test_store_info (Some v) i = store_info_spec v (volume_stores v) i"
proof -
  have r: "reads cursor_invar cursor_data v (cursor_new v)" using assms by (simp add: cursor_reads)
  from open_volume_over [OF volume_reader_cursor r] obtain vol where
    vol: "open_volume cursor_ops (cursor_new v) = Ok vol" "has_vss_header vol = volume_has_header v"
      "catalog_offset vol = volume_catalog_offset v" "stores vol = volume_stores v"
      "reads cursor_invar cursor_data v (reader vol)" "total_size vol = of_nat (length v)"
    by auto
  then show "test_open (Some v) = Some (volume_has_header v, volume_catalog_offset v, of_nat (length v), volume_stores v)"
    by (simp add: test_open_def)
  from store_info_over [OF volume_reader_cursor vol(5,6), of i] vol(1,4)
  show "test_store_info (Some v) i = store_info_spec v (volume_stores v) i"
    by (auto simp: test_store_info_def)
qed

lemma headers_small:
  "volume_has_header (small_image [])" "volume_catalog_offset (small_image []) = 0x4000"
  "volume_has_header (small_image [(0x4028, to_le_bytes 8 (nx :: u64))])"
  "volume_catalog_offset (small_image [(0x4028, to_le_bytes 8 nx)]) = 0x4000"
  "volume_has_header (small_image [(0x1E30, to_le_bytes 8 (0 :: u64))])"
  "volume_catalog_offset (small_image [(0x1E30, to_le_bytes 8 (0 :: u64))]) = 0"
  "volume_has_header (small_image [(0x4000, replicate 16 0)])"
  "volume_catalog_offset (small_image [(0x4000, replicate 16 0)]) = 0x4000"
proof -
  have "volume_has_header (small_image vs) \<and> volume_catalog_offset (small_image vs) = c"
    if "fits 0x10000 vs" "slice_of (vs @ store_writes @ catalog_writes) 0x1E00 16 = Some VSS_IDENTIFIER"
      "slice_of (vs @ store_writes @ catalog_writes) 0x1E30 8 = Some (to_le_bytes 8 c)" for vs c
    using header_of_written [OF _ _ that(2,3), of "0x10000"] that(1) by (simp add: fits_small)
  note this [of "[]" "0x4000"] this [of "[(0x4028, to_le_bytes 8 nx)]" "0x4000"]
    this [of "[(0x1E30, to_le_bytes 8 (0 :: u64))]" 0] this [of "[(0x4000, replicate 16 0)]" "0x4000"]
  then show "volume_has_header (small_image [])" "volume_catalog_offset (small_image []) = 0x4000"
    "volume_has_header (small_image [(0x4028, to_le_bytes 8 (nx :: u64))])"
    "volume_catalog_offset (small_image [(0x4028, to_le_bytes 8 nx)]) = 0x4000"
    "volume_has_header (small_image [(0x1E30, to_le_bytes 8 (0 :: u64))])"
    "volume_catalog_offset (small_image [(0x1E30, to_le_bytes 8 (0 :: u64))]) = 0"
    "volume_has_header (small_image [(0x4000, replicate 16 0)])"
    "volume_catalog_offset (small_image [(0x4000, replicate 16 0)]) = 0x4000"
    unfolding small_writes by (simp_all add: machine_bytes)
qed

lemma no_header:
  "\<not> volume_has_header (replicate n 0)"
  "volume_catalog_offset (replicate n 0) = 0"
  by (simp_all add: volume_has_header_def volume_catalog_offset_def header_of_def volume_header_of_def
      VolumeHeader_parse_fields field_def)

text \<open>The tests of \<open>open\<close> hold of the model: the store of the image with both its offsets, no header
  in a blank or in a tiny image, no store when the catalog offset is zero or the catalog is wiped,
  and the one store when the catalog's link leads past the end or back to the same block.\<close>
theorem open_tests:
  "test_open (build_image True) =
     Some (True, CATALOG_OFF, of_nat IMG_LEN, [small_store (Some STORE_HDR_OFF)]) \<and>
   test_open (build_image False) = Some (True, CATALOG_OFF, of_nat IMG_LEN, [small_store None]) \<and>
   test_open (Some (replicate IMG_LEN 0)) = Some (False, 0, of_nat IMG_LEN, []) \<and>
   test_open (Some (replicate 100 0)) = Some (False, 0, 100, []) \<and>
   test_open (build_image_with (0x1E00 + 48) (to_le_bytes 8 (0 :: u64))) = Some (True, 0, of_nat IMG_LEN, []) \<and>
   test_open (build_image_with (as_usize CATALOG_OFF) (replicate 16 0)) =
     Some (True, CATALOG_OFF, of_nat IMG_LEN, []) \<and>
   test_open (build_image_with (as_usize CATALOG_OFF + 40) (to_le_bytes 8 (of_nat IMG_LEN :: u64))) =
     Some (True, CATALOG_OFF, of_nat IMG_LEN, [small_store (Some STORE_HDR_OFF)]) \<and>
   test_open (build_image_with (as_usize CATALOG_OFF + 40) (to_le_bytes 8 CATALOG_OFF)) =
     Some (True, CATALOG_OFF, of_nat IMG_LEN, [small_store (Some STORE_HDR_OFF)])"
proof (intro conjI)
  have len: "length (small_image vs) = 0x10000" if "fits 0x10000 vs" for vs
    using that by (simp add: length_written fits_small)
  have changed: "test_open (build_image_with off data) =
      Some (volume_has_header (small_image [(off, data)]), volume_catalog_offset (small_image [(off, data)]), 0x10000,
        volume_stores (small_image [(off, data)]))" if "off + length data \<le> 0x10000" for off data
    using that test_results(1) [of "small_image [(off, data)]"] len [of "[(off, data)]"]
    by (simp add: build_image_with isize_max_val)
  note link = changed [of "0x4028" "to_le_bytes 8 (nx :: u64)" for nx] 
  show "test_open (build_image True) =
      Some (True, CATALOG_OFF, of_nat IMG_LEN, [small_store (Some STORE_HDR_OFF)])"
    using test_results(1) [of "small_image []"] len [of "[]"] headers_small(1,2) stores_small(1)
    by (simp add: build_image_written isize_max_val offset_consts)
  show "test_open (build_image False) = Some (True, CATALOG_OFF, of_nat IMG_LEN, [small_store None])"
    using test_results(1) [of "written 0x10000 catalog_writes"] stores_small(2)
      stores_written(1,2) [OF test_catalog_small(2)] length_written [OF fits_small(2)]
    by (simp add: build_image_written isize_max_val offset_consts)
  show "test_open (Some (replicate IMG_LEN 0)) = Some (False, 0, of_nat IMG_LEN, [])"
    and "test_open (Some (replicate 100 0)) = Some (False, 0, 100, [])"
    using test_results(1) [of "replicate 0x10000 0"] test_results(1) [of "replicate 100 0"]
    by (simp_all add: no_header volume_stores_def isize_max_val offset_consts)
  show "test_open (build_image_with (0x1E00 + 48) (to_le_bytes 8 (0 :: u64))) = Some (True, 0, of_nat IMG_LEN, [])"
    using headers_small(5,6) by (simp add: changed volume_stores_def offset_consts)
  have "volume_stores (small_image [(0x4000, replicate 16 0)]) = []"
  proof -
    have "field (block_at (small_image [(0x4000, replicate 16 0)]) 0x4000) 0 16 = replicate 16 0"
      using field_written [of "0x10000" "[(0x4000, replicate 16 0)] @ store_writes @ catalog_writes" "0x4000" 0 16]
      by (simp add: block_at_def vss_consts fits_small)
    then have "\<not> accept_catalog (block_at (small_image [(0x4000, replicate 16 0)]) 0x4000)"
      by (simp add: accept_catalog_def)
    then show ?thesis
      using headers_small(7,8)
      by (simp add: volume_stores_def catalog_stores_def catalog_entries_def catalog_chain_def chain_none
          apply_entries_def)
  qed
  then show "test_open (build_image_with (as_usize CATALOG_OFF) (replicate 16 0)) =
      Some (True, CATALOG_OFF, of_nat IMG_LEN, [])"
    using headers_small(7,8) by (simp add: changed offset_consts)
  show "test_open (build_image_with (as_usize CATALOG_OFF + 40) (to_le_bytes 8 (of_nat IMG_LEN :: u64))) =
      Some (True, CATALOG_OFF, of_nat IMG_LEN, [small_store (Some STORE_HDR_OFF)])"
    and "test_open (build_image_with (as_usize CATALOG_OFF + 40) (to_le_bytes 8 CATALOG_OFF)) =
      Some (True, CATALOG_OFF, of_nat IMG_LEN, [small_store (Some STORE_HDR_OFF)])"
    using headers_small(3,4) [of "0x10000"] headers_small(3,4) [of "0x4000"]
      stores_small(3) [of "0x10000"] stores_small(3) [of "0x4000"]
    by (simp_all add: link offset_consts)
qed

text \<open>The information of the store, field by field.\<close>

definition small_info :: StoreInfo where
  "small_info = \<lparr>shadow_copy_id = SHADOW_ID, shadow_copy_set_id = SET_ID, snapshot_context = CTX,
     attributes = AttributeFlags ATTR, operating_machine = OP_MACHINE, service_machine = SVC_MACHINE\<rparr>"

lemma machine_names: "utf16le_string (utf16le_bytes OP_MACHINE) = OP_MACHINE"
  "utf16le_string (utf16le_bytes SVC_MACHINE) = SVC_MACHINE"
  by (rule utf16le_roundtrip, simp add: OP_MACHINE_def SVC_MACHINE_def ascii_def is_scalar_def)+

lemma small_info_read: "store_info_of (subslice (small_image []) 0x8080 300) = small_info"
proof -
  have fit: "fits 0x10000 (store_writes @ catalog_writes)" by (simp add: fits_small)
  define b where "b = subslice (small_image []) 0x8080 300"
  have field: "field b i n = x"
    if "slice_of (store_writes @ catalog_writes) (0x8080 + i) n = Some x" "i + n \<le> 300" for i n x
    using field_written [OF fit that] by (simp add: b_def)
  have fields: "field b 16 16 = SHADOW_ID" "field b 32 16 = SET_ID" "field b 48 4 = to_le_bytes 4 CTX"
    "field b 56 4 = to_le_bytes 4 ATTR" "field b 64 2 = to_le_bytes 2 (12 :: u16)"
    "field b 78 2 = to_le_bytes 2 (10 :: u16)"
    by (rule field; simp add: small_writes machine_bytes)+
  have string: "subslice b i n = x"
    if "slice_of (store_writes @ catalog_writes) (0x8080 + i) n = Some x" "i + n \<le> 300" for i n x
    using subslice_written [OF that(1) fit] that(2) by (simp add: b_def subslice_subslice)
  have strings: "subslice b 66 12 = utf16le_bytes OP_MACHINE" "subslice b 80 10 = utf16le_bytes SVC_MACHINE"
    using machine_bytes by - (rule string; simp add: small_writes machine_bytes subslice_def)+
  have "length b = 300" using length_written [OF fit] by (simp add: b_def)
  then show ?thesis
    unfolding b_def [symmetric] store_info_of_def StoreInfo_parse_fields fields field_of_le_bytes Let_def
    by (simp add: fields field_of_le_bytes strings machine_names small_info_def)
qed

lemma small_info_len: "store_info_len (small_image []) 0x8000 = 300"
proof -
  have fit: "fits 0x10000 (store_writes @ catalog_writes)" by (simp add: fits_small)
  have "sbh_store_information_size (store_header_of (subslice (small_image []) 0x8000 128)) = 300"
    using field_written [OF fit, where s = "0x8000" and k = 128 and i = 48 and n = 8]
    by (simp add: store_header_of_def StoreBlockHeader_parse_fields small_writes machine_bytes field_of_le_bytes)
  then show ?thesis using length_written [OF fit] by (simp add: store_info_len_def)
qed

text \<open>The tests of \<open>store_info\<close> hold of the model: every field of the store, both machine names
  decoded; an index past the end, a store without a pointer, and a pointer past the end of the
  volume or past the end of the 64-bit range are each their own error.\<close>
theorem store_info_tests:
  "test_store_info (build_image True) 0 = Ok small_info \<and>
   test_store_info (build_image True) 3 = Err (StoreIndexOutOfRange 3 1) \<and>
   test_store_info (build_image False) 0 = Err (StoreInfoUnavailable 0) \<and>
   test_store_info (build_image_with (as_usize CATALOG_OFF + 256 + 32) (to_le_bytes 8 (of_nat IMG_LEN + 0x100000 :: u64))) 0 =
     Err (StoreOffsetOutOfBounds 0 (of_nat IMG_LEN + 0x100000) (of_nat IMG_LEN)) \<and>
   test_store_info (build_image_with (as_usize CATALOG_OFF + 256 + 32) (to_le_bytes 8 u64_max)) 0 =
     Err (StoreOffsetOutOfBounds 0 u64_max (of_nat IMG_LEN))"
proof (intro conjI)
  have len: "length (small_image vs) = 0x10000" if "fits 0x10000 vs" for vs
    using that by (simp add: length_written fits_small)
  have built: "test_store_info (build_image True) i = store_info_spec (small_image []) [small_store (Some 0x8000)] i" for i
    using test_results(2) [of "small_image []"] len [of "[]"] stores_small(1)
    by (simp add: build_image_written isize_max_val)
  show "test_store_info (build_image True) 0 = Ok small_info"
    using small_info_read small_info_len len [of "[]"]
    by (simp add: built store_info_spec_def small_store_def)
  show "test_store_info (build_image True) 3 = Err (StoreIndexOutOfRange 3 1)"
    by (simp add: built store_info_spec_def)
  show "test_store_info (build_image False) 0 = Err (StoreInfoUnavailable 0)"
    using test_results(2) [of "written 0x10000 catalog_writes"] stores_small(2) length_written [OF fits_small(2)]
    by (simp add: build_image_written isize_max_val store_info_spec_def small_store_def)
  have past: "test_store_info (build_image_with 0x4120 (to_le_bytes 8 h)) 0 = Err (StoreOffsetOutOfBounds 0 h 0x10000)"
    if "0x10000 \<le> unat h" for h :: u64
    using test_results(2) [of "small_image [(0x4120, to_le_bytes 8 h)]"] stores_small(4) [of h]
      len [of "[(0x4120, to_le_bytes 8 h)]"] that
    by (simp add: build_image_with isize_max_val store_info_spec_def small_store_def)
  then show "test_store_info
      (build_image_with (as_usize CATALOG_OFF + 256 + 32) (to_le_bytes 8 (of_nat IMG_LEN + 0x100000 :: u64))) 0 =
      Err (StoreOffsetOutOfBounds 0 (of_nat IMG_LEN + 0x100000) (of_nat IMG_LEN))"
    and "test_store_info (build_image_with (as_usize CATALOG_OFF + 256 + 32) (to_le_bytes 8 u64_max)) 0 =
      Err (StoreOffsetOutOfBounds 0 u64_max (of_nat IMG_LEN))"
    by (simp_all add: offset_consts)
qed

section \<open>Snapshots and sources that cannot be opened\<close>

definition test_snapshot_of :: "bytes option \<Rightarrow> usize \<Rightarrow> (VssError, cursor Snapshot) outcome" where
  "test_snapshot_of img i =
     (case img of
        None \<Rightarrow> Panic
      | Some b \<Rightarrow>
          (case open_volume cursor_ops (cursor_new b) of
             Ok vol \<Rightarrow> fst (snapshot cursor_ops i vol)
           | Err e \<Rightarrow> Panic
           | Panic \<Rightarrow> Panic))"

definition test_source_of :: "bytes option \<Rightarrow> usize \<Rightarrow> (VssError, cursor VssSnapshotSource) outcome" where
  "test_source_of img i = (case img of None \<Rightarrow> Panic | Some b \<Rightarrow> source_open cursor_ops (cursor_new b) i)"

lemma test_refused:
  assumes "length v \<le> isize_max" and "snapshot_state_spec v (volume_stores v) i = Err e"
  shows "test_snapshot_of (Some v) i = Err e" and "test_source_of (Some v) i = Err e"
proof -
  have r: "reads cursor_invar cursor_data v (cursor_new v)" using assms by (simp add: cursor_reads)
  from open_volume_over [OF volume_reader_cursor r] obtain vol where
    vol: "open_volume cursor_ops (cursor_new v) = Ok vol" "stores vol = volume_stores v"
      "reads cursor_invar cursor_data v (reader vol)" "total_size vol = of_nat (length v)"
    by auto
  from snapshot_state_over [OF volume_reader_cursor vol(3,4), of i] vol(1,2) assms(2)
  show "test_snapshot_of (Some v) i = Err e" by (auto simp: test_snapshot_of_def snapshot_def)
  from source_open_over [OF volume_reader_cursor r, of i] assms(2)
  show "test_source_of (Some v) i = Err e" by (simp add: test_source_of_def)
qed

text \<open>The tests of a snapshot and of an image source past the last store, and of a store without a
  pointer, hold of the model.\<close>
theorem refused_snapshot_tests:
  "test_snapshot_of build_reconstruct_image 5 = Err (StoreIndexOutOfRange 5 1) \<and>
   test_snapshot_of (build_image False) 0 = Err (StoreInfoUnavailable 0) \<and>
   test_source_of build_reconstruct_image 5 = Err (StoreIndexOutOfRange 5 1) \<and>
   test_source_of (build_image False) 0 = Err (StoreInfoUnavailable 0)"
proof -
  have "snapshot_state_spec image (volume_stores image) 5 = Err (StoreIndexOutOfRange 5 1)"
    by (simp add: snapshot_state_spec_def image_stores)
  note past = test_refused [OF _ this]
  have "snapshot_state_spec (written 0x10000 catalog_writes) (volume_stores (written 0x10000 catalog_writes)) 0 =
      Err (StoreInfoUnavailable 0)"
    by (simp add: snapshot_state_spec_def stores_small(2) small_store_def)
  note bare = test_refused [OF _ this]
  show ?thesis
    using past bare length_written [OF fits_small(2)]
    by (simp add: build_image build_image_written length_image isize_max_val)
qed

section \<open>The records\<close>

text \<open>The tests of the parsers on slices of the image hold of the model.\<close>
theorem parsed_image_tests:
  "\<exists>b vh c. build_image True = Some b \<and>
     VolumeHeader_parse (subslice b 0x1E00 128) = Some vh \<and> has_vss_identifier vh \<and>
     VolumeHeader.version vh = 1 \<and> record_type vh = 1 \<and> current_offset vh = 0x1E00 \<and>
     header_catalog_offset vh = CATALOG_OFF \<and>
     parse_catalog_entry (subslice b (as_usize CATALOG_OFF + 128) CATALOG_ENTRY_LEN) = Some (Snapshot (small_store None)) \<and>
     parse_catalog_entry (subslice b (as_usize CATALOG_OFF + 256) CATALOG_ENTRY_LEN) =
       Some (StorePointer STORE_ID STORE_HDR_OFF STORE_BITMAP_OFF) \<and>
     c = subslice b (as_usize CATALOG_OFF) BLOCK_SIZE \<and>
     is_catalog_block c = Some True \<and> catalog_next_block_offset c = Some 0"
proof -
  let ?ws = "store_writes @ catalog_writes" 
  have fit: "fits 0x10000 ?ws" by (simp add: fits_small)
  let ?b = "written 0x10000 ?ws"
  note header = field_written [OF fit, where s = "0x1E00" and k = 128]
  note catalog = field_written [OF fit, where s = "0x4000" and k = "0x4000"]
  note slices = small_writes machine_bytes
  have header_fields: "field (subslice ?b 0x1E00 128) 0 16 = VSS_IDENTIFIER"
    "field (subslice ?b 0x1E00 128) 16 4 = to_le_bytes 4 (1 :: u32)"
    "field (subslice ?b 0x1E00 128) 20 4 = to_le_bytes 4 (1 :: u32)"
    "field (subslice ?b 0x1E00 128) 24 8 = to_le_bytes 8 (0x1E00 :: u64)"
    "field (subslice ?b 0x1E00 128) 48 8 = to_le_bytes 8 CATALOG_OFF"
    by (rule header; simp add: slices CATALOG_OFF_def)+
  have catalog_fields: "field (subslice ?b 0x4000 0x4000) 0 16 = VSS_IDENTIFIER"
    "field (subslice ?b 0x4000 0x4000) 20 4 = to_le_bytes 4 (2 :: u32)"
    "field (subslice ?b 0x4000 0x4000) 40 8 = to_le_bytes 8 (0 :: u64)"
    by (rule catalog; simp add: slices)+
  have entry: "parse_catalog_entry (subslice ?b (0x4080 + i * 128) 128) = Some (entry_at (block_at ?b 0x4000) i)"
    if "i < 2" for i
    using that by (simp add: entry_at_def catalog_entry_of_def block_at_def subslice_subslice vss_consts
        parse_catalog_entry_fields)
  have "entry_at (block_at ?b 0x4000) 0 = Snapshot (small_store None)"
    "entry_at (block_at ?b 0x4000) 1 = StorePointer STORE_ID 0x8000 0xC000"
    by (rule entry_written [OF fit]; simp add: slices small_store_def)+
  with entry [of 0] entry [of 1] header_fields catalog_fields
  show ?thesis
    unfolding build_image_written
    by (simp add: VolumeHeader_parse_fields no_panic field_of_le_bytes vss_consts offset_consts)
qed

text \<open>The tests of the parsers on short and zeroed buffers, of the flags and of UTF-16 decoding.\<close>
theorem record_tests:
  "map_option has_vss_identifier (VolumeHeader_parse (replicate 128 0)) = Some False \<and>
   map_option header_catalog_offset (VolumeHeader_parse (replicate 128 0)) = Some 0 \<and>
   parse_catalog_entry (replicate 128 0) = Some Empty \<and>
   parse_catalog_entry ((replicate 128 0)[0 := 0x01]) = Some Other \<and>
   parse_catalog_entry [] = Some Empty \<and>
   is_catalog_block (replicate BLOCK_SIZE 0) = Some False \<and>
   map_option operating_machine (StoreInfo_parse []) = Some [] \<and>
   map_option service_machine (StoreInfo_parse []) = Some [] \<and>
   map_option (\<lambda>i. attributes i) (StoreInfo_parse []) = Some (AttributeFlags 0) \<and>
   map_option original_offset (BlockDescriptor_parse []) = Some 0 \<and>
   map_option allocation_bitmap (BlockDescriptor_parse []) = Some 0 \<and>
   map_option range_size (StoreBlockRange_parse []) = Some 0 \<and>
   utf16le_string [0x00, 0xd8, 0x41, 0x00, 0x42] = [0xFFFD, 0x41] \<and> utf16le_string [] = []"
proof -
  have one: "from_le_bytes (subslice ((replicate 128 0)[0 := 0x01]) 0 8) = (1 :: u64)"
    using replicate_Suc [of 127 "0 :: u8"] by (simp add: subslice_def from_le_bytes_def take_Cons' numeral_eq_Suc)
  have utf: "utf16le_string [0x00, 0xd8, 0x41, 0x00, 0x42] = [0xFFFD, 0x41]" "utf16le_string [] = []"
    by (simp_all add: utf16le_string_def from_le_bytes_def is_surrogate_def)
  have empty: "field [] i n = replicate n 0" for i n by (simp add: field_def)
  have records: "StoreInfo_parse [] = Some \<lparr>shadow_copy_id = replicate 16 0, shadow_copy_set_id = replicate 16 0,
      snapshot_context = 0, attributes = AttributeFlags 0, operating_machine = [], service_machine = []\<rparr>"
    "BlockDescriptor_parse [] = Some \<lparr>original_offset = 0, relative_store_offset = 0, store_offset = 0,
      flags = BlockDescriptorFlags 0, allocation_bitmap = 0\<rparr>"
    unfolding StoreInfo_parse_fields BlockDescriptor_parse_fields empty by simp_all
  show ?thesis
    unfolding records VolumeHeader_parse_fields parse_catalog_entry_fields StoreBlockRange_parse_fields Let_def
    by (simp add: no_panic field_def one utf)
qed

text \<open>The tests of the diff-area records, of a store block header and of the flags hold of the model.\<close>
theorem parsed_record_tests:
  "\<exists>d r h b. wr_all [(0, to_le_bytes 8 (0x1111222233334444 :: u64)), (8, to_le_bytes 8 (0x5555 :: u64)),
       (16, to_le_bytes 8 (0xaaaabbbbccccdddd :: u64)), (24, to_le_bytes 4 OVERLAY),
       (28, to_le_bytes 4 (0x89abcdef :: u32))] (replicate 32 0) = Some d \<and>
     BlockDescriptor_parse d = Some \<lparr>original_offset = 0x1111222233334444, relative_store_offset = 0x5555,
       store_offset = 0xaaaabbbbccccdddd, flags = BlockDescriptorFlags OVERLAY, allocation_bitmap = 0x89abcdef\<rparr> \<and>
     wr_all [(0, to_le_bytes 8 (0x1000 :: u64)), (8, to_le_bytes 8 (0x2000 :: u64)),
       (16, to_le_bytes 8 (0x4000 :: u64))] (replicate 24 0) = Some r \<and>
     StoreBlockRange_parse r =
       Some \<lparr>range_store_offset = 0x1000, range_relative_offset = 0x2000, range_size = 0x4000\<rparr> \<and>
     build_image True = Some b \<and>
     StoreBlockHeader_parse (subslice b (as_usize STORE_HDR_OFF) 128) = Some h \<and>
     sbh_has_vss_identifier h \<and> sbh_version h = 1 \<and> sbh_record_type h = 4 \<and>
     sbh_store_information_size h = STORE_INFO_SIZE \<and> sbh_next_offset h = 0"
proof -
  let ?d = "[(28, to_le_bytes 4 (0x89abcdef :: u32)), (24, to_le_bytes 4 OVERLAY),
    (16, to_le_bytes 8 (0xaaaabbbbccccdddd :: u64)), (8, to_le_bytes 8 (0x5555 :: u64)),
    (0, to_le_bytes 8 (0x1111222233334444 :: u64))] :: (usize \<times> bytes) list"
  let ?r = "[(16, to_le_bytes 8 (0x4000 :: u64)), (8, to_le_bytes 8 (0x2000 :: u64)),
    (0, to_le_bytes 8 (0x1000 :: u64))] :: (usize \<times> bytes) list"
  have whole: "field (written m ws) i n = x"
    if "fits m ws" "slice_of ws i n = Some x" "i + n \<le> m" for m ws i n x
    using field_written [OF that(1), of 0 i n x m] that(2,3) length_written [OF that(1)] by (simp add: subslice_def)
  have zeros: "replicate m 0 = written m []" for m by simp
  have d: "field (written 32 ?d) 0 8 = to_le_bytes 8 (0x1111222233334444 :: u64)"
    "field (written 32 ?d) 8 8 = to_le_bytes 8 (0x5555 :: u64)"
    "field (written 32 ?d) 16 8 = to_le_bytes 8 (0xaaaabbbbccccdddd :: u64)"
    "field (written 32 ?d) 24 4 = to_le_bytes 4 OVERLAY"
    "field (written 32 ?d) 28 4 = to_le_bytes 4 (0x89abcdef :: u32)"
    by (rule whole; simp)+
  have r: "field (written 24 ?r) 0 8 = to_le_bytes 8 (0x1000 :: u64)"
    "field (written 24 ?r) 8 8 = to_le_bytes 8 (0x2000 :: u64)"
    "field (written 24 ?r) 16 8 = to_le_bytes 8 (0x4000 :: u64)"
    by (rule whole; simp)+
  let ?h = "subslice (small_image []) 0x8000 128"
  have h: "field ?h 0 16 = VSS_IDENTIFIER" "field ?h 16 4 = to_le_bytes 4 (1 :: u32)"
    "field ?h 20 4 = to_le_bytes 4 (4 :: u32)" "field ?h 40 8 = to_le_bytes 8 (0 :: u64)"
    "field ?h 48 8 = to_le_bytes 8 (300 :: u64)"
    by (rule field_written; simp add: fits_small; simp add: small_writes machine_bytes to_le_bytes_0)+
  have "wr_all (rev ?d) (replicate 32 0) = Some (written 32 ?d)" "wr_all (rev ?r) (replicate 24 0) = Some (written 24 ?r)"
    unfolding zeros by (subst wr_all_written; simp add: usize_max_val)+
  moreover have "BlockDescriptor_parse (written 32 ?d) = Some \<lparr>original_offset = 0x1111222233334444,
      relative_store_offset = 0x5555, store_offset = 0xaaaabbbbccccdddd, flags = BlockDescriptorFlags OVERLAY,
      allocation_bitmap = 0x89abcdef\<rparr>"
    "StoreBlockRange_parse (written 24 ?r) =
      Some \<lparr>range_store_offset = 0x1000, range_relative_offset = 0x2000, range_size = 0x4000\<rparr>"
    unfolding BlockDescriptor_parse_fields StoreBlockRange_parse_fields d r by (simp_all add: field_of_le_bytes)
  moreover have "StoreBlockHeader_parse ?h = Some (store_header_of ?h)" "sbh_has_vss_identifier (store_header_of ?h)"
    "sbh_version (store_header_of ?h) = 1" "sbh_record_type (store_header_of ?h) = 4"
    "sbh_store_information_size (store_header_of ?h) = 300" "sbh_next_offset (store_header_of ?h) = 0"
    unfolding store_header_of_def StoreBlockHeader_parse_fields h by (simp_all add: field_of_le_bytes)
  ultimately show ?thesis
    unfolding build_image_written offset_consts by auto
qed

text \<open>The tests of the flags.\<close>
theorem flag_tests:
  "attribute_bits (AttributeFlags ATTR) = ATTR \<and> is_persistent (AttributeFlags ATTR) \<and>
   is_client_accessible (AttributeFlags ATTR) \<and> is_differential (AttributeFlags ATTR) \<and>
   attr_contains (AttributeFlags ATTR) PERSISTENT \<and>
   \<not> is_persistent (AttributeFlags 0) \<and> \<not> is_client_accessible (AttributeFlags 0) \<and>
   \<not> is_differential (AttributeFlags 0) \<and> \<not> attr_contains (AttributeFlags 0) PERSISTENT \<and>
   bits (BlockDescriptorFlags (or FORWARDER OVERLAY)) = or FORWARDER OVERLAY \<and>
   is_forwarder (BlockDescriptorFlags (or FORWARDER OVERLAY)) \<and>
   is_overlay (BlockDescriptorFlags (or FORWARDER OVERLAY)) \<and>
   \<not> is_not_used (BlockDescriptorFlags (or FORWARDER OVERLAY)) \<and>
   contains (BlockDescriptorFlags (or FORWARDER OVERLAY)) FORWARDER \<and>
   is_not_used (BlockDescriptorFlags NOT_USED)"
  by (simp add: ATTR_def is_persistent_def is_client_accessible_def is_differential_def attr_contains_def
      attribute_bits_def PERSISTENT_def CLIENT_ACCESSIBLE_def DIFFERENTIAL_def is_forwarder_def is_overlay_def
      is_not_used_def contains_def bits_def FORWARDER_def OVERLAY_def NOT_USED_def)

end
