(* ===== verification/Vss_Locking.thy ===== *)
theory Vss_Locking
  imports Vss_Source
begin

text \<open>
  \<open>core/src/vfs.rs\<close> with its lock taken apart: threads that share an image source interleave
  between the blocks of a read, not only between reads. The step relation follows \<open>read_at\<close> of
  the source: what is past the end is answered without the lock; then the mutex is locked, the
  loop of \<open>SnapshotState::read_at\<close> runs block by block on the reader inside it, and the guard is
  dropped at the end, on an error, or by a panic, which poisons the mutex. That the reader is
  used by one thread at a time is not part of the steps: it is proved.
\<close>

section \<open>One round of the loop\<close>

definition read_at_iter ::
    "'r read_seek_ops \<Rightarrow> SnapshotState \<Rightarrow> usize \<Rightarrow> u64 \<Rightarrow> bytes \<Rightarrow> 'r \<Rightarrow>
     (io_error, usize \<times> u64) outcome \<times> (bytes \<times> 'r)" where
  "read_at_iter ops st written cursor buf r =
     (let base = saturating_mul (cursor div of_nat BLOCK_SIZE) (of_nat BLOCK_SIZE) in
      or_panic (u64_sub cursor base) (buf, r) (\<lambda>w.
      let within = as_usize w in
      and_then (apsnd (Pair buf) (read_block ops st base r)) (\<lambda>block s.
      or_panic (usize_sub BLOCK_SIZE within) s (\<lambda>avail.
      or_panic (usize_sub (length buf) written) s (\<lambda>rest.
      let n = min avail rest in
      or_panic (usize_add written n) s (\<lambda>written'.
      or_panic (usize_add within n) s (\<lambda>within'.
      or_panic (slice_get block within within') s (\<lambda>src.
      or_panic (copy_into buf written written' src) s (\<lambda>buf'.
      (Ok (written', saturating_add cursor (of_nat n)), (buf', snd s)))))))))))"

lemma read_at_loop_iter:
  "read_at_loop ops st k c buf r =
     (if k < length buf
      then and_then (read_at_iter ops st k c buf r) (\<lambda>(k', c') (buf', r'). read_at_loop ops st k' c' buf' r')
      else (Ok (), (buf, r)))"
  by (subst read_at_loop.simps)
    (auto simp: read_at_iter_def Let_def or_panic_def and_then_def split: option.split prod.split outcome.split)

section \<open>Threads at the lock\<close>

text \<open>A thread is outside the lock, or inside it with the locals of the loop.\<close>

datatype phase = Outside | Reading usize u64 bytes

record 'r lock_state =
  shared :: "'r mutex"
  holder :: "nat option"
  phase_of :: "nat \<Rightarrow> phase"
  waiting :: "nat \<Rightarrow> (u64 \<times> bytes) list"
  answers :: "nat \<Rightarrow> ((VfsError, usize) outcome \<times> bytes) list"

definition want_of :: "u64 \<Rightarrow> u64 \<Rightarrow> bytes \<Rightarrow> usize" where
  "want_of vs off buf =
     (case checked_sub vs off of
        None \<Rightarrow> 0
      | Some remaining \<Rightarrow> min (case usize_try_from remaining of Some n \<Rightarrow> n | None \<Rightarrow> usize_max) (length buf))"

text \<open>The thread \<open>t\<close> has the answer \<open>a\<close> to its first request, and goes on to \<open>qs\<close>.\<close>

definition reply :: "nat \<Rightarrow> (u64 \<times> bytes) list \<Rightarrow> (VfsError, usize) outcome \<times> bytes \<Rightarrow> 'r lock_state \<Rightarrow> 'r lock_state" where
  "reply t qs a w = w\<lparr>waiting := (waiting w)(t := qs), answers := (answers w)(t := answers w t @ [a])\<rparr>"

text \<open>The guard is dropped: the mutex keeps the reader \<open>r\<close>, poisoned by a panic.\<close>

definition unlock :: "nat \<Rightarrow> bool \<Rightarrow> 'r \<Rightarrow> 'r lock_state \<Rightarrow> 'r lock_state" where
  "unlock t panicked r w =
     w\<lparr>shared := \<lparr>poisoned = poisoned (shared w) \<or> panicked, inner = r\<rparr>, holder := None,
       phase_of := (phase_of w)(t := Outside)\<rparr>"

inductive lock_step ::
    "'r read_seek_ops \<Rightarrow> SnapshotState \<Rightarrow> u64 \<Rightarrow> 'r lock_state \<Rightarrow> 'r lock_state \<Rightarrow> bool"
  for ops st vs where
  no_lock: "phase_of w t = Outside \<Longrightarrow> waiting w t = (off, buf) # qs \<Longrightarrow> want_of vs off buf = 0 \<Longrightarrow>
    lock_step ops st vs w (reply t qs (Ok 0, buf) w)"
| lock: "phase_of w t = Outside \<Longrightarrow> waiting w t = (off, buf) # qs \<Longrightarrow> want_of vs off buf \<noteq> 0 \<Longrightarrow>
    holder w = None \<Longrightarrow>
    lock_step ops st vs w
      (w\<lparr>holder := Some t, phase_of := (phase_of w)(t := Reading 0 off (take (want_of vs off buf) buf))\<rparr>)"
| round: "phase_of w t = Reading k c part \<Longrightarrow> k < length part \<Longrightarrow>
    read_at_iter ops st k c part (lock_or_into_inner (shared w)) = (Ok (k', c'), (part', r)) \<Longrightarrow>
    lock_step ops st vs w
      (w\<lparr>shared := (shared w)\<lparr>inner := r\<rparr>, phase_of := (phase_of w)(t := Reading k' c' part')\<rparr>)"
| finish: "phase_of w t = Reading k c part \<Longrightarrow> \<not> k < length part \<Longrightarrow> waiting w t = (off, buf) # qs \<Longrightarrow>
    lock_step ops st vs w
      (reply t qs (Ok (want_of vs off buf), part @ drop (want_of vs off buf) buf)
        (unlock t False (inner (shared w)) w))"
| fail: "phase_of w t = Reading k c part \<Longrightarrow> k < length part \<Longrightarrow> waiting w t = (off, buf) # qs \<Longrightarrow>
    read_at_iter ops st k c part (lock_or_into_inner (shared w)) = (Err e, (part', r)) \<Longrightarrow>
    lock_step ops st vs w
      (reply t qs (Err (VfsIo (ascii ''vss snapshot read'') e), part' @ drop (want_of vs off buf) buf)
        (unlock t False r w))"
| panic: "phase_of w t = Reading k c part \<Longrightarrow> k < length part \<Longrightarrow> waiting w t = (off, buf) # qs \<Longrightarrow>
    read_at_iter ops st k c part (lock_or_into_inner (shared w)) = (Panic, (part', r)) \<Longrightarrow>
    lock_step ops st vs w
      (reply t qs (Panic, part' @ drop (want_of vs off buf) buf) (unlock t True r w))"

definition unlocked :: "'r VssSnapshotSource \<Rightarrow> (nat \<Rightarrow> (u64 \<times> bytes) list) \<Rightarrow> 'r lock_state" where
  "unlocked src requests =
     \<lparr>shared = source_reader src, holder = None, phase_of = \<lambda>_. Outside, waiting = requests, answers = \<lambda>_. []\<rparr>"

section \<open>The lock makes each read one step\<close>

text \<open>\<open>a\<close> is the state where the read inside the lock has not begun: the rest of its loop on the
  present reader is the whole loop on the reader that it found.\<close>

definition simulates :: "'r read_seek_ops \<Rightarrow> SnapshotState \<Rightarrow> u64 \<Rightarrow> 'r lock_state \<Rightarrow> 'r VssSnapshotSource pool \<Rightarrow> bool" where
  "simulates ops st vs w a \<longleftrightarrow> (case a of (src, pending, got) \<Rightarrow>
     pending = waiting w \<and> got = answers w \<and> source_state src = st \<and> source_volume_size src = vs \<and>
     (\<forall>t. phase_of w t \<noteq> Outside \<longleftrightarrow> holder w = Some t) \<and>
     (case holder w of
        None \<Rightarrow> source_reader src = shared w
      | Some t \<Rightarrow> \<exists>k c part off buf qs. phase_of w t = Reading k c part \<and> waiting w t = (off, buf) # qs \<and>
          want_of vs off buf \<noteq> 0 \<and> poisoned (source_reader src) = poisoned (shared w) \<and>
          read_at ops st off (take (want_of vs off buf) buf) (inner (source_reader src)) =
            read_at_loop ops st k c part (inner (shared w))))"

lemma source_read_want:
  "source_read_at ops off buf src =
    (let n = want_of (source_volume_size src) off buf in
     if n = 0 then (Ok 0, (buf, src))
     else case read_at ops (source_state src) off (take n buf) (inner (source_reader src)) of
            (res, (part, r)) \<Rightarrow>
              (case res of
                 Ok _ \<Rightarrow> (Ok n, (part @ drop n buf,
                            src\<lparr>source_reader := (source_reader src)\<lparr>inner := r\<rparr>\<rparr>))
               | Err e \<Rightarrow> (Err (VfsIo (ascii ''vss snapshot read'') e),
                           (part @ drop n buf, src\<lparr>source_reader := (source_reader src)\<lparr>inner := r\<rparr>\<rparr>))
               | Panic \<Rightarrow> (Panic, (part @ drop n buf,
                            src\<lparr>source_reader := \<lparr>poisoned = True, inner = r\<rparr>\<rparr>))))"
  unfolding Let_def by (rule source_read_at_unfold) (simp add: want_of_def)

lemma simulates_start: "simulates ops (source_state src) (source_volume_size src) (unlocked src requests) (src, requests, \<lambda>_. [])"
  by (simp add: simulates_def unlocked_def)

lemma simulatesD:
  assumes "simulates ops st vs w (src, pending, got)"
  shows "pending = waiting w" and "got = answers w" and "source_state src = st" and "source_volume_size src = vs"
    and "\<forall>t. phase_of w t \<noteq> Outside \<longleftrightarrow> holder w = Some t"
    and "holder w = None \<Longrightarrow> source_reader src = shared w"
  using assms unfolding simulates_def by auto

lemma simulates_inside:
  assumes "simulates ops st vs w (src, pending, got)" and "phase_of w t = Reading k c part"
    and "waiting w t = (off, buf) # qs"
  shows "want_of vs off buf \<noteq> 0" and "poisoned (source_reader src) = poisoned (shared w)"
    and "read_at ops st off (take (want_of vs off buf) buf) (inner (source_reader src)) =
      read_at_loop ops st k c part (inner (shared w))"
proof -
  have "holder w = Some t" using simulatesD(5) [OF assms(1)] assms(2) by (metis phase.distinct(1))
  then have "\<exists>k c part off buf qs. phase_of w t = Reading k c part \<and> waiting w t = (off, buf) # qs \<and>
      want_of vs off buf \<noteq> 0 \<and> poisoned (source_reader src) = poisoned (shared w) \<and>
      read_at ops st off (take (want_of vs off buf) buf) (inner (source_reader src)) =
        read_at_loop ops st k c part (inner (shared w))"
    using assms(1) by (simp add: simulates_def)
  then show "want_of vs off buf \<noteq> 0" and "poisoned (source_reader src) = poisoned (shared w)"
    and "read_at ops st off (take (want_of vs off buf) buf) (inner (source_reader src)) =
      read_at_loop ops st k c part (inner (shared w))"
    using assms(2,3) by auto
qed

text \<open>The thread in the lock leaves it: the abstract state makes the whole read.\<close>

lemma simulates_leave:
  assumes "simulates ops st vs w (src, waiting w, answers w)" and "phase_of w t = Reading k c part"
    and "waiting w t = (off, buf) # qs"
    and "read_at_loop ops st k c part (inner (shared w)) = (res, (part', r))"
    and "a = (case res of Ok _ \<Rightarrow> Ok (want_of vs off buf) | Err e \<Rightarrow> Err (VfsIo (ascii ''vss snapshot read'') e) | Panic \<Rightarrow> Panic)"
  shows "\<exists>src'. thread_step (source_read_at ops) (src, waiting w, answers w)
      (src', (waiting w)(t := qs), (answers w)(t := answers w t @ [(a, part' @ drop (want_of vs off buf) buf)])) \<and>
    simulates ops st vs (reply t qs (a, part' @ drop (want_of vs off buf) buf) (unlock t (res = Panic) r w))
      (src', (waiting w)(t := qs), (answers w)(t := answers w t @ [(a, part' @ drop (want_of vs off buf) buf)]))"
proof -
  let ?n = "want_of vs off buf"
  note src = simulatesD(3,4) [OF assms(1)] and others = simulatesD(5) [OF assms(1)]
  note inside = simulates_inside [OF assms(1-3)]
  have t: "holder w = Some t" using others assms(2) by (metis phase.distinct(1))
  note whole = inside(3) [unfolded assms(4)] and n = inside(1) and poison = inside(2)
  define src' where "src' = src\<lparr>source_reader := \<lparr>poisoned = poisoned (shared w) \<or> res = Panic, inner = r\<rparr>\<rparr>"
  have "(source_reader src)\<lparr>inner := r\<rparr> = \<lparr>poisoned = poisoned (shared w), inner = r\<rparr>"
    using poison by (cases "source_reader src") simp
  then have "source_read_at ops off buf src = (a, (part' @ drop ?n buf, src'))"
    unfolding source_read_want Let_def src whole using n assms(5) by (cases res) (simp_all add: src'_def)
  then have "thread_step (source_read_at ops) (src, waiting w, answers w)
      (src', (waiting w)(t := qs), (answers w)(t := answers w t @ [(a, part' @ drop ?n buf)]))"
    by (rule one_read [where pending = "waiting w" and t = t, OF assms(3)])
  moreover have "simulates ops st vs (reply t qs (a, part' @ drop ?n buf) (unlock t (res = Panic) r w))
      (src', (waiting w)(t := qs), (answers w)(t := answers w t @ [(a, part' @ drop ?n buf)]))"
    using src others t by (auto simp: simulates_def reply_def unlock_def src'_def)
  ultimately show ?thesis by blast
qed

lemma lock_step_simulated:
  assumes "lock_step ops st vs w w'" and sim: "simulates ops st vs w (src, waiting w, answers w)"
  shows "\<exists>src'. (thread_step (source_read_at ops))\<^sup>*\<^sup>* (src, waiting w, answers w) (src', waiting w', answers w') \<and>
    simulates ops st vs w' (src', waiting w', answers w')"
  using assms(1)
proof cases
  case (no_lock t off buf qs)
  note src = simulatesD(3,4) [OF sim] and others = simulatesD(5) [OF sim]
  have "source_read_at ops off buf src = (Ok 0, (buf, src))"
    using no_lock src by (simp add: source_read_want)
  then have "thread_step (source_read_at ops) (src, waiting w, answers w) (src, waiting w', answers w')"
    using one_read [where pending = "waiting w" and t = t, OF no_lock(3)] no_lock(1) by (simp add: reply_def)
  moreover have "simulates ops st vs w' (src, waiting w', answers w')"
    using sim others no_lock(1,2) by (auto simp: simulates_def reply_def split: option.splits)
  ultimately show ?thesis by blast
next
  case (lock t off buf qs)
  have "simulates ops st vs w' (src, waiting w', answers w')"
    using simulatesD [OF sim] lock by (auto simp: simulates_def read_at_def)
  with lock(1) show ?thesis by auto
next
  case (round t k c part k' c' part' r)
  note others = simulatesD(5) [OF sim]
  have t: "holder w = Some t" using others round(2) by (metis phase.distinct(1))
  have "read_at_loop ops st k c part (inner (shared w)) = read_at_loop ops st k' c' part' r"
    using round by (subst read_at_loop_iter) simp
  then have "simulates ops st vs w' (src, waiting w', answers w')"
    using sim others t round(1,2) by (auto simp: simulates_def)
  with round(1) show ?thesis by auto
next
  case (finish t k c part off buf qs)
  have "read_at_loop ops st k c part (inner (shared w)) = (Ok (), (part, inner (shared w)))"
    using finish by (subst read_at_loop_iter) simp
  from simulates_leave [OF sim finish(2,4) this refl] finish(1) show ?thesis
    by (auto simp: reply_def unlock_def)
next
  case (fail t k c part off buf qs e part' r)
  have "read_at_loop ops st k c part (inner (shared w)) = (Err e, (part', r))"
    using fail by (subst read_at_loop_iter) simp
  from simulates_leave [OF sim fail(2,4) this refl] fail(1) show ?thesis
    by (auto simp: reply_def unlock_def)
next
  case (panic t k c part off buf qs part' r)
  have "read_at_loop ops st k c part (inner (shared w)) = (Panic, (part', r))"
    using panic by (subst read_at_loop_iter) simp
  from simulates_leave [OF sim panic(2,4) this refl] panic(1) show ?thesis
    by (auto simp: reply_def unlock_def)
qed

lemma lock_steps_simulated:
  assumes "(lock_step ops (source_state src) (source_volume_size src))\<^sup>*\<^sup>* (unlocked src requests) w"
  shows "\<exists>src'. (thread_step (source_read_at ops))\<^sup>*\<^sup>* (src, requests, \<lambda>_. []) (src', waiting w, answers w) \<and>
    simulates ops (source_state src) (source_volume_size src) w (src', waiting w, answers w)"
  using assms
proof induction
  case base
  then show ?case using simulates_start by (force simp: unlocked_def)
next
  case (step w w')
  then obtain src1 where src1: "(thread_step (source_read_at ops))\<^sup>*\<^sup>* (src, requests, \<lambda>_. []) (src1, waiting w, answers w)"
    "simulates ops (source_state src) (source_volume_size src) w (src1, waiting w, answers w)" by blast
  from lock_step_simulated [OF step.hyps(2) src1(2)] src1(1) show ?case
    by (meson rtranclp_trans)
qed

section \<open>No thread waits for ever\<close>

lemma iter_advances:
  assumes "read_at_iter ops st k c part r = (Ok (k', c'), (part', r'))" and "k < length part"
  shows "k < k'" and "length part' = length part"
proof -
  let ?base = "saturating_mul (c div of_nat BLOCK_SIZE) (of_nat BLOCK_SIZE)"
  from assms(1) obtain w block r1 avail rest src where it:
      "u64_sub c ?base = Some w" "usize_sub BLOCK_SIZE (as_usize w) = Some avail"
      "usize_sub (length part) k = Some rest" "usize_add k (min avail rest) = Some k'"
      "copy_into part k k' src = Some part'"
    by (auto simp: read_at_iter_def Let_def or_panic_def and_then_def
        split: option.splits prod.splits outcome.splits)
  have "as_usize w < BLOCK_SIZE"
    using unat_within [OF it(1)] by (simp add: as_usize_def vss_consts)
  then show "k < k'" using it assms(2) by (auto simp: usize_sub_Some usize_add_Some)
  show "length part' = length part" using it(5) by (rule copy_into_length)
qed

definition outcome_of :: "usize \<Rightarrow> (io_error, unit) outcome \<Rightarrow> (VfsError, usize) outcome" where
  "outcome_of n res =
     (case res of Ok _ \<Rightarrow> Ok n | Err e \<Rightarrow> Err (VfsIo (ascii ''vss snapshot read'') e) | Panic \<Rightarrow> Panic)"

text \<open>The thread in the lock can always run its loop to the end and leave.\<close>

lemma loop_runs:
  assumes "phase_of w t = Reading k c part" and "waiting w t = (off, buf) # qs"
  shows "\<exists>a r p. (lock_step ops st vs)\<^sup>*\<^sup>* w (reply t qs a (unlock t p r w))"
  using assms
proof (induction "length part - k" arbitrary: k c part w rule: less_induct)
  case less
  show ?case
  proof (cases "k < length part")
    case False
    from r_into_rtranclp [of "lock_step ops st vs", OF lock_step.finish [OF less.prems(1) False less.prems(2)]]
    show ?thesis by blast
  next
    case True
    obtain res part' r where it: "read_at_iter ops st k c part (lock_or_into_inner (shared w)) = (res, (part', r))"
      by (metis prod.collapse)
    show ?thesis
    proof (cases res)
      case (Ok x)
      obtain k' c' where x: "x = (k', c')" by (cases x)
      note adv = iter_advances [OF it [unfolded Ok x] True]
      let ?w = "w\<lparr>shared := (shared w)\<lparr>inner := r\<rparr>, phase_of := (phase_of w)(t := Reading k' c' part')\<rparr>"
      have step: "lock_step ops st vs w ?w"
        by (rule lock_step.round [OF less.prems(1) True it [unfolded Ok x]])
      have "length part' - k' < length part - k" using adv True by simp
      from less.hyps [OF this, of ?w c'] less.prems(2) obtain a r' p where
        "(lock_step ops st vs)\<^sup>*\<^sup>* ?w (reply t qs a (unlock t p r' ?w))" by auto
      moreover have "unlock t p r' ?w = unlock t p r' w" by (simp add: unlock_def)
      ultimately have "(lock_step ops st vs)\<^sup>*\<^sup>* w (reply t qs a (unlock t p r' w))"
        using step by (metis converse_rtranclp_into_rtranclp)
      then show ?thesis by blast
    next
      case (Err e)
      from r_into_rtranclp [of "lock_step ops st vs", OF lock_step.fail [OF less.prems(1) True less.prems(2) it [unfolded Err]]]
      show ?thesis by blast
    next
      case Panic
      from r_into_rtranclp [of "lock_step ops st vs", OF lock_step.panic [OF less.prems(1) True less.prems(2) it [unfolded Panic]]]
      show ?thesis by blast
    qed
  qed
qed

definition quiet :: "'r lock_state \<Rightarrow> bool" where
  "quiet w \<longleftrightarrow> holder w = None \<and> (\<forall>t. phase_of w t = Outside)"

lemma quiet_serves:
  assumes "quiet w" and "waiting w t = q # qs"
  shows "\<exists>w'. (lock_step ops st vs)\<^sup>*\<^sup>* w w' \<and> quiet w' \<and> waiting w' t = qs"
proof -
  obtain off buf where q: "q = (off, buf)" by (cases q)
  have out: "phase_of w t = Outside" "holder w = None" using assms(1) by (simp_all add: quiet_def)
  show ?thesis
  proof (cases "want_of vs off buf = 0")
    case True
    from lock_step.no_lock [OF out(1) assms(2) [unfolded q] True] assms(1) show ?thesis
      by (intro exI [of _ "reply t qs (Ok 0, buf) w"]) (auto simp: reply_def quiet_def)
  next
    case False
    let ?w = "w\<lparr>holder := Some t, phase_of := (phase_of w)(t := Reading 0 off (take (want_of vs off buf) buf))\<rparr>"
    have step: "lock_step ops st vs w ?w" by (rule lock_step.lock [OF out(1) assms(2) [unfolded q] False out(2)])
    from loop_runs [of ?w t 0 off "take (want_of vs off buf) buf" off buf qs ops st vs] assms(2) q
    obtain a r p where "(lock_step ops st vs)\<^sup>*\<^sup>* ?w (reply t qs a (unlock t p r ?w))" by auto
    with step have "(lock_step ops st vs)\<^sup>*\<^sup>* w (reply t qs a (unlock t p r ?w))"
      by (rule converse_rtranclp_into_rtranclp)
    moreover have "quiet (reply t qs a (unlock t p r ?w))" "waiting (reply t qs a (unlock t p r ?w)) t = qs"
      using assms(1) by (simp_all add: quiet_def reply_def unlock_def)
    ultimately show ?thesis by blast
  qed
qed

lemma quiet_serves_all:
  "quiet w \<Longrightarrow> \<exists>w'. (lock_step ops st vs)\<^sup>*\<^sup>* w w' \<and> quiet w' \<and> waiting w' t = []"
proof (induction "waiting w t" arbitrary: w)
  case Nil
  then show ?case by auto
next
  case (Cons q qs)
  from quiet_serves [OF Cons.prems Cons.hyps(2) [symmetric], of ops st vs] obtain w1 where
    w1: "(lock_step ops st vs)\<^sup>*\<^sup>* w w1" "quiet w1" "waiting w1 t = qs" by blast
  from Cons.hyps(1) [OF w1(3) [symmetric] w1(2)] w1(1) show ?case
    by (meson rtranclp_trans)
qed

lemma all_served:
  assumes "simulates ops st vs w (src, pending, got)"
  shows "\<exists>w'. (lock_step ops st vs)\<^sup>*\<^sup>* w w' \<and> waiting w' t = []"
proof -
  have others: "phase_of w u \<noteq> Outside \<longleftrightarrow> holder w = Some u" for u using simulatesD(5) [OF assms] by simp
  have "\<exists>w1. (lock_step ops st vs)\<^sup>*\<^sup>* w w1 \<and> quiet w1"
  proof (cases "holder w")
    case None
    then have "quiet w" using others by (simp add: quiet_def)
    then show ?thesis by blast
  next
    case (Some u)
    with assms obtain k c part off buf qs where "phase_of w u = Reading k c part" "waiting w u = (off, buf) # qs"
      by (auto simp: simulates_def)
    from loop_runs [OF this, of ops st vs] obtain a r p where
      "(lock_step ops st vs)\<^sup>*\<^sup>* w (reply u qs a (unlock u p r w))" by blast
    moreover have "quiet (reply u qs a (unlock u p r w))"
      using others Some by (simp add: quiet_def reply_def unlock_def) metis
    ultimately show ?thesis by blast
  qed
  with quiet_serves_all show ?thesis by (meson rtranclp_trans)
qed

lemma threads_served_over:
  assumes "volume_reader ops invar contents position" and "source_valid invar contents src"
    and "\<And>t q. q \<in> set (requests t) \<Longrightarrow> length (snd q) \<le> isize_max"
    and "(lock_step ops (source_state src) (source_volume_size src))\<^sup>*\<^sup>* (unlocked src requests) w"
  shows "(\<exists>made. requests t = made @ waiting w t \<and>
      answers w t = map (\<lambda>q. answer (source_image contents src) (fst q) (snd q)) made) \<and>
    (\<exists>w'. (lock_step ops (source_state src) (source_volume_size src))\<^sup>*\<^sup>* w w' \<and>
      answers w' t = map (\<lambda>q. answer (source_image contents src) (fst q) (snd q)) (requests t))"
proof -
  let ?step = "lock_step ops (source_state src) (source_volume_size src)"
  have answered: "\<exists>made. requests t = made @ waiting w t \<and>
      answers w t = map (\<lambda>q. answer (source_image contents src) (fst q) (snd q)) made"
    if run: "?step\<^sup>*\<^sup>* (unlocked src requests) w" for w
  proof -
    obtain src' where "(thread_step (source_read_at ops))\<^sup>*\<^sup>* (src, requests, \<lambda>_. []) (src', waiting w, answers w)"
      using lock_steps_simulated [OF run] by blast
    from image_source.answered_steps [OF source_meets_contract [OF assms(1)] this assms(2,3)] show ?thesis
      by (simp add: image_source.answered_def [OF source_meets_contract [OF assms(1)]])
  qed
  obtain src' where "simulates ops (source_state src) (source_volume_size src) w (src', waiting w, answers w)"
    using lock_steps_simulated [OF assms(4)] by blast
  from all_served [OF this, of t] obtain w' where w': "?step\<^sup>*\<^sup>* w w'" "waiting w' t = []" by blast
  with answered [of w'] assms(4) have "answers w' t =
      map (\<lambda>q. answer (source_image contents src) (fst q) (snd q)) (requests t)"
    by (auto dest: rtranclp_trans)
  with answered [OF assms(4)] w'(1) show ?thesis by blast
qed

section \<open>Properties\<close>

text \<open>C35: over any reader, failing ones included, the lock makes each read of a shared source one
  step. In every run in which threads interleave block by block, at most one thread is inside the
  lock; the answers given so far are those of a run of whole reads, one after the other; and
  whenever the lock is free the source is as that run leaves it.\<close>
theorem locked_reads_are_atomic:
  assumes "(lock_step ops (source_state src) (source_volume_size src))\<^sup>*\<^sup>* (unlocked src requests) w"
  shows "(\<forall>t. phase_of w t \<noteq> Outside \<longleftrightarrow> holder w = Some t) \<and>
    (\<exists>src'. (thread_step (source_read_at ops))\<^sup>*\<^sup>* (src, requests, \<lambda>_. []) (src', waiting w, answers w) \<and>
       (holder w = None \<longrightarrow> source_reader src' = shared w))"
proof -
  obtain src' where "(thread_step (source_read_at ops))\<^sup>*\<^sup>* (src, requests, \<lambda>_. []) (src', waiting w, answers w)"
    and "simulates ops (source_state src) (source_volume_size src) w (src', waiting w, answers w)"
    using lock_steps_simulated [OF assms] by blast
  with simulatesD(5,6) show ?thesis by blast
qed

text \<open>C34: threads that share a source over a volume, interleaving block by block, do not disturb
  each other and none waits for ever: each has for the reads it has made, in its order, the
  answers it would get alone, and every run can be continued until a given thread has the answers
  to all its reads.\<close>
theorem locked_threads_served:
  assumes "volume_reader ops invar contents position" and "source_valid invar contents src"
    and "\<And>t q. q \<in> set (requests t) \<Longrightarrow> length (snd q) \<le> isize_max"
    and "(lock_step ops (source_state src) (source_volume_size src))\<^sup>*\<^sup>* (unlocked src requests) w"
  shows "(\<exists>made. requests t = made @ waiting w t \<and>
      answers w t = map (\<lambda>q. answer (source_image contents src) (fst q) (snd q)) made) \<and>
    (\<exists>w'. (lock_step ops (source_state src) (source_volume_size src))\<^sup>*\<^sup>* w w' \<and>
      answers w' t = map (\<lambda>q. answer (source_image contents src) (fst q) (snd q)) (requests t))"
  by (rule threads_served_over [OF assms])

text \<open>Two threads on a source of four bytes; the first holds the lock before its first block.\<close>

definition two_requests :: "nat \<Rightarrow> (u64 \<times> bytes) list" where
  "two_requests = (\<lambda>_. [])(0 := [(1, [0, 0])], 1 := [(9, [7])])"

definition two_waiting :: "cursor lock_state" where
  "two_waiting = (unlocked (empty_source [1, 2, 3, 4]) two_requests)
     \<lparr>holder := Some 0, phase_of := (\<lambda>_. Outside)(0 := Reading 0 1 [0, 0])\<rparr>"

lemma two_waiting_reached:
  "(lock_step cursor_ops (source_state (empty_source [1, 2, 3, 4])) (source_volume_size (empty_source [1, 2, 3, 4])))\<^sup>*\<^sup>*
     (unlocked (empty_source [1, 2, 3, 4]) two_requests) two_waiting"
proof -
  let ?w = "unlocked (empty_source [1, 2, 3, 4]) two_requests"
  have "want_of (source_volume_size (empty_source [1, 2, 3, 4])) 1 [0, 0] = 2"
    by (simp add: want_of_def empty_source_def checked_sub_def)
  then show ?thesis
    using lock_step.lock [of ?w 0 1 "[0, 0]" "[]" "source_volume_size (empty_source [1, 2, 3, 4])" cursor_ops
        "source_state (empty_source [1, 2, 3, 4])"]
    by (auto simp: two_waiting_def unlocked_def two_requests_def)
qed

theorem locked_reads_are_atomic_witness:
  "(\<forall>t. phase_of two_waiting t \<noteq> Outside \<longleftrightarrow> holder two_waiting = Some t) \<and> holder two_waiting = Some 0 \<and>
   (\<exists>src'. (thread_step (source_read_at cursor_ops))\<^sup>*\<^sup>* (empty_source [1, 2, 3, 4], two_requests, \<lambda>_. [])
      (src', two_requests, \<lambda>_. []))"
  using locked_reads_are_atomic [OF two_waiting_reached] by (auto simp: two_waiting_def unlocked_def)

theorem locked_threads_served_witness:
  "\<exists>w. (lock_step cursor_ops (source_state (empty_source [1, 2, 3, 4]))
      (source_volume_size (empty_source [1, 2, 3, 4])))\<^sup>*\<^sup>* two_waiting w \<and>
    answers w 1 = [(Ok 0, [7])]"
proof -
  have valid: "source_valid cursor_invar cursor_data (empty_source [1, 2, 3, 4])"
    by (rule empty_source_valid) (simp add: isize_max_val)
  have small: "length (snd q) \<le> isize_max" if "q \<in> set (two_requests t)" for t q
    using that by (auto simp: two_requests_def isize_max_val split: if_splits)
  from locked_threads_served [OF volume_reader_cursor valid small two_waiting_reached, where t = 1]
  show ?thesis
    by (simp add: two_requests_def answer_def source_image_def empty_source_def subslice_def)
qed

end
