(* ===== verification/Vss_Source_Tests.thy ===== *)
theory Vss_Source_Tests
  imports Vss_Open_Tests Vss_Locking
begin

text \<open>
  The remaining unit tests of the image source (\<open>core/src/tests.rs\<close>, \<open>vfs_source\<close>): the reader
  with a switch that makes its reads fail, the threads that share a source, and the snapshot's
  view of an unallocated block.
\<close>

section \<open>The reader with a switch\<close>

record switch_reader =
  switched :: cursor
  failing :: bool

text \<open>\<open>std::io::Error::other("synthetic VSS read failure")\<close>; a \<open>read_exact\<close> of no bytes makes no read.\<close>

definition SYNTHETIC :: io_error where
  "SYNTHETIC = OtherIo 1"

definition switch_ops :: "switch_reader read_seek_ops" where
  "switch_ops =
     \<lparr>seek_end = (\<lambda>r. apsnd (\<lambda>c. r\<lparr>switched := c\<rparr>) (seek_end cursor_ops (switched r))),
      seek_start = (\<lambda>p r. apsnd (\<lambda>c. r\<lparr>switched := c\<rparr>) (seek_start cursor_ops p (switched r))),
      read_exact = (\<lambda>n r. if failing r \<and> n \<noteq> 0 then (Inl SYNTHETIC, r)
                          else apsnd (\<lambda>c. r\<lparr>switched := c\<rparr>) (read_exact cursor_ops n (switched r)))\<rparr>"

definition switch_invar :: "switch_reader \<Rightarrow> bool" where
  "switch_invar r \<longleftrightarrow> \<not> failing r \<and> cursor_invar (switched r)"

definition switch_data :: "switch_reader \<Rightarrow> bytes" where
  "switch_data r = cursor_data (switched r)"

definition switch_position :: "switch_reader \<Rightarrow> nat" where
  "switch_position r = cursor_position (switched r)"

lemmas switch_defs = switch_ops_def switch_invar_def switch_data_def switch_position_def

lemma read_seek_switch: "read_seek switch_ops"
proof
  fix n r bs r'
  assume "read_exact switch_ops n r = (Inr bs, r')"
  then show "length bs = n"
    using read_seek.read_exact_fills [OF read_seek_cursor, of n "switched r" bs]
    by (cases "read_exact cursor_ops n (switched r)") (auto simp: switch_ops_def split: if_splits)
qed

interpretation switch: volume_reader switch_ops switch_invar switch_data switch_position
proof (rule volume_reader.intro [OF read_seek_switch], unfold_locales, goal_cases)
  case (1 r)
  then show ?case using volume_reader.fits [OF volume_reader_cursor] by (simp add: switch_defs)
next
  case (2 r)
  then show ?case
    using volume_reader.seek_end_law [OF volume_reader_cursor, of "switched r"] by (auto simp: switch_defs)
next
  case (3 r p)
  then show ?case
    using volume_reader.seek_start_law [OF volume_reader_cursor, of "switched r" p] by (auto simp: switch_defs)
next
  case (4 r n)
  then show ?case
    using volume_reader.read_exact_law [OF volume_reader_cursor, of "switched r" n] by (auto simp: switch_defs)
qed

text \<open>\<open>fail.store(true, ..)\<close>: the flag is shared with the reader inside the source.\<close>

definition switch_on :: "switch_reader VssSnapshotSource \<Rightarrow> switch_reader VssSnapshotSource" where
  "switch_on src = src\<lparr>source_reader := (source_reader src)\<lparr>inner := (inner (source_reader src))\<lparr>failing := True\<rparr>\<rparr>\<rparr>"

lemma image_state_spec: "snapshot_state_spec image (volume_stores image) 0 = Ok image_snapshot"
  by (simp add: snapshot_state_spec_def image_stores image_snapshot_def) (simp add: test_store_def)

lemma failing_block:
  assumes "failing r"
  shows "\<exists>r'. read_block switch_ops image_snapshot 0x28000 r = (Err SYNTHETIC, r')"
proof -
  have "block_map image_snapshot 0x28000 =
      Some [test_descriptor 0x28000 0x1C000 0 0, test_descriptor 0x28000 0x24000 4 0xFFFFFFFF]"
    using image_state(1) image_groups(3)
    by (simp add: image_snapshot_def state_of_def saturating_add_def vss_consts)
  moreover have "find is_plain (rev [test_descriptor 0x28000 0x1C000 0 0, test_descriptor 0x28000 0x24000 4 0xFFFFFFFF]) =
      Some (test_descriptor 0x28000 0x1C000 0 0)"
    by (simp add: plain_and_patch)
  moreover have "snapshot_volume_size image_snapshot = 0x40000"
    by (simp add: image_snapshot_def state_of_def length_image)
  ultimately show ?thesis
    using assms
    by (simp add: read_block_def read_block_at_def saturating_mul_def checked_add_def vss_consts test_descriptor_def
        and_then_def switch_ops_def cursor_ops_def)
qed

section \<open>The tests\<close>

text \<open>The test of the switched reader holds of the model: opened while the reader works, a source
  whose reader then fails answers a read with the reader's error, not with zeros.\<close>
theorem failing_source_test:
  "build_reconstruct_image = Some image \<and>
   (\<exists>src. source_open switch_ops \<lparr>switched = cursor_new image, failing = False\<rparr> 0 = Ok src \<and>
      fst (source_read_at switch_ops R_BLK10 (replicate 512 0) (switch_on src)) =
        Err (VfsIo (ascii ''vss snapshot read'') SYNTHETIC))"
proof
  let ?r = "\<lparr>switched = cursor_new image, failing = False\<rparr>"
  have "reads switch_invar switch_data image ?r"
    by (simp add: reads_def switch_defs length_image isize_max_val)
  from source_open_over [OF switch.volume_reader_axioms this, of 0] image_state_spec obtain src where
    src: "source_open switch_ops ?r 0 = Ok src" "source_state src = image_snapshot" "unat (source_len src) = 0x40000"
    by (auto simp: length_image)
  have size: "source_volume_size src = 0x40000"
    using src(3) by (simp add: source_len_def word_unat_eq_iff)
  let ?on = "inner (source_reader (switch_on src))"
  have "failing ?on" by (simp add: switch_on_def)
  from failing_block [OF this] obtain r' where block: "read_block switch_ops image_snapshot 0x28000 ?on = (Err SYNTHETIC, r')"
    by blast
  have "saturating_mul (R_BLK10 div of_nat BLOCK_SIZE) (of_nat BLOCK_SIZE) = (0x28000 :: u64)"
    by (simp add: saturating_mul_def test_consts)
  from read_at_step [OF _ _ refl refl, of 0 "replicate 512 0" switch_ops image_snapshot R_BLK10 ?on "Err SYNTHETIC" r',
      unfolded this] block
  have read: "read_at switch_ops image_snapshot R_BLK10 (replicate 512 0) ?on = (Err SYNTHETIC, (replicate 512 0, r'))"
    by (simp add: read_at_def isize_max_val)
  have "want_of 0x40000 R_BLK10 (replicate 512 0) = 512"
    by (simp add: want_of_def checked_sub_def test_consts)
  then have "fst (source_read_at switch_ops R_BLK10 (replicate 512 0) (switch_on src)) =
      Err (VfsIo (ascii ''vss snapshot read'') SYNTHETIC)"
    using read src(2) size unfolding source_read_want by (simp add: switch_on_def Let_def)
  with src(1) show "\<exists>src. source_open switch_ops ?r 0 = Ok src \<and>
      fst (source_read_at switch_ops R_BLK10 (replicate 512 0) (switch_on src)) =
        Err (VfsIo (ascii ''vss snapshot read'') SYNTHETIC)" by blast
qed (rule build_image)

text \<open>Four threads that read block 10, each once.\<close>

definition four_requests :: "nat \<Rightarrow> (u64 \<times> bytes) list" where
  "four_requests t = (if t < 4 then [(R_BLK10, replicate 512 0)] else [])"

text \<open>The test of the threads holds of the model in every interleaving of their blocks: a thread that
  has returned has the bytes of the snapshot, and from every point each thread can return.\<close>
theorem shared_source_test:
  "\<exists>src. source_open cursor_ops (cursor_new image) 0 = Ok src \<and>
     (\<forall>w t. (lock_step cursor_ops (source_state src) (source_volume_size src))\<^sup>*\<^sup>* (unlocked src four_requests) w \<longrightarrow>
        answers w t \<in> {[], [(Ok 512, replicate 512 0x77)]} \<and>
        (t < 4 \<longrightarrow> (\<exists>w'. (lock_step cursor_ops (source_state src) (source_volume_size src))\<^sup>*\<^sup>* w w' \<and>
          answers w' t = [(Ok 512, replicate 512 0x77)])))"
proof -
  have r: "reads cursor_invar cursor_data image (cursor_new image)"
    by (simp add: cursor_reads length_image isize_max_val)
  from source_open_over [OF volume_reader_cursor r, of 0] image_state_spec obtain src where
    src: "source_open cursor_ops (cursor_new image) 0 = Ok src" "source_valid cursor_invar cursor_data src"
      "source_image cursor_data src = snapshot_image image image_snapshot" by auto
  have small: "length (snd q) \<le> isize_max" if "q \<in> set (four_requests t)" for t q
    using that by (auto simp: four_requests_def isize_max_val split: if_splits)
  have "subslice (snapshot_image image image_snapshot) 0x28000 512 = replicate 512 0x77"
    using range_in_block [of 0 512 "0x28000" 10] snapshot_image_range [of "0x28000" 512 image image_snapshot]
      image_snapshot_block(3) by (simp add: test_consts length_image)
  then have bytes: "answer (source_image cursor_data src) R_BLK10 (replicate 512 0) = (Ok 512, replicate 512 0x77)"
    by (simp add: src(3) answer_def length_image Let_def test_consts)
  have "answers w t \<in> {[], [(Ok 512, replicate 512 0x77)]}" and "t < 4 \<Longrightarrow>
      \<exists>w'. (lock_step cursor_ops (source_state src) (source_volume_size src))\<^sup>*\<^sup>* w w' \<and>
        answers w' t = [(Ok 512, replicate 512 0x77)]"
    if run: "(lock_step cursor_ops (source_state src) (source_volume_size src))\<^sup>*\<^sup>* (unlocked src four_requests) w" for w t
  proof -
    let ?ask = "map (\<lambda>q. answer (source_image cursor_data src) (fst q) (snd q))"
    have "(\<exists>made. four_requests t = made @ waiting w t \<and> answers w t = ?ask made) \<and>
        (\<exists>w'. (lock_step cursor_ops (source_state src) (source_volume_size src))\<^sup>*\<^sup>* w w' \<and>
          answers w' t = ?ask (four_requests t))"
      by (rule threads_served_over [OF volume_reader_cursor src(2) _ run]) (rule small)
    moreover have "made = [] \<or> made = [(R_BLK10, replicate 512 0)]" if "four_requests t = made @ rest" for made rest
      using that by (auto simp: four_requests_def Cons_eq_append_conv split: if_splits)
    ultimately show "answers w t \<in> {[], [(Ok 512, replicate 512 0x77)]}" and "t < 4 \<Longrightarrow>
        \<exists>w'. (lock_step cursor_ops (source_state src) (source_volume_size src))\<^sup>*\<^sup>* w w' \<and>
          answers w' t = [(Ok 512, replicate 512 0x77)]"
      using bytes by (fastforce, auto simp: four_requests_def)
  qed
  with src(1) show ?thesis by blast
qed

text \<open>The tests of the snapshot's view and of the empty buffer hold of the model: an unallocated block
  reads as zeros though the live volume has bytes there, and an empty buffer takes none.\<close>
theorem snapshot_view_test:
  "\<exists>src. source_open cursor_ops (cursor_new image) 0 = Ok src \<and>
     test_source_read R_BLK3 (replicate 512 0xEE) src = (Ok 512, replicate 512 0) \<and>
     test_source_read 0 [] src = (Ok 0, [])"
proof -
  obtain src where src: "source_open cursor_ops (cursor_new image) 0 = Ok src"
    and read: "\<And>off buf. length buf \<le> isize_max \<Longrightarrow>
      test_source_read off buf src = answer (snapshot_image image image_snapshot) off buf"
    by (rule test_source) blast
  have "subslice (snapshot_image image image_snapshot) 0xC000 512 = replicate 512 0"
    using range_in_block [of 0 512 "0xC000" 3] snapshot_image_range [of "0xC000" 512 image image_snapshot]
      image_snapshot_block(2) by (simp add: test_consts length_image)
  then have "test_source_read R_BLK3 (replicate 512 0xEE) src = (Ok 512, replicate 512 0)"
    by (simp add: read answer_def Let_def length_image test_consts isize_max_val)
  moreover have "test_source_read 0 [] src = (Ok 0, [])"
    by (simp add: read answer_def subslice_def)
  ultimately show ?thesis using src by blast
qed

end
