(* ===== verification/Vsc_Forensic_Tests.thy ===== *)
theory Vsc_Forensic_Tests
  imports Vss_Test_Images Vsc_Forensic_Props
begin

unbundle bit_operations_syntax

text \<open>
  The unit tests of the analyzer, replayed on the model: the images of
  \<open>forensic/src/tests.rs\<close>, for stores of any tag, sequence number and attributes, and the
  anomalies the audit reports of them.
\<close>

section \<open>The images\<close>

definition TEST_CTIME :: u64 where "TEST_CTIME = 133173418808254268"
definition TEST_CATALOG_OFF :: u64 where "TEST_CATALOG_OFF = 0x4000"
definition STORE_BASE :: u64 where "STORE_BASE = 0x8000"
definition STORE_STRIDE :: u64 where "STORE_STRIDE = 0x4000"
definition TEST_INFO_SIZE :: u64 where "TEST_INFO_SIZE = 300"

lemmas audit_image_consts = TEST_CATALOG_OFF_def STORE_BASE_def STORE_STRIDE_def TEST_INFO_SIZE_def as_usize_def

record StoreSpec =
  spec_store_id :: bytes
  spec_sequence :: u64
  spec_volume_size :: u64
  spec_creation_time :: u64
  spec_attr :: u32

definition sid :: "u8 \<Rightarrow> bytes" where
  "sid tag = (replicate 16 0)[0 := tag]"

definition spec :: "u8 \<Rightarrow> u64 \<Rightarrow> u32 \<Rightarrow> StoreSpec" where
  "spec tag sq attr = \<lparr>spec_store_id = sid tag, spec_sequence = sq, spec_volume_size = 1024 * 1024 * 1024,
     spec_creation_time = TEST_CTIME, spec_attr = attr\<rparr>"

text \<open>The loop over \<open>specs.iter().enumerate()\<close>, from index \<open>i\<close> on.\<close>

fun build_stores :: "usize \<Rightarrow> StoreSpec list \<Rightarrow> bool \<Rightarrow> bytes \<Rightarrow> bytes option" where
  "build_stores i [] with_type3 b = Some b"
| "build_stores i (s # ss) with_type3 b =
     (let hoff = STORE_BASE + STORE_STRIDE * of_nat i; e02 = as_usize TEST_CATALOG_OFF + 128 + i * 256
      in do {
        b \<leftarrow> wr_all
          [(e02, to_le_bytes 8 (2 :: u64)), (e02 + 8, to_le_bytes 8 (spec_volume_size s)), (e02 + 16, spec_store_id s),
           (e02 + 32, to_le_bytes 8 (spec_sequence s)), (e02 + 40, to_le_bytes 8 (0x40 :: u64)),
           (e02 + 48, to_le_bytes 8 (spec_creation_time s))] b;
        b \<leftarrow> (if \<not> with_type3 then Some b
             else let e03 = e02 + 128; h = as_usize hoff; si = h + 128; opm = utf16le_bytes (ascii ''HOST'')
               in wr_all
                 [(e03, to_le_bytes 8 (3 :: u64)), (e03 + 16, spec_store_id s), (e03 + 32, to_le_bytes 8 hoff),
                  (h, VSS_IDENTIFIER), (h + 16, to_le_bytes 4 (1 :: u32)), (h + 20, to_le_bytes 4 (4 :: u32)),
                  (h + 48, to_le_bytes 8 TEST_INFO_SIZE), (si + 16, spec_store_id s), (si + 32, spec_store_id s),
                  (si + 48, to_le_bytes 4 (1 :: u32)), (si + 56, to_le_bytes 4 (spec_attr s)),
                  (si + 64, to_le_bytes 2 (of_nat (length opm) :: u16)), (si + 66, opm)] b);
        build_stores (i + 1) ss with_type3 b
      })"

definition build_full :: "StoreSpec list \<Rightarrow> bool \<Rightarrow> bool \<Rightarrow> bool \<Rightarrow> bytes option" where
  "build_full specs header catalog with_type3 =
     (let n = of_nat (max (length specs) 1); img_len = as_usize (STORE_BASE + STORE_STRIDE * n + 0x1000);
          c = as_usize TEST_CATALOG_OFF
      in do {
        let b = replicate img_len 0;
        b \<leftarrow> (if header then do {
               b \<leftarrow> wr_all
                 [(0x1E00, VSS_IDENTIFIER), (0x1E00 + 16, to_le_bytes 4 (1 :: u32)),
                  (0x1E00 + 20, to_le_bytes 4 (1 :: u32)), (0x1E00 + 24, to_le_bytes 8 (0x1E00 :: u64))] b;
               if catalog then wr b (0x1E00 + 48) (to_le_bytes 8 TEST_CATALOG_OFF) else Some b
             } else Some b);
        if header \<and> catalog then do {
          b \<leftarrow> wr_all
            [(c, VSS_IDENTIFIER), (c + 16, to_le_bytes 4 (1 :: u32)), (c + 20, to_le_bytes 4 (2 :: u32)),
             (c + 40, to_le_bytes 8 (0 :: u64))] b;
          build_stores 0 specs with_type3 b
        } else Some b
      })"

definition build :: "StoreSpec list \<Rightarrow> bool \<Rightarrow> bool \<Rightarrow> bytes option" where
  "build specs header catalog = build_full specs header catalog True"

definition PERSISTENT_CA :: u32 where
  "PERSISTENT_CA = PERSISTENT OR CLIENT_ACCESSIBLE"

text \<open>The writes of a store, the last one first.\<close>

definition entry_writes :: "usize \<Rightarrow> StoreSpec \<Rightarrow> (usize \<times> bytes) list" where
  "entry_writes i s =
     (let e = 0x4080 + i * 256 in
      [(e + 48, to_le_bytes 8 (spec_creation_time s)), (e + 40, to_le_bytes 8 (0x40 :: u64)),
       (e + 32, to_le_bytes 8 (spec_sequence s)), (e + 16, spec_store_id s),
       (e + 8, to_le_bytes 8 (spec_volume_size s)), (e, to_le_bytes 8 (2 :: u64))])"

definition info_writes :: "usize \<Rightarrow> StoreSpec \<Rightarrow> (usize \<times> bytes) list" where
  "info_writes i s =
     (let e = 0x4100 + i * 256; h = 0x8000 + i * 0x4000 in
      [(h + 194, utf16le_bytes (ascii ''HOST'')), (h + 192, to_le_bytes 2 (8 :: u16)),
       (h + 184, to_le_bytes 4 (spec_attr s)), (h + 176, to_le_bytes 4 (1 :: u32)), (h + 160, spec_store_id s),
       (h + 144, spec_store_id s), (h + 48, to_le_bytes 8 (300 :: u64)), (h + 20, to_le_bytes 4 (4 :: u32)),
       (h + 16, to_le_bytes 4 (1 :: u32)), (h, VSS_IDENTIFIER), (e + 32, to_le_bytes 8 (of_nat h :: u64)),
       (e + 16, spec_store_id s), (e, to_le_bytes 8 (3 :: u64))])"

definition header_writes :: "(usize \<times> bytes) list" where
  "header_writes =
     [(0x1E18, to_le_bytes 8 (0x1E00 :: u64)), (0x1E14, to_le_bytes 4 (1 :: u32)),
      (0x1E10, to_le_bytes 4 (1 :: u32)), (0x1E00, VSS_IDENTIFIER)]"

definition catalog_block_writes :: "(usize \<times> bytes) list" where
  "catalog_block_writes =
     [(0x4028, to_le_bytes 8 (0 :: u64)), (0x4014, to_le_bytes 4 (2 :: u32)),
      (0x4010, to_le_bytes 4 (1 :: u32)), (0x4000, VSS_IDENTIFIER), (0x1E30, to_le_bytes 8 (0x4000 :: u64))] @
     header_writes"

lemma host_bytes: "length (utf16le_bytes (ascii ''HOST'')) = 8"
  by (simp add: ascii_def utf16le_bytes_def encode_utf16_def encode_char_def)

lemma length_sid [simp]: "length (sid tag) = 16"
  by (simp add: sid_def)

lemma spec_sel [simp]:
  "spec_store_id (spec t q a) = sid t" "spec_sequence (spec t q a) = q" "spec_volume_size (spec t q a) = 0x40000000"
  "spec_creation_time (spec t q a) = TEST_CTIME" "spec_attr (spec t q a) = a"
  by (simp_all add: spec_def)

lemmas audit_writes = entry_writes_def info_writes_def header_writes_def catalog_block_writes_def

lemma built_images:
  "build_full [] True False True = Some (written 0xD000 header_writes)"
  "build_full [] False False True = Some (written 0xD000 [])"
  "build_full [spec t q a] True True True =
     Some (written 0xD000 (info_writes 0 (spec t q a) @ entry_writes 0 (spec t q a) @ catalog_block_writes))"
  "build_full [spec t q a] True True False =
     Some (written 0xD000 (entry_writes 0 (spec t q a) @ catalog_block_writes))"
  "build_full [spec t q a, spec t' q' a'] True True True =
     Some (written 0x11000 (info_writes 1 (spec t' q' a') @ entry_writes 1 (spec t' q' a') @
       info_writes 0 (spec t q a) @ entry_writes 0 (spec t q a) @ catalog_block_writes))"
proof -
  have zeros: "replicate n 0 = written n []" for n by simp
  have len: "(0xD000 :: nat) \<le> usize_max" "(0x11000 :: nat) \<le> usize_max" by (simp_all add: usize_max_val)
  note sizes = audit_image_consts zeros len host_bytes
  note run = wr_all_written wr_written
  show "build_full [] True False True = Some (written 0xD000 header_writes)"
    and "build_full [] False False True = Some (written 0xD000 [])"
    unfolding build_full_def Let_def
    by (simp_all add: sizes run del: written_Nil wr_all.simps) (simp_all add: audit_writes)
  show "build_full [spec t q a] True True True =
     Some (written 0xD000 (info_writes 0 (spec t q a) @ entry_writes 0 (spec t q a) @ catalog_block_writes))"
    "build_full [spec t q a] True True False =
     Some (written 0xD000 (entry_writes 0 (spec t q a) @ catalog_block_writes))"
    unfolding build_full_def Let_def
    by (simp_all add: sizes run del: written_Nil wr_all.simps) (simp_all add: audit_writes)
  show "build_full [spec t q a, spec t' q' a'] True True True =
     Some (written 0x11000 (info_writes 1 (spec t' q' a') @ entry_writes 1 (spec t' q' a') @
       info_writes 0 (spec t q a) @ entry_writes 0 (spec t q a) @ catalog_block_writes))"
    unfolding build_full_def Let_def
    by (simp_all add: sizes run del: written_Nil wr_all.simps) (simp_all add: audit_writes)
qed

section \<open>What the images hold\<close>

definition listed :: "u8 \<Rightarrow> u64 \<Rightarrow> u64 option \<Rightarrow> StoreDescriptor" where
  "listed t q p = \<lparr>store_id = sid t, volume_size = 0x40000000, sequence = q, snapshot_flags = 0x40,
     creation_time = TEST_CTIME, store_header_offset = p, store_bitmap_offset = map_option (\<lambda>_. 0) p\<rparr>"

lemma audit_catalogs:
  "test_catalog 0xD000 (info_writes 0 (spec t q a) @ entry_writes 0 (spec t q a) @ catalog_block_writes) 0
     [Snapshot (listed t q None), StorePointer (sid t) 0x8000 0]"
  "test_catalog 0xD000 (entry_writes 0 (spec t q a) @ catalog_block_writes) 0 [Snapshot (listed t q None)]"
  "test_catalog 0x11000 (info_writes 1 (spec t' q' a') @ entry_writes 1 (spec t' q' a') @
       info_writes 0 (spec t q a) @ entry_writes 0 (spec t q a) @ catalog_block_writes) 0
     [Snapshot (listed t q None), StorePointer (sid t) 0x8000 0,
      Snapshot (listed t' q' None), StorePointer (sid t') 0xC000 0]"
  unfolding test_catalog_def
  by (simp_all add: audit_writes listed_def host_bytes to_le_bytes_0)

lemma audit_stores:
  "volume_stores (written 0xD000 (info_writes 0 (spec t q a) @ entry_writes 0 (spec t q a) @ catalog_block_writes)) =
     [listed t q (Some 0x8000)]"
  "volume_stores (written 0xD000 (entry_writes 0 (spec t q a) @ catalog_block_writes)) = [listed t q None]"
  "volume_stores (written 0x11000 (info_writes 1 (spec t' q' a') @ entry_writes 1 (spec t' q' a') @
       info_writes 0 (spec t q a) @ entry_writes 0 (spec t q a) @ catalog_block_writes)) =
     [listed t q (Some 0x8000), listed t' q' (Some 0xC000)]"
  by (subst stores_written(3) [OF audit_catalogs(1)] stores_written(3) [OF audit_catalogs(2)]
      stores_written(3) [OF audit_catalogs(3)]; simp add: apply_entries_def listed_def)+

text \<open>The attributes in the information of the store at \<open>h\<close>.\<close>

lemma attributes_written:
  assumes "fits m ws" and "h + 0x1000 \<le> m"
    and "slice_of ws (h + 48) 8 = Some (to_le_bytes 8 (300 :: u64))"
    and "slice_of ws (h + 184) 4 = Some (to_le_bytes 4 (a :: u32))"
  shows "store_info_len (written m ws) h = 300"
    and "attributes (store_info_of (subslice (written m ws) (h + 128) 300)) = AttributeFlags a"
proof -
  have "sbh_store_information_size (store_header_of (subslice (written m ws) h 128)) = 300"
    using field_written [OF assms(1), where s = h and k = 128 and i = 48 and n = 8] assms(2,3)
    by (simp add: store_header_of_def StoreBlockHeader_parse_fields field_of_le_bytes)
  then show "store_info_len (written m ws) h = 300"
    using assms(2) by (simp add: store_info_len_def length_written [OF assms(1)])
  have "field (subslice (written m ws) (h + 128) 300) 56 4 = to_le_bytes 4 a"
    using field_written [OF assms(1), where s = "h + 128" and k = 300 and i = 56 and n = 4] assms(2,4)
    by (simp add: add.commute [of 184])
  then show "attributes (store_info_of (subslice (written m ws) (h + 128) 300)) = AttributeFlags a"
    by (simp add: store_info_of_def StoreInfo_parse_fields Let_def field_of_le_bytes)
qed

lemma non_persistent_written:
  assumes "fits m ws" and "unat h + 0x1000 \<le> m"
    and "slice_of ws (unat h + 48) 8 = Some (to_le_bytes 8 (300 :: u64))"
    and "slice_of ws (unat h + 184) 4 = Some (to_le_bytes 4 (a :: u32))"
    and "i < length ds" and "ds ! i = listed t q (Some h)"
  shows "non_persistent_spec uuid (written m ws) ds i =
    (if is_persistent (AttributeFlags a) then [] else [StoreNonPersistent (uuid (sid t)) a])"
  using assms(2,5,6) attributes_written [OF assms(1-4)]
  by (simp add: non_persistent_spec_def store_info_spec_def length_written [OF assms(1)] listed_def
      attribute_bits_def store_id_string_def format_guid_def)

section \<open>The tests\<close>

text \<open>\<open>VssVolume::open(..).unwrap()\<close> and \<open>audit\<close>.\<close>

definition test_audit ::
    "('sev, 'cat) vocabulary \<Rightarrow> (bytes \<Rightarrow> rstring) \<Rightarrow> bytes option \<Rightarrow> 'sev Anomaly list option" where
  "test_audit voc uuid img = do {
     b \<leftarrow> img;
     case open_volume cursor_ops (cursor_new b) of
       Ok vol \<Rightarrow> fst (audit voc uuid cursor_ops vol)
     | Err e \<Rightarrow> None
     | Panic \<Rightarrow> None
   }"

lemma test_audit_result:
  assumes "length v \<le> isize_max"
  shows "test_audit voc uuid (Some v) =
    Some (map (Anomaly_new voc) (audit_spec uuid v (volume_has_header v) (volume_stores v)))"
proof -
  have r: "reads cursor_invar cursor_data v (cursor_new v)" using assms by (simp add: cursor_reads)
  from open_volume_over [OF volume_reader_cursor r] obtain vol where
    vol: "open_volume cursor_ops (cursor_new v) = Ok vol" "has_vss_header vol = volume_has_header v"
      "stores vol = volume_stores v" "reads cursor_invar cursor_data v (reader vol)" "total_size vol = of_nat (length v)"
    by auto
  from audit_over [OF volume_reader_cursor vol(4,5), of voc uuid] vol(1-3) show ?thesis
    by (simp add: test_audit_def)
qed

text \<open>The tests of the audit hold of the model, for stores of every tag, sequence number and
  attributes: a header without a catalog is \<open>NoShadowCopies\<close> alone and no header is nothing; a
  store is present, and flagged exactly when its attributes lack the persistent bit; a store
  without a pointer is present and not flagged; two stores have a gap exactly when the lower
  sequence number is at least two below the higher one.\<close>
theorem audit_tests:
  "test_audit voc uuid (build [] True False) = Some [Anomaly_new voc NoShadowCopies] \<and>
   test_audit voc uuid (build [] False False) = Some [] \<and>
   test_audit voc uuid (build [spec t q a] True True) = Some (map (Anomaly_new voc)
     (StorePresent (uuid (sid t)) q (1024 * 1024 * 1024) TEST_CTIME #
      (if is_persistent (AttributeFlags a) then [] else [StoreNonPersistent (uuid (sid t)) a]))) \<and>
   test_audit voc uuid (build_full [spec t q a] True True False) = Some (map (Anomaly_new voc)
     [StorePresent (uuid (sid t)) q (1024 * 1024 * 1024) TEST_CTIME]) \<and>
   test_audit voc uuid (build [spec t q a, spec t' q' a'] True True) = Some (map (Anomaly_new voc)
     ([StorePresent (uuid (sid t)) q (1024 * 1024 * 1024) TEST_CTIME,
       StorePresent (uuid (sid t')) q' (1024 * 1024 * 1024) TEST_CTIME] @
      (if unat (min q q') + 1 < unat (max q q') then [SequenceGap (min q q') (max q q')] else []) @
      (if is_persistent (AttributeFlags a) then [] else [StoreNonPersistent (uuid (sid t)) a]) @
      (if is_persistent (AttributeFlags a') then [] else [StoreNonPersistent (uuid (sid t')) a'])))"
proof (intro conjI)
  let ?one = "info_writes 0 (spec t q a) @ entry_writes 0 (spec t q a) @ catalog_block_writes"
  let ?bare = "entry_writes 0 (spec t q a) @ catalog_block_writes"
  let ?two = "info_writes 1 (spec t' q' a') @ entry_writes 1 (spec t' q' a') @ ?one"
  have fits: "fits 0xD000 header_writes" "fits 0xD000 ?one" "fits 0xD000 ?bare" "fits 0x11000 ?two"
    using audit_catalogs by (auto simp: test_catalog_def) (simp add: audit_writes)
  note run = test_audit_result build_def built_images isize_max_val audit_spec_def
  have "volume_has_header (written 0xD000 header_writes)" "volume_catalog_offset (written 0xD000 header_writes) = 0"
    using header_of_written [OF fits(1), of VSS_IDENTIFIER 0] by (simp_all add: audit_writes to_le_bytes_0)
  then show "test_audit voc uuid (build [] True False) = Some [Anomaly_new voc NoShadowCopies]"
    by (simp add: run length_written [OF fits(1)] volume_stores_def)
  have "\<not> volume_has_header (replicate n 0)" for n
    by (simp add: volume_has_header_def header_of_def volume_header_of_def VolumeHeader_parse_fields field_def)
  then show "test_audit voc uuid (build [] False False) = Some []"
    by (simp add: run volume_stores_def gap_kinds_def)
  have present: "store_present uuid (listed t q p) = StorePresent (uuid (sid t)) q 0x40000000 TEST_CTIME" for t q p
    by (simp add: store_present_def listed_def store_id_string_def format_guid_def)
  have sq: "sequence (listed t q p) = q" for t q p by (simp add: listed_def)
  have flagged: "non_persistent_spec uuid (written 0xD000 ?one) [listed t q (Some 0x8000)] 0 =
      (if is_persistent (AttributeFlags a) then [] else [StoreNonPersistent (uuid (sid t)) a])"
    by (rule non_persistent_written [OF fits(2)]) (simp_all add: audit_writes host_bytes)
  show "test_audit voc uuid (build [spec t q a] True True) = Some (map (Anomaly_new voc)
     (StorePresent (uuid (sid t)) q (1024 * 1024 * 1024) TEST_CTIME #
      (if is_persistent (AttributeFlags a) then [] else [StoreNonPersistent (uuid (sid t)) a])))"
    by (simp add: run length_written [OF fits(2)] audit_stores(1) present flagged gap_kinds_def)
  have "non_persistent_spec uuid (written 0xD000 ?bare) [listed t q None] 0 = []"
    by (simp add: non_persistent_spec_def store_info_spec_def listed_def)
  then show "test_audit voc uuid (build_full [spec t q a] True True False) = Some (map (Anomaly_new voc)
     [StorePresent (uuid (sid t)) q (1024 * 1024 * 1024) TEST_CTIME])"
    by (simp add: run length_written [OF fits(3)] audit_stores(2) present gap_kinds_def)
  let ?ds = "[listed t q (Some 0x8000), listed t' q' (Some 0xC000)]"
  have flagged: "non_persistent_spec uuid (written 0x11000 ?two) ?ds 0 =
      (if is_persistent (AttributeFlags a) then [] else [StoreNonPersistent (uuid (sid t)) a])"
    "non_persistent_spec uuid (written 0x11000 ?two) ?ds 1 =
      (if is_persistent (AttributeFlags a') then [] else [StoreNonPersistent (uuid (sid t')) a'])"
    by (rule non_persistent_written [OF fits(4)]; simp add: audit_writes host_bytes)+
  have gaps: "gap_kinds ?ds =
      (if unat (min q q') + 1 < unat (max q q') then [SequenceGap (min q q') (max q q')] else [])"
    by (auto simp: gap_kinds_def Let_def sq min_def max_def insort_key.simps)
  have "audit_spec uuid (written 0x11000 ?two) True ?ds =
      [StorePresent (uuid (sid t)) q 0x40000000 TEST_CTIME, StorePresent (uuid (sid t')) q' 0x40000000 TEST_CTIME] @
      gap_kinds ?ds @ non_persistent_spec uuid (written 0x11000 ?two) ?ds 0 @
      non_persistent_spec uuid (written 0x11000 ?two) ?ds 1"
    by (simp add: audit_spec_def present)
  note spec_two = this [unfolded gaps flagged]
  show "test_audit voc uuid (build [spec t q a, spec t' q' a'] True True) = Some (map (Anomaly_new voc)
     ([StorePresent (uuid (sid t)) q (1024 * 1024 * 1024) TEST_CTIME,
       StorePresent (uuid (sid t')) q' (1024 * 1024 * 1024) TEST_CTIME] @
      (if unat (min q q') + 1 < unat (max q q') then [SequenceGap (min q q') (max q q')] else []) @
      (if is_persistent (AttributeFlags a) then [] else [StoreNonPersistent (uuid (sid t)) a]) @
      (if is_persistent (AttributeFlags a') then [] else [StoreNonPersistent (uuid (sid t')) a'])))"
  proof -
    have "length (written 0x11000 ?two) \<le> isize_max"
      by (simp only: length_written [OF fits(4)] isize_max_val)
    moreover have "volume_has_header (written 0x11000 ?two)"
      by (rule stores_written(1) [OF audit_catalogs(3)]) simp
    ultimately
    have "test_audit voc uuid (Some (written 0x11000 ?two)) =
        Some (map (Anomaly_new voc) (audit_spec uuid (written 0x11000 ?two) True ?ds))"
      by (simp only: test_audit_result audit_stores(3))
    then show ?thesis unfolding build_def built_images(5) spec_two by simp
  qed
qed

text \<open>The tests of the kinds and of the times hold of the model: what the attributes of the tests
  say, the code, the note, the category and the techniques of each kind, the subject and the evidence of
  a store, and the instant of the creation time of the tests, in nanoseconds since 1970.\<close>
theorem kind_tests:
  "is_persistent (AttributeFlags PERSISTENT_CA) \<and> \<not> is_persistent (AttributeFlags CLIENT_ACCESSIBLE) \<and>
   kind_code k \<noteq> [] \<and> kind_note k \<noteq> [] \<and>
   anomaly_severity (Anomaly_new voc k) = kind_severity voc k \<and>
   kind_mitre NoShadowCopies = [ascii ''T1490''] \<and> kind_timestamps jiff NoShadowCopies = [] \<and>
   kind_mitre (SequenceGap 1 3) = [ascii ''T1490''] \<and>
   kind_category voc (SequenceGap 1 3) = cat_residue voc \<and>
   kind_category voc (StoreNonPersistent i fl) = cat_provenance voc \<and>
   kind_category voc (StorePresent i q n c) = cat_history voc \<and>
   map (\<lambda>s. (scheme s, subject_kind s)) (kind_subjects (StorePresent i q n c)) = [(ascii ''vss'', ascii ''shadow_copy'')] \<and>
   ascii ''sequence'' \<in> evidence_field ` set (kind_evidence (StorePresent i q n c)) \<and>
   filetime_to_rfc3339 jiff TEST_CTIME = jiff 1672868280825426800 \<and>
   filetime_to_rfc3339 jiff 0 = None \<and> filetime_to_rfc3339 jiff 1 = None"
proof (intro conjI)
  show "is_persistent (AttributeFlags PERSISTENT_CA)" "\<not> is_persistent (AttributeFlags CLIENT_ACCESSIBLE)"
    by (simp_all add: is_persistent_def attr_contains_def attribute_bits_def PERSISTENT_CA_def PERSISTENT_def CLIENT_ACCESSIBLE_def)
  show "kind_code k \<noteq> []" "kind_note k \<noteq> []"
    by (cases k; simp add: ascii_def)+
  show "filetime_to_rfc3339 jiff TEST_CTIME = jiff 1672868280825426800"
    by (simp add: filetime_to_rfc3339_def TEST_CTIME_def FILETIME_EPOCH_DIFF_def)
qed (simp_all add: Anomaly_new_def shadow_copy_subject_def evidence_def filetime_to_rfc3339_def
      FILETIME_EPOCH_DIFF_def)

end
