(* ===== verification/Spec2Isabelle.thy ===== *)
theory Spec2Isabelle
  imports Vss_Layers Vsc_Forensic_Props Vss_Format_Props Vss_Fuzz Faulty_Reader_Props
    Vss_Cost_Props Vss_Source_Tests Vsc_Forensic_Tests
begin

text \<open>
  A verification library of the Volume Shadow Copy reader \<open>vsc-core\<close> (\<open>core/src\<close>) and of the
  analyzer \<open>vsc-forensic\<close> (\<open>forensic/src/lib.rs\<close>).

  The program. A volume that carries shadow copies has a header at 0x1E00 that names a catalog,
  a chain of 16 KiB blocks with an entry for each store. A store keeps, in a diff area reached
  through its header, a descriptor for every block that was overwritten since the snapshot, and
  a bitmap of the blocks that were unallocated. \<open>VssVolume::open\<close> enumerates the stores,
  \<open>store_info\<close> decodes the information of one, \<open>snapshot\<close> builds the state from which
  \<open>read_block\<close> and \<open>read_at\<close> reconstruct the volume as it was, \<open>VssSnapshotSource\<close> publishes
  that as an image source, and \<open>audit\<close> reports what the stores show. Everything is read from an
  untrusted image, through a generic reader.

  The model, a theory per part, in the order the code builds on itself:

  \<^item> \<open>Vss_Prelude\<close>: machine integers, slices, outcomes, little-endian integers, UTF-16 and number
    formatting. A pure function that may panic returns an option, and \<open>None\<close> is the panic: every
    \<open>+\<close>, \<open>-\<close>, \<open>*\<close> that could overflow, every index and range, every \<open>copy_from_slice\<close> is such a
    step. A function that uses the reader returns \<open>Ok\<close>, \<open>Err\<close> or \<open>Panic\<close> and the new reader.
  \<^item> \<open>Rust_Io\<close>: the reader \<open>R: Read + Seek\<close>, a record of its three operations over any type of
    reader. Two contracts as locales: \<open>read_seek\<close>, where every operation may fail at any time
    with any error and \<open>read_exact\<close> only fills the buffer it is given, and \<open>volume_reader\<close>, a
    reader over a volume that does not change. \<open>Cursor<Vec<u8>>\<close> interprets both.
  \<^item> \<open>Vss_Bytes\<close>, \<open>Vss_Guid\<close>, \<open>Vss_Error\<close>: \<open>bytes.rs\<close>, \<open>guid.rs\<close>, \<open>error.rs\<close>.
  \<^item> \<open>Vss_Codec\<close>: the contract of a record and its parser, as the locales \<open>record_codec\<close> and
    \<open>exact_codec\<close>; \<open>Vss_Block\<close>, \<open>Vss_Catalog\<close>, \<open>Vss_Store\<close>: the records of \<open>block.rs\<close>,
    \<open>catalog.rs\<close> and \<open>store.rs\<close>, with the layouts their parsers invert.
  \<^item> \<open>Vss_Chain\<close>: what a chain of blocks is, and the locale \<open>chain_walk\<close> of the loops that walk
    one, with its lemmas proved once for the catalog, the diff area and the bitmap.
  \<^item> \<open>Vss_Volume\<close>: \<open>lib.rs\<close>, with the specifications \<open>volume_stores\<close> and \<open>store_info_spec\<close>.
  \<^item> \<open>Vss_Reconstruct\<close>: \<open>reconstruct.rs\<close>; \<open>Vss_Reconstruct_Spec\<close>: its specification, where
    \<open>snapshot_byte\<close> is the snapshot as a function from positions to bytes, and the refinement.
  \<^item> \<open>Vss_Copy_On_Write\<close>: the writer that the format records, as the step relation \<open>cow_step\<close>
    (whole blocks under plain descriptors, sub-blocks under overlays), and its invariant; the
    reconstruction is proved against it.
  \<^item> \<open>Vss_Layers\<close>: a volume with several snapshots, as the inductive \<open>history\<close>, and the documented
    algorithm that applies the stores from the newest one back; where the code, which applies one
    store, agrees with it and where it does not.
  \<^item> \<open>Vss_Source\<close>: \<open>vfs.rs\<close>, with the contract of an image source as the locale \<open>image_source\<close>
    that every reader over a volume satisfies (the \<open>sublocale\<close>).
  \<^item> \<open>Vss_Locking\<close>: the same source with its mutex taken apart, as the step relation \<open>lock_step\<close> of
    threads that interleave between the blocks of their reads; a simulation shows that the lock
    makes each read one step, and every thread can always come to its end.
  \<^item> \<open>Vsc_Forensic\<close>: the analyzer; \<open>Vss_Fuzz\<close>: the fuzz targets.
  \<^item> \<open>Reader_Simulation\<close>: two readers that behave alike give every operation the same result, or
    the one that fails gives its own error, related to the reader it leaves; the locales
    \<open>reader_simulation\<close> and, for the chain walks, \<open>chain_walk_pair\<close>. Two uses of it follow.
  \<^item> \<open>Faulty_Reader\<close>: readers over a volume that fail, the locale \<open>faulty_reader\<close>; where the reader
    lists the errors it has returned, \<open>logging_reader\<close>, so that an error of an operation is traced
    to the reader (\<open>logged\<close> puts such a list beside any reader and changes no result); where the
    failures end, \<open>recovering_reader\<close>. \<open>Vss_Cost\<close>: readers with a meter, the locale \<open>metered\<close>, and
    the bound of each operation in the costs of a seek and of a read; for a range, block by block
    over the store blocks that make up each (\<open>block_fetches\<close>).
  \<^item> \<open>Vss_Test_Images\<close>: the images that the unit tests build, write by write. The fields of an image
    are found in the list of the writes (\<open>slice_of\<close>), so no proof holds its 256 KiB. The tests
    themselves, as theorems over the model: \<open>Vss_Tests\<close>, of the reconstruction, its corrupt chains,
    ranges and the image source; \<open>Vss_Open_Tests\<close>, of \<open>open\<close>, \<open>store_info\<close>, the snapshots refused
    and the parsers; \<open>Vss_Source_Tests\<close>, of a source whose reader fails and of the threads that
    share one; \<open>Vsc_Forensic_Tests\<close>, of the analyzer.

  The properties stand in \<open>Vss_Format_Props\<close>, \<open>Vss_Volume_Props\<close>, \<open>Vss_Reconstruct_Props\<close>,
  \<open>Vss_Copy_On_Write\<close>, \<open>Vss_Layers\<close>, \<open>Vss_Source\<close>, \<open>Vsc_Forensic_Props\<close>, \<open>Faulty_Reader_Props\<close>,
  \<open>Vss_Cost_Props\<close>, \<open>Vss_Locking\<close>, and those that span the program here. They are of seven sorts. No operation
  panics over any reader, whatever it returns: any bytes, any sizes, a failure at any call. Over
  a volume, each operation returns exactly what its specification says, errors included. What
  was laid out on disk in the documented layout is what the program finds (records, catalogs,
  diff areas, store information). The whole recovers the bytes of a volume that was written
  copy-on-write, if every sub-block that changed since the snapshot was copied to the store of
  that snapshot: so through the newest store; through an older one, wherever the changes made
  since the next snapshot did not touch what the store itself did not save. On a reader that
  fails, each operation gives what the volume has, or exactly the error that the reader returned,
  can be repeated, and repeated often enough succeeds; an audit leaves out the attribute findings
  of exactly the stores at which the reader failed. Threads that share an image source do not disturb each other
  and none waits for ever. And the work of each operation is bounded, in reader operations and in
  bytes asked for, over every reader.

  Loops. Every function is total: the walks of a chain end because the blocks counted rise to
  their cap (4096 for the catalog, \<open>2\<^sup>2\<^sup>0\<close> for the store chains), as in the code, and the other
  loops because their offset or the bytes written rise; there is no fuel. The loop of \<open>read_at\<close>
  advances even where its cursor saturates at \<open>u64::MAX\<close>, where it gives the last byte again.

  What is assumed of the rest. \<open>usize\<close> has 64 bits; arithmetic panics on overflow, as in a build
  with overflow checks; an allocation succeeds up to \<open>isize::MAX\<close> bytes. Third-party code is a
  parameter: \<open>uuid\<close> and \<open>jiff\<close> render a GUID and a time, \<open>forensicnomicon\<close> has the severities,
  the categories and the default \<open>to_finding\<close>, and of \<open>forensic_vfs\<close> there is the one error the
  code builds and the contract it states. Not modelled: the derived \<open>Debug\<close> and \<open>Clone\<close>, the
  assertions of the unit tests on what the third-party crates render or build, the integration
  tests, which need a disk image that is not in the repository, and the oracle they
  compare with. No other code is left: what the model does not translate of \<open>core/src\<close> and
  \<open>forensic/src\<close> is documentation and \<open>use\<close> lines.

  What the model shows of the code beside its correctness: the readers of \<open>bytes.rs\<close> do panic at
  an offset next to \<open>usize::MAX\<close> (no caller passes one); a block past the end of the volume is not
  always zeros; the last block of a volume whose size is not a multiple of 16 KiB is not
  passed through but reads as zeros; and the snapshot of a store that is not the newest has the
  live bytes where only newer stores saved the old ones.
\<close>

section \<open>The stores of a volume with more than a catalog\<close>

lemma block_at_append: "in_volume v off \<Longrightarrow> block_at (v @ x) off = block_at v off"
  by (simp add: block_at_def in_volume_def subslice_append_left)

lemma catalog_written_append: "catalog_written v bs first \<Longrightarrow> catalog_written (v @ x) bs first"
proof (induction bs arbitrary: first)
  case (Cons b bs)
  obtain off es where b: "b = (off, es)" by (cases b)
  from Cons.prems b have iv: "in_volume v off" by simp
  then have "in_volume (v @ x) off" by (simp add: in_volume_def)
  with Cons b show ?case by (auto simp: block_at_append [OF iv])
qed simp

lemma header_of_append: "header_of v = Some h \<Longrightarrow> header_of (v @ x) = Some h"
  by (auto simp: header_of_def subslice_append_left split: if_splits)

section \<open>Properties of the whole program\<close>

text \<open>C16: over any reader, whatever bytes it returns and whenever it fails, no operation of the
  library panics: opening a volume, the information of a store, building a snapshot, reading a
  block or a range of it, opening an image source, reading from it. A buffer keeps its length,
  a block has 16384 bytes, and the count of a read never passes the end of its buffer or of the
  source.\<close>
theorem core_never_panics:
  assumes "read_seek ops" and "length buf \<le> isize_max"
  shows "open_volume ops r \<noteq> Panic \<and> fst (store_info ops i vol) \<noteq> Panic \<and>
    fst (snapshot ops i vol) \<noteq> Panic \<and>
    fst (Snapshot_read_block ops off s) \<noteq> Panic \<and>
    (\<forall>b s'. Snapshot_read_block ops off s = (Ok b, s') \<longrightarrow> length b = 16384) \<and>
    fst (Snapshot_read_at ops off buf s) \<noteq> Panic \<and>
    length (fst (snd (Snapshot_read_at ops off buf s))) = length buf \<and>
    source_open ops r i \<noteq> Panic \<and> fst (source_read_at ops off buf src) \<noteq> Panic \<and>
    length (fst (snd (source_read_at ops off buf src))) = length buf \<and>
    (\<forall>n s'. source_read_at ops off buf src = (Ok n, s') \<longrightarrow>
       n \<le> length buf \<and> n \<le> unat (source_len src) - unat off)"
  using open_never_panics [OF assms(1), of r] store_info_never_panics [OF assms(1), of i vol]
    snapshot_never_panics [OF assms(1), of i vol] snapshot_reads_never_panic [OF assms, of off s]
    source_never_panics [OF assms, of r i off src]
  by blast

theorem core_never_panics_witness:
  "source_open cursor_ops (cursor_new [1, 2, 3]) 0 \<noteq> Panic \<and>
   fst (source_read_at cursor_ops 0 [1, 2] (empty_source [7])) \<noteq> Panic"
proof -
  have "length [1, 2 :: u8] \<le> isize_max" by (simp add: isize_max_val)
  from core_never_panics [OF read_seek_cursor this] show ?thesis by blast
qed

text \<open>C1: the program recovers a shadow copy. Take a snapshot of a volume \<open>v0\<close>, which may have older
  ones, and write to it as the format prescribes, copying each sub-block of a protected block to
  the store of this snapshot, with its block or in an overlay, before its first change. If the
  resulting volume \<open>v\<close> has a VSS header naming a written catalog of the stores \<open>ss\<close>, and the diff
  area of store \<open>i\<close> lists the descriptors of the copies, then opening store \<open>i\<close> as an image source
  succeeds, and reading any range of protected blocks from it returns the bytes of \<open>v0\<close>.\<close>
theorem shadow_copy_recovers_volume:
  assumes "volume_reader ops invar contents position" and "reads invar contents v r"
    and "header_of v = Some hdr" and "has_vss_identifier hdr" and "header_catalog_offset hdr = first"
    and "first \<noteq> 0" and "catalog_written v bs first"
    and "distinct (map fst bs)" and "length bs \<le> MAX_CATALOG_BLOCKS"
    and "concat (map snd bs) = concat (map store_entries ss) @ replicate k Empty"
    and "\<forall>d \<in> set ss. store_wf d"
    and "i < length ss" and "store_header_offset (ss ! i) = Some h"
    and "store_bitmap_offset (ss ! i) = Some bm"
    and "diff_written v dbs (saturating_add h 0x4000)" and "distinct (map fst dbs)"
    and "length dbs \<le> MAX_STORE_BLOCKS"
    and "history U v ((v0, concat (map snd dbs)) # older)"
    and "\<forall>n \<in> U. \<not> is_unallocated (state_of v h bm) (of_nat n)"
    and "\<forall>p. unat off \<le> p \<longrightarrow> p < unat off + length buf \<longrightarrow>
           p div BLOCK_SIZE \<in> U \<and> has_block v0 (p div BLOCK_SIZE)"
    and "length buf \<le> isize_max" and "unat off + length buf \<le> length v0" and "length v0 < 2 ^ 64"
  shows "\<exists>src src'. source_open ops r i = Ok src \<and>
    source_read_at ops off buf src = (Ok (length buf), (subslice v0 (unat off) (length buf), src'))"
proof -
  let ?st = "state_of v h bm"
  have "volume_stores v = ss" by (rule volume_stores_written [OF assms(3-11)])
  then have spec: "snapshot_state_spec v (volume_stores v) i = Ok ?st"
    using assms(12-14) by (simp add: snapshot_state_spec_def)
  obtain src where src: "source_open ops r i = Ok src" "source_valid invar contents src"
    "source_image contents src = snapshot_image v ?st"
    using source_open_over [OF assms(1,2), of i] unfolding spec by auto
  have block: "(of_nat BLOCK_SIZE :: u64) = 0x4000" by (simp add: vss_consts)
  have map: "block_map ?st = group (concat (map snd dbs))"
    using diff_written_descriptors [OF assms(15-17)] by (simp add: state_of_def block)
  note inv = history_newest_invariant [OF assms(18)]
  then have len: "length v = length v0" by (simp add: cow_invariant_def)
  have "subslice (snapshot_image v ?st) (unat off) (length buf) = subslice v0 (unat off) (length buf)"
    using cow_invariant_range [OF inv assms(23) map assms(19,20,22)]
      snapshot_image_range [of "unat off" "length buf" v ?st] assms(22) len by simp
  moreover have "min (length buf) (length v - unat off) = length buf" using assms(22) len by simp
  ultimately have "answer (source_image contents src) off buf =
      (Ok (length buf), subslice v0 (unat off) (length buf))"
    by (simp add: answer_def src(3) Let_def)
  with image_source.read_law [OF source_meets_contract [OF assms(1)] src(2) assms(21), of off] src(1)
  show ?thesis by auto
qed

text \<open>Six blocks: the VSS header, the catalog, the store header, the diff area, the kept block, and
  the block that was overwritten.\<close>

definition kept_descriptor :: BlockDescriptor where
  "kept_descriptor = \<lparr>original_offset = 0x14000, relative_store_offset = 0, store_offset = 0x10000,
     flags = BlockDescriptorFlags 0, allocation_bitmap = 0\<rparr>"

definition kept_diff_block :: bytes where
  "kept_diff_block = encode_diff_block sample_diff_header [kept_descriptor]"

definition volume_before :: bytes where
  "volume_before = sample_volume @ replicate (3 * BLOCK_SIZE) 0 @ replicate BLOCK_SIZE 2"

definition volume_after :: bytes where
  "volume_after = sample_volume @ replicate BLOCK_SIZE 0 @ kept_diff_block @
     replicate BLOCK_SIZE 2 @ replicate BLOCK_SIZE 1"

lemma sample_volume_blocks: "length sample_volume = 2 * BLOCK_SIZE"
  by (simp add: length_sample_volume vss_consts)

lemma length_kept_diff_block [simp]: "length kept_diff_block = BLOCK_SIZE"
  by (simp add: kept_diff_block_def length_encode_diff_block records_per_block_val)

lemma length_volumes: "length volume_before = 6 * BLOCK_SIZE" "length volume_after = 6 * BLOCK_SIZE"
  by (simp_all add: volume_before_def volume_after_def sample_volume_blocks)

lemma volume_writes: "(cow_write {5})\<^sup>*\<^sup>* (volume_before, []) (volume_after, [kept_descriptor])"
proof -
  let ?v1 = "sample_volume @ replicate (2 * BLOCK_SIZE) 0 @ replicate BLOCK_SIZE 2 @ replicate BLOCK_SIZE 1 :: bytes"
  have v1: "overwrite (overwrite volume_before (4 * BLOCK_SIZE) (vblock volume_before 5))
      (5 * BLOCK_SIZE) (replicate BLOCK_SIZE 1) = ?v1"
    by (simp add: overwrite_def volume_before_def vblock_def subslice_append_right sample_volume_blocks)
  have "cow_write {5} (volume_before, [])
      (overwrite (overwrite volume_before (4 * BLOCK_SIZE) (vblock volume_before 5))
        (5 * BLOCK_SIZE) (replicate BLOCK_SIZE 1), [] @ [kept_descriptor])"
    by (rule first_write)
      (simp_all add: has_block_def length_volumes kept_descriptor_def block_offset_def
        is_plain_def flag_bits vss_consts)
  moreover have "cow_write {5} (?v1, [kept_descriptor])
      (overwrite ?v1 (3 * BLOCK_SIZE) kept_diff_block, [kept_descriptor])"
    by (rule other_write)
      (simp_all add: has_block_def kept_descriptor_def block_offset_def length_sample_volume vss_consts)
  moreover have "overwrite ?v1 (3 * BLOCK_SIZE) kept_diff_block = volume_after"
    by (simp add: overwrite_def volume_after_def sample_volume_blocks)
  ultimately show ?thesis
    unfolding v1 by (auto intro: rtranclp.rtrancl_into_rtrancl)
qed

lemma kept_descriptor_nonzero: "\<not> zero_record (encode_descriptor kept_descriptor)"
proof
  assume "zero_record (encode_descriptor kept_descriptor)"
  then have "encode_descriptor kept_descriptor = replicate 32 0"
    by (intro replicate_eqI) (auto simp: zero_record_def list_all_iff)
  then have "descriptor_of (replicate 32 0) = kept_descriptor"
    by (metis descriptor_of_encode)
  moreover have "store_offset (descriptor_of (replicate 32 0)) = 0"
    by (simp add: descriptor_of_def BlockDescriptor_parse_fields field_def)
  ultimately show False by (simp add: kept_descriptor_def)
qed

lemma volume_diff_written: "diff_written volume_after [(0xC000, [kept_descriptor])] 0xC000"
proof -
  have "block_at volume_after 0xC000 = kept_diff_block"
    using length_kept_diff_block
    by (simp add: block_at_def volume_after_def subslice_append_right subslice_append_left
        length_sample_volume vss_consts)
  moreover have "in_volume volume_after 0xC000"
    by (simp add: in_volume_def length_volumes vss_consts)
  moreover have "sbh_record_type sample_diff_header = DIFF_AREA_RECORD_TYPE"
    "sbh_next_offset sample_diff_header = 0"
    by (simp_all add: sample_diff_header_def vss_consts)
  ultimately show ?thesis
    using kept_descriptor_nonzero by (auto simp: records_per_block_val kept_diff_block_def)
qed

lemma volume_bitmap_empty: "store_bitmap volume_after 0xC000 = []"
proof -
  have "block_at volume_after 0xC000 = kept_diff_block"
    using length_kept_diff_block
    by (simp add: block_at_def volume_after_def subslice_append_right subslice_append_left
        length_sample_volume vss_consts)
  then have "\<not> accept_bitmap (block_at volume_after 0xC000)"
    by (simp add: accept_bitmap_def kept_diff_block_def encode_diff_block_def store_header_of_encode
        sample_diff_header_def vss_consts)
  then have "chain accept_bitmap next_store_block volume_after n {} 0xC000 = []" for n
    by (cases n) simp_all
  then show ?thesis by (simp add: store_bitmap_def bitmap_pieces_def)
qed

theorem shadow_copy_recovers_volume_witness:
  "\<exists>src src'. source_open cursor_ops (cursor_new volume_after) 0 = Ok src \<and>
     source_read_at cursor_ops 0x14005 [0, 0, 0] src = (Ok 3, ([2, 2, 2], src'))"
proof -
  have r: "reads cursor_invar cursor_data volume_after (cursor_new volume_after)"
    by (rule cursor_reads) (simp add: length_volumes vss_consts)
  have header: "header_of volume_after = Some sample_header"
    unfolding volume_after_def by (rule header_of_append [OF sample_volume_header])
  have catalog: "catalog_written volume_after [(0x4000, sample_entries)] 0x4000"
    unfolding volume_after_def by (rule catalog_written_append [OF sample_volume_catalog])
  have diff: "diff_written volume_after [(0xC000, [kept_descriptor])] (saturating_add 0x8000 0x4000)"
    using volume_diff_written by (simp add: saturating_add_def)
  have writes: "history {5} volume_after
      ((volume_before, concat (map snd [(0xC000 :: u64, [kept_descriptor])])) # [])"
    using history_of_steps [OF conjunct1 [OF cow_writes_steps [OF volume_writes]]] by simp
  have clear: "\<forall>n \<in> {5}. \<not> is_unallocated (state_of volume_after 0x8000 0xC000) (of_nat n)"
    by (simp add: is_unallocated_def state_of_def volume_bitmap_empty vec_get_def)
  have range: "\<forall>p. unat (0x14005 :: u64) \<le> p \<longrightarrow> p < unat (0x14005 :: u64) + length [0 :: u8, 0, 0] \<longrightarrow>
      p div BLOCK_SIZE \<in> {5} \<and> has_block volume_before (p div BLOCK_SIZE)"
    by (auto simp: has_block_def length_volumes vss_consts)
  have entries: "concat (map snd [(0x4000 :: u64, sample_entries)]) =
      concat (map store_entries [sample_store]) @ replicate 125 Empty"
    by (simp add: sample_entries_def)
  have "subslice volume_before 0x14005 3 = [2, 2, 2]"
    by (simp add: volume_before_def subslice_append_right length_sample_volume vss_consts numeral_3_eq_3)
  moreover have "\<exists>src src'. source_open cursor_ops (cursor_new volume_after) 0 = Ok src \<and>
      source_read_at cursor_ops 0x14005 [0, 0, 0] src =
        (Ok (length [0 :: u8, 0, 0]), (subslice volume_before (unat (0x14005 :: u64)) (length [0 :: u8, 0, 0]), src'))"
    by (rule shadow_copy_recovers_volume [OF volume_reader_cursor r header _ _ _ catalog _ _ entries
          _ _ _ _ diff _ _ writes clear range])
      (simp_all add: sample_header_def sample_store_def store_wf_def length_volumes vss_consts)
  ultimately show ?thesis by (simp add: numeral_3_eq_3)
qed

text \<open>C2: the audit of a volume reports the stores that were written to it. Opening a volume whose
  header names a written catalog of the stores \<open>ss\<close> and auditing it gives one presence per store
  in catalog order, with the identifier, sequence number, size and creation time that were
  written, the gaps in the written sequence numbers, and for each store whose written
  information lacks the persistent bit, that it is non-persistent; nothing else.\<close>
theorem audit_of_written_volume:
  assumes "volume_reader ops invar contents position" and "reads invar contents v r"
    and "header_of v = Some h" and "has_vss_identifier h" and "header_catalog_offset h = first"
    and "first \<noteq> 0" and "catalog_written v bs first"
    and "distinct (map fst bs)" and "length bs \<le> MAX_CATALOG_BLOCKS"
    and "concat (map snd bs) = concat (map store_entries ss) @ replicate n Empty"
    and "\<forall>d \<in> set ss. store_wf d"
  shows "\<exists>vol. open_volume ops r = Ok vol \<and>
    fst (audit voc uuid ops vol) = Some (map (Anomaly_new voc)
      (if ss = [] then [NoShadowCopies]
       else map (store_present uuid) ss @ gap_kinds ss @
         concat (map (\<lambda>i. case store_info_spec v ss i of
             Ok info \<Rightarrow> if is_persistent (attributes info) then []
               else [StoreNonPersistent (store_id_string uuid (ss ! i)) (attribute_bits (attributes info))]
           | _ \<Rightarrow> []) [0..<length ss])))"
proof -
  from open_volume_over [OF assms(1,2)] obtain r1 where r1: "reads invar contents v r1" and
    vol: "open_volume ops r = Ok \<lparr>reader = r1, total_size = of_nat (length v),
      has_vss_header = volume_has_header v, catalog_offset = volume_catalog_offset v,
      stores = volume_stores v\<rparr>" (is "_ = Ok ?vol") by blast
  have "stores ?vol = ss" and "has_vss_header ?vol"
    using volume_stores_written [OF assms(3-11)] assms(3,4) by (simp_all add: volume_has_header_def)
  with audit_over [OF assms(1), of v ?vol voc uuid] r1 vol show ?thesis
    by (auto simp: audit_spec_def non_persistent_spec_def [abs_def])
qed

theorem audit_of_written_volume_witness:
  "\<exists>vol. open_volume cursor_ops (cursor_new sample_volume) = Ok vol \<and>
     fst (audit sample_vocabulary (\<lambda>_. [65]) cursor_ops vol) = Some (map (Anomaly_new sample_vocabulary)
       [StorePresent [65] 1 32768 130000000000000000])"
proof -
  have entries: "concat (map snd [(0x4000 :: u64, sample_entries)]) =
      concat (map store_entries [sample_store]) @ replicate 125 Empty"
    by (simp add: sample_entries_def)
  have short: "store_info_spec sample_volume [sample_store] 0 = Err (StoreOffsetOutOfBounds 0 0x8000 32768)"
    by (simp add: store_info_spec_def sample_store_def length_sample_volume)
  have kinds: "map (store_present (\<lambda>_. [65])) [sample_store] = [StorePresent [65] 1 32768 130000000000000000]"
    "gap_kinds [sample_store] = []"
    by (simp_all add: store_present_def store_id_string_def format_guid_def sample_store_def gap_kinds_def)
  have "\<exists>vol. open_volume cursor_ops (cursor_new sample_volume) = Ok vol \<and>
    fst (audit sample_vocabulary (\<lambda>_. [65]) cursor_ops vol) = Some (map (Anomaly_new sample_vocabulary)
      (if [sample_store] = [] then [NoShadowCopies]
       else map (store_present (\<lambda>_. [65])) [sample_store] @ gap_kinds [sample_store] @
         concat (map (\<lambda>i. case store_info_spec sample_volume [sample_store] i of
             Ok info \<Rightarrow> if is_persistent (attributes info) then []
               else [StoreNonPersistent (store_id_string (\<lambda>_. [65]) ([sample_store] ! i))
                 (attribute_bits (attributes info))]
           | _ \<Rightarrow> []) [0..<length [sample_store]])))"
    by (rule audit_of_written_volume [OF volume_reader_cursor sample_volume_reads sample_volume_header
          _ _ _ sample_volume_catalog _ _ entries])
      (simp_all add: sample_header_def sample_store_def store_wf_def vss_consts)
  then show ?thesis using short kinds by simp
qed

text \<open>C36: the image source and the borrowed snapshot agree: over the same volume with the same
  state, a read inside the volume gives the same bytes through both.\<close>
theorem source_agrees_with_snapshot:
  assumes "volume_reader ops invar contents position"
    and "source_valid invar contents src" and "v = contents (inner (source_reader src))"
    and "reads invar contents v (snapshot_reader s)" and "state s = source_state src"
    and "length buf \<le> isize_max" and "unat off + length buf \<le> length v"
  shows "fst (Snapshot_read_at ops off buf s) = Ok () \<and>
    fst (source_read_at ops off buf src) = Ok (length buf) \<and>
    fst (snd (source_read_at ops off buf src)) = fst (snd (Snapshot_read_at ops off buf s))"
proof -
  have size: "snapshot_volume_size (state s) = of_nat (length v)"
    using assms(2,3,5) by (simp add: source_valid_def)
  have bound: "unat off + length buf \<le> 2 ^ 64"
    using assms(7) volume_reader.holds_fits [OF assms(1,4)] by linarith
  from read_at_volume [OF assms(1,4) size assms(6) bound] obtain r' where
    "read_at ops (state s) off buf (snapshot_reader s) =
       (Ok (), (map (\<lambda>j. snapshot_byte v (state s) (unat off + j)) [0..<length buf], r'))" by blast
  moreover have "min (length buf) (length v - unat off) = length buf" using assms(7) by simp
  then have "answer (source_image contents src) off buf =
      (Ok (length buf), map (\<lambda>j. snapshot_byte v (state s) (unat off + j)) [0..<length buf])"
    using snapshot_image_range [OF assms(7), of "source_state src"] assms(3,5)
    by (simp add: answer_def source_image_def Let_def)
  ultimately show ?thesis
    using image_source.read_law [OF source_meets_contract [OF assms(1)] assms(2,6), of off]
    by (auto simp: Snapshot_read_at_def)
qed

theorem source_agrees_with_snapshot_witness:
  "fst (source_read_at cursor_ops 1 [0, 0] (empty_source [1, 2, 3])) = Ok 2"
proof -
  have valid: "source_valid cursor_invar cursor_data (empty_source [1, 2, 3])"
    by (rule empty_source_valid) (simp add: isize_max_val)
  let ?s = "\<lparr>snapshot_reader = cursor_new [1, 2, 3], state = source_state (empty_source [1, 2, 3])\<rparr>"
  have r: "reads cursor_invar cursor_data [1, 2, 3] (snapshot_reader ?s)"
    by (simp add: cursor_reads isize_max_val)
  have v: "[1, 2, 3] = cursor_data (inner (source_reader (empty_source [1, 2, 3])))"
    by (simp add: empty_source_def)
  from source_agrees_with_snapshot [OF volume_reader_cursor valid v r, of "[0, 0]" 1] show ?thesis
    by (simp add: isize_max_val)
qed

text \<open>C39: a block past the end of the volume need not read as zeros: if a plain descriptor of the
  diff area names it, it reads as that descriptor's store block.\<close>
theorem past_end_not_zeros:
  assumes "volume_reader ops invar contents position" and "reads invar contents v (snapshot_reader s)"
    and "snapshot_volume_size (state s) = of_nat (length v)"
    and "block_map (state s) = group [d]" and "is_plain d" and "in_volume v (store_offset d)"
    and "original_offset d = of_nat (unat off div BLOCK_SIZE * BLOCK_SIZE)" and "length v \<le> unat off"
  shows "fst (Snapshot_read_block ops off s) = Ok (block_at v (store_offset d))"
proof -
  have "\<not> is_patch d" using assms(5) by (simp add: is_plain_def is_patch_def)
  moreover have "block_map (state s) (original_offset d) = Some [d]" by (simp add: assms(4) group_def)
  ultimately show ?thesis
    unfolding read_block_result [OF assms(1-3)] snapshot_block_cases [OF assms(7)]
    using assms(5,6) by (simp add: base_source_def block_or_zeros_def)
qed

theorem past_end_not_zeros_witness:
  "fst (Snapshot_read_block cursor_ops 0x8000
     \<lparr>snapshot_reader = cursor_new (replicate BLOCK_SIZE 7),
      state = \<lparr>snapshot_volume_size = of_nat BLOCK_SIZE,
               block_map = group [sample_descriptor\<lparr>original_offset := 0x8000, store_offset := 0\<rparr>],
               bitmap = []\<rparr>\<rparr>) = Ok (replicate BLOCK_SIZE 7)"
proof -
  let ?v = "replicate BLOCK_SIZE 7 :: bytes"
  let ?d = "sample_descriptor\<lparr>original_offset := 0x8000, store_offset := 0\<rparr>"
  let ?s = "\<lparr>snapshot_reader = cursor_new ?v, state = \<lparr>snapshot_volume_size = of_nat BLOCK_SIZE,
     block_map = group [?d], bitmap = []\<rparr>\<rparr>"
  have r: "reads cursor_invar cursor_data ?v (snapshot_reader ?s)"
    by (simp add: cursor_reads vss_consts)
  have "fst (Snapshot_read_block cursor_ops 0x8000 ?s) = Ok (block_at ?v (store_offset ?d))"
    by (rule past_end_not_zeros [OF volume_reader_cursor r])
      (simp_all add: is_plain_def flag_bits sample_descriptor_def in_volume_def vss_consts)
  then show ?thesis by (simp add: block_at_def)
qed

text \<open>C40: the last part of a volume whose size is not a multiple of 16384 is not passed through:
  a block that no descriptor names and that the end of the volume cuts reads as zeros, whatever
  bytes the live volume holds there.\<close>
theorem partial_tail_reads_zero:
  assumes "volume_reader ops invar contents position" and "reads invar contents v (snapshot_reader s)"
    and "snapshot_volume_size (state s) = of_nat (length v)"
    and "bn = unat off div BLOCK_SIZE" and "block_map (state s) (of_nat (bn * BLOCK_SIZE)) = None"
    and "bn * BLOCK_SIZE < length v" and "length v < bn * BLOCK_SIZE + BLOCK_SIZE"
  shows "fst (Snapshot_read_block ops off s) = Ok (replicate 16384 0)"
proof -
  have "bn * BLOCK_SIZE < 2 ^ 64"
    using assms(6) volume_reader.holds_fits [OF assms(1,2)] by linarith
  then have "unat (of_nat (bn * BLOCK_SIZE) :: u64) = bn * BLOCK_SIZE"
    by (simp add: unat_of_nat del: of_nat_mult)
  then have "\<not> in_volume v (of_nat (bn * BLOCK_SIZE))"
    using assms(7) by (simp add: in_volume_def del: of_nat_mult)
  moreover have "BLOCK_SIZE = 16384" by (simp add: vss_consts)
  ultimately show ?thesis
    unfolding read_block_result [OF assms(1-3)] snapshot_block_cases [OF refl] assms(4) [symmetric]
    using assms(5) by (simp add: block_or_zeros_def del: of_nat_mult)
qed

theorem partial_tail_reads_zero_witness:
  "fst (Snapshot_read_block cursor_ops 0
     \<lparr>snapshot_reader = cursor_new [1, 2, 3], state = empty_state 3\<rparr>) = Ok (replicate 16384 0)"
proof -
  let ?s = "\<lparr>snapshot_reader = cursor_new [1, 2, 3], state = empty_state 3\<rparr>"
  have r: "reads cursor_invar cursor_data [1, 2, 3] (snapshot_reader ?s)"
    by (simp add: cursor_reads isize_max_val)
  show ?thesis
    by (rule partial_tail_reads_zero [OF volume_reader_cursor r _ refl])
      (simp_all add: empty_state_def vss_consts)
qed

end
